(* ===== verification/Prelude.thy ===== *)
theory Prelude
  imports Main "HOL-Library.Word" "HOL-Library.Multiset"
begin

text \<open>
  Shared vocabulary of the development: the machine types of the Rust source, the result
  and state monads in which fallible and stateful functions are written, the total
  correctness predicate \<open>ok\<close> with its rules, the search loop that several components
  share, and the decimal printing of integers that the source's format strings use.
\<close>

section \<open>Machine types\<close>

type_synonym byte = "8 word"
type_synonym u16 = "16 word"
type_synonym u32 = "32 word"
type_synonym u64 = "64 word"
type_synonym i64 = "64 word"

section \<open>Errors and results\<close>

text \<open>
  \<open>Fail msg\<close> is an \<open>Err(msg)\<close> of the source, \<open>Panic\<close> a Rust panic (index out of
  range, failed subtraction, \<open>unwrap\<close>), \<open>Diverge\<close> a loop that does not return.
\<close>

datatype error = Fail string | Panic | Diverge

type_synonym 'a result = "error + 'a"

named_theorems result_simps \<open>evaluation of the result and state monads\<close>

definition rbind :: "'a result \<Rightarrow> ('a \<Rightarrow> 'b result) \<Rightarrow> 'b result" where
  "rbind m f = (case m of Inl e \<Rightarrow> Inl e | Inr x \<Rightarrow> f x)"

lemma rbind_simps [simp, result_simps]:
  "rbind (Inr x) f = f x"
  "rbind (Inl e) f = Inl e"
  by (simp_all add: rbind_def)

lemma rbind_Inr_iff: "rbind m f = Inr y \<longleftrightarrow> (\<exists>x. m = Inr x \<and> f x = Inr y)"
  by (cases m) auto

lemma rbind_assoc: "rbind (rbind m f) g = rbind m (\<lambda>x. rbind (f x) g)"
  by (cases m) auto

text \<open>\<open>iter().map(f).collect()\<close> for a function that may fail: the first error stops it.\<close>

primrec rmap :: "('a \<Rightarrow> 'b result) \<Rightarrow> 'a list \<Rightarrow> 'b list result" where
  "rmap f [] = Inr []"
| "rmap f (x # xs) = rbind (f x) (\<lambda>y. rbind (rmap f xs) (\<lambda>ys. Inr (y # ys)))"

lemma rmap_all: "(\<And>x. x \<in> set xs \<Longrightarrow> f (g x) = Inr x) \<Longrightarrow> rmap f (map g xs) = Inr xs"
  by (induction xs) simp_all

text \<open>Rust's checked subtraction on \<open>usize\<close>.\<close>

definition checked_sub :: "nat \<Rightarrow> nat \<Rightarrow> nat result" where
  "checked_sub a b = (if b \<le> a then Inr (a - b) else Inl Panic)"

lemma checked_sub_simps [simp, result_simps]:
  "b \<le> a \<Longrightarrow> checked_sub a b = Inr (a - b)"
  "a < b \<Longrightarrow> checked_sub a b = Inl Panic"
  by (simp_all add: checked_sub_def)

section \<open>Stateful operations\<close>

text \<open>
  An operation on a state \<open>'s\<close> returns a result and the new state; the state is
  returned on errors too, because the source's \<open>&mut self\<close> keeps what was done before
  the error.
\<close>

type_synonym ('s, 'a) sm = "'s \<Rightarrow> 'a result \<times> 's"

definition ret :: "'a \<Rightarrow> ('s, 'a) sm" where
  "ret x s = (Inr x, s)"

definition raise :: "error \<Rightarrow> ('s, 'a) sm" where
  "raise e s = (Inl e, s)"

definition liftR :: "'a result \<Rightarrow> ('s, 'a) sm" where
  "liftR r s = (r, s)"

definition sbind :: "('s, 'a) sm \<Rightarrow> ('a \<Rightarrow> ('s, 'b) sm) \<Rightarrow> ('s, 'b) sm" where
  "sbind m f s = (case m s of (Inl e, s') \<Rightarrow> (Inl e, s') | (Inr x, s') \<Rightarrow> f x s')"

lemma sbind_simps [result_simps]:
  "m s = (Inr x, s') \<Longrightarrow> sbind m f s = f x s'"
  "m s = (Inl e, s') \<Longrightarrow> sbind m f s = (Inl e, s')"
  by (simp_all add: sbind_def)

lemma sbind_ret [simp]: "sbind (ret x) f = f x"
  by (simp add: sbind_def ret_def fun_eq_iff)

lemma sbind_assoc: "sbind (sbind m f) g = sbind m (\<lambda>x. sbind (f x) g)"
  by (auto simp: sbind_def fun_eq_iff split: prod.splits sum.splits)

lemma sbind_raise [simp]: "sbind (raise e) f = raise e"
  by (simp add: sbind_def raise_def fun_eq_iff)

text \<open>
  \<open>ok m s Q\<close>: run from \<open>s\<close>, the operation returns normally, and the value and the new
  state satisfy \<open>Q\<close>. Total correctness: a failing, panicking or diverging run is not ok.
\<close>

definition ok :: "('s, 'a) sm \<Rightarrow> 's \<Rightarrow> ('a \<Rightarrow> 's \<Rightarrow> bool) \<Rightarrow> bool" where
  "ok m s Q \<longleftrightarrow> (case m s of (Inl _, _) \<Rightarrow> False | (Inr x, s') \<Rightarrow> Q x s')"

named_theorems ok_simps \<open>decomposition of \<open>ok\<close> along the program text\<close>

lemma ok_bind [ok_simps]: "ok (sbind m f) s Q = ok m s (\<lambda>x s'. ok (f x) s' Q)"
  by (auto simp: ok_def sbind_def split: prod.splits sum.splits)

lemma ok_ret [ok_simps]: "ok (ret x) s Q = Q x s"
  by (simp add: ok_def ret_def)

lemma ok_raise [ok_simps]: "ok (raise e) s Q = False"
  by (simp add: ok_def raise_def)

lemma ok_liftR [ok_simps]: "ok (liftR (Inr x)) s Q = Q x s"
  by (simp add: ok_def liftR_def)

lemma ok_if [ok_simps]:
  "ok (if b then m else m') s Q = (if b then ok m s Q else ok m' s Q)"
  by simp

lemma okI: "m s = (Inr x, s') \<Longrightarrow> Q x s' \<Longrightarrow> ok m s Q"
  by (simp add: ok_def)

lemma okE:
  assumes "ok m s Q"
  obtains x s' where "m s = (Inr x, s')" "Q x s'"
  using assms by (auto simp: ok_def split: prod.splits sum.splits)

lemma ok_run: "m s = m' s \<Longrightarrow> ok m s Q = ok m' s Q"
  by (simp add: ok_def)

lemma ok_mono: "ok m s Q \<Longrightarrow> (\<And>x s'. Q x s' \<Longrightarrow> R x s') \<Longrightarrow> ok m s R"
  by (auto simp: ok_def split: prod.splits sum.splits)

text \<open>\<open>let result = ...\<close> without \<open>?\<close>: an error value does not stop the operation, a panic does.\<close>

definition caught :: "('s, 'a) sm \<Rightarrow> ('s, 'a result) sm" where
  "caught m s =
     (case m s of
        (Inl (Fail msg), s') \<Rightarrow> (Inr (Inl (Fail msg)), s')
      | (Inl e, s') \<Rightarrow> (Inl e, s')
      | (Inr x, s') \<Rightarrow> (Inr (Inr x), s'))"

lemma caught_ok: "ok m s Q \<Longrightarrow> ok (caught m) s (\<lambda>r s'. \<exists>x. r = Inr x \<and> Q x s')"
  by (auto simp: ok_def caught_def split: prod.splits sum.splits)

lemma caught_fail: "m s = (Inl (Fail msg), s') \<Longrightarrow> Q (Inl (Fail msg)) s' \<Longrightarrow> ok (caught m) s Q"
  by (simp add: ok_def caught_def)

lemma ok_caught: "ok (caught m) s Q \<longleftrightarrow> (\<exists>r s'. m s = (r, s') \<and> r \<noteq> Inl Panic \<and> r \<noteq> Inl Diverge \<and> Q r s')"
  by (cases "m s"; cases "fst (m s)"; cases "projl (fst (m s))") (auto simp: ok_def caught_def)

text \<open>\<open>fails m s e\<close>: run from \<open>s\<close>, the operation stops with the error \<open>e\<close>.\<close>

definition fails :: "('s, 'a) sm \<Rightarrow> 's \<Rightarrow> error \<Rightarrow> bool" where
  "fails m s e \<longleftrightarrow> fst (m s) = Inl e"

lemma fails_bind1: "fails m s e \<Longrightarrow> fails (sbind m f) s e"
  by (auto simp: fails_def sbind_def split: prod.splits sum.splits)

lemma fails_bind2: "ok m s P \<Longrightarrow> (\<And>x s'. P x s' \<Longrightarrow> fails (f x) s' e) \<Longrightarrow> fails (sbind m f) s e"
  by (auto simp: fails_def sbind_def ok_def split: prod.splits sum.splits)

lemma fails_liftR [simp]: "fails (liftR (Inl e)) s e'  \<longleftrightarrow> e' = e"
  by (auto simp: fails_def liftR_def)

lemma fails_liftR_bind: "fails (sbind (liftR (Inr x)) f) s e = fails (f x) s e"
  by (simp add: fails_def sbind_def liftR_def)

lemma fails_not_ok: "fails m s e \<Longrightarrow> \<not> ok m s Q"
  by (auto simp: fails_def ok_def split: prod.splits sum.splits)

section \<open>The search loop\<close>

text \<open>
  \<open>while pos < n && p(get(pos)) { pos += 1 }\<close>: the loop by which the B+Tree searches its
  slots and its separators. \<open>get\<close> may panic.
\<close>

function scan_from :: "(nat \<Rightarrow> 'k result) \<Rightarrow> ('k \<Rightarrow> bool) \<Rightarrow> nat \<Rightarrow> nat \<Rightarrow> nat result" where
  "scan_from get p n pos =
     (if pos < n
      then rbind (get pos) (\<lambda>k. if p k then scan_from get p n (Suc pos) else Inr pos)
      else Inr pos)"
  by pat_completeness auto
termination
  by (relation "measure (\<lambda>(get, p, n, pos). n - pos)") auto

declare scan_from.simps [simp del]

primrec prefix_len :: "('k \<Rightarrow> bool) \<Rightarrow> 'k list \<Rightarrow> nat" where
  "prefix_len p [] = 0"
| "prefix_len p (k # ks) = (if p k then Suc (prefix_len p ks) else 0)"

lemma prefix_len_le: "prefix_len p ks \<le> length ks"
  by (induction ks) auto

lemma prefix_len_less: "prefix_len p ks < Suc (length ks)"
  by (simp add: le_imp_less_Suc prefix_len_le)

lemma prefix_len_before: "i < prefix_len p ks \<Longrightarrow> p (ks ! i)"
  by (induction ks arbitrary: i) (auto simp: nth_Cons split: nat.splits if_splits)

lemma prefix_len_at: "prefix_len p ks < length ks \<Longrightarrow> \<not> p (ks ! prefix_len p ks)"
  by (induction ks) auto

lemma prefix_len_eqI:
  "i \<le> length ks \<Longrightarrow> (\<And>j. j < i \<Longrightarrow> p (ks ! j)) \<Longrightarrow> (i < length ks \<Longrightarrow> \<not> p (ks ! i))
   \<Longrightarrow> prefix_len p ks = i"
proof (induction ks arbitrary: i)
  case (Cons k ks)
  show ?case
  proof (cases i)
    case (Suc i')
    have "prefix_len p ks = i'"
    proof (rule Cons.IH)
      show "p (ks ! j)" if "j < i'" for j
        using Cons.prems(2) [of "Suc j"] Suc that by simp
    qed (use Cons.prems Suc in auto)
    moreover have "p k" using Cons.prems(2) [of 0] Suc by simp
    ultimately show ?thesis using Suc by simp
  qed (use Cons.prems in auto)
qed simp

text \<open>Where every element can be read, the loop stops at the first one that fails \<open>p\<close>.\<close>

lemma scan_from_prefix_len:
  assumes "\<And>i. i < length ks \<Longrightarrow> get i = Inr (ks ! i)"
  shows "scan_from get p (length ks) 0 = Inr (prefix_len p ks)"
proof -
  have "scan_from get p (length ks) pos = Inr (pos + prefix_len p (drop pos ks))"
    if "pos \<le> length ks" for pos
    using that
  proof (induction "length ks - pos" arbitrary: pos)
    case 0
    then show ?case by (simp add: scan_from.simps [of get p _ pos])
  next
    case (Suc m)
    then have lt: "pos < length ks" by simp
    have "scan_from get p (length ks) (Suc pos) = Inr (Suc pos + prefix_len p (drop (Suc pos) ks))"
      using Suc.hyps lt by (intro Suc.hyps) auto
    with lt assms [OF lt] show ?case
      by (simp add: scan_from.simps [of get p _ pos] Cons_nth_drop_Suc [symmetric])
  qed
  from this [of 0] show ?thesis by simp
qed

section \<open>Decimal printing\<close>

text \<open>\<open>{}\<close> of an unsigned and of a signed integer in the source's format strings.\<close>

fun show_nat :: "nat \<Rightarrow> string" where
  "show_nat n = (if n < 10 then [char_of (48 + n)] else show_nat (n div 10) @ [char_of (48 + n mod 10)])"

declare show_nat.simps [simp del]

definition show_int :: "int \<Rightarrow> string" where
  "show_int i = (if i < 0 then CHR ''-'' # show_nat (nat (- i)) else show_nat (nat i))"

text \<open>A string between single quotes.\<close>

definition quoted :: "string \<Rightarrow> string" where
  "quoted s = CHR 0x27 # s @ [CHR 0x27]"

text \<open>Comparing a literal character with the result of a computation.\<close>

lemma char_of_numeral [simp]:
  "c = char_of (numeral k :: nat) \<longleftrightarrow> (of_char c :: nat) = numeral k mod 256"
  "char_of (numeral k :: nat) = c \<longleftrightarrow> (of_char c :: nat) = numeral k mod 256"
  by (metis of_char_of char_of_char)+

section \<open>Lists\<close>

definition insert_at :: "nat \<Rightarrow> 'a \<Rightarrow> 'a list \<Rightarrow> 'a list" where
  "insert_at i x xs = take i xs @ x # drop i xs"

lemma length_insert_at [simp]: "length (insert_at i x xs) = Suc (length xs)"
  by (simp add: insert_at_def)

lemma mset_insert_at [simp]: "mset (insert_at i x xs) = add_mset x (mset xs)"
proof -
  have "mset (insert_at i x xs) = add_mset x (mset (take i xs @ drop i xs))"
    unfolding insert_at_def mset_append by simp
  then show ?thesis by simp
qed

lemma set_insert_at [simp]: "set (insert_at i x xs) = insert x (set xs)"
  unfolding set_mset_mset [symmetric] mset_insert_at by simp

lemma map_insert_at: "map f (insert_at i x xs) = insert_at i (f x) (map f xs)"
  by (simp add: insert_at_def take_map drop_map)

lemma nth_insert_at:
  "i \<le> length xs \<Longrightarrow> insert_at i x xs ! j = (if j < i then xs ! j else if j = i then x else xs ! (j - 1))"
  by (auto simp: insert_at_def nth_append nth_Cons' min_def)

lemma insert_at_prefix_len_Cons:
  "insert_at (prefix_len p (k # ks)) x (k # ks) =
     (if p k then k # insert_at (prefix_len p ks) x ks else x # k # ks)"
  by (simp add: insert_at_def)

lemma sum_list_insert_at [simp]:
  "sum_list (map f (insert_at i x xs)) = f x + sum_list (map f xs)" for f :: "'a \<Rightarrow> nat"
proof -
  have "sum_list (map f (insert_at i x xs)) = sum_mset (mset (map f (insert_at i x xs)))"
    by (simp only: sum_mset_sum_list)
  also have "\<dots> = f x + sum_mset (mset (map f xs))"
    by (simp add: map_insert_at)
  finally show ?thesis by (simp only: sum_mset_sum_list)
qed

text \<open>The elements of a concatenation when one list is inserted or replaced.\<close>

lemma concat_map_split: "concat (map f (take i xs)) @ concat (map f (drop i xs)) = concat (map f xs)"
  by (simp flip: concat_append map_append)

lemma mset_concat_insert_at:
  "mset (concat (map f (insert_at i x xs))) = mset (f x) + mset (concat (map f xs))"
proof -
  have "mset (concat (map f (insert_at i x xs))) = mset (f x) + mset (concat (map f (take i xs)) @ concat (map f (drop i xs)))"
    by (simp add: insert_at_def)
  then show ?thesis by (simp only: concat_map_split)
qed

lemma mset_concat_update:
  assumes "i < length xs"
  shows "mset (concat (map f (xs[i := y]))) + mset (f (xs ! i)) = mset (f y) + mset (concat (map f xs))"
proof -
  have "concat (map f xs) = concat (map f (take i xs)) @ f (xs ! i) @ concat (map f (drop (Suc i) xs))"
    by (subst (1) id_take_nth_drop [OF assms]) simp
  then show ?thesis by (simp add: upd_conv_take_nth_drop [OF assms])
qed

lemma insert_at_length_append: "insert_at (length xs) x (xs @ ys) = xs @ x # ys"
  by (simp add: insert_at_def)

lemma insert_at_Suc_append: "insert_at (Suc (length xs)) y (xs @ x # ys) = xs @ x # y # ys"
  by (simp add: insert_at_def)

lemma mset_exchange:
  fixes X b l Z t a R :: "'a multiset"
  assumes "X + b = l + Z" "l + t + a = b + R"
  shows "t + X + a = Z + R"
proof -
  have "(t + X + a) + (b + l) = (X + b) + (l + t + a)" by (simp add: ac_simps)
  also have "\<dots> = (Z + R) + (b + l)" unfolding assms by (simp add: ac_simps)
  finally show ?thesis by simp
qed

end
