(* ===== verification/Bytes.thy ===== *)
theory Bytes
  imports Prelude
begin

text \<open>
  Byte buffers: the slices and in-place copies of the source (\<open>buf[a..b]\<close>,
  \<open>copy_from_slice\<close>), with the panic of an out-of-range index as a value; the
  little-endian encodings \<open>to_le_bytes\<close> / \<open>from_le_bytes\<close> of its integers; strings as
  UTF-8 bytes with \<open>String::from_utf8_lossy\<close>. An Isabelle \<open>char\<close> is one byte of a Rust
  string.
\<close>

section \<open>Slices and patches\<close>

definition slice :: "'a list \<Rightarrow> nat \<Rightarrow> nat \<Rightarrow> 'a list" where
  "slice buf off n = take n (drop off buf)"

definition patch :: "'a list \<Rightarrow> nat \<Rightarrow> 'a list \<Rightarrow> 'a list" where
  "patch buf off bs = take off buf @ bs @ drop (off + length bs) buf"

text \<open>\<open>buf[off..off + n]\<close> as a read and as the target of \<open>copy_from_slice\<close>.\<close>

definition get_slice :: "'a list \<Rightarrow> nat \<Rightarrow> nat \<Rightarrow> 'a list result" where
  "get_slice buf off n = (if off + n \<le> length buf then Inr (slice buf off n) else Inl Panic)"

definition put_slice :: "'a list \<Rightarrow> nat \<Rightarrow> 'a list \<Rightarrow> 'a list result" where
  "put_slice buf off bs = (if off + length bs \<le> length buf then Inr (patch buf off bs) else Inl Panic)"

text \<open>\<open>&buf[s..e]\<close>, which also panics when \<open>s > e\<close>.\<close>

definition get_range :: "'a list \<Rightarrow> nat \<Rightarrow> nat \<Rightarrow> 'a list result" where
  "get_range buf s e = (if s \<le> e \<and> e \<le> length buf then Inr (slice buf s (e - s)) else Inl Panic)"

definition get_byte :: "'a list \<Rightarrow> nat \<Rightarrow> 'a result" where
  "get_byte buf i = (if i < length buf then Inr (buf ! i) else Inl Panic)"

definition put_byte :: "'a list \<Rightarrow> nat \<Rightarrow> 'a \<Rightarrow> 'a list result" where
  "put_byte buf i b = (if i < length buf then Inr (buf[i := b]) else Inl Panic)"

lemma length_slice [simp]: "length (slice buf off n) = min n (length buf - off)"
  by (simp add: slice_def)

lemma length_patch [simp]:
  "off + length bs \<le> length buf \<Longrightarrow> length (patch buf off bs) = length buf"
  by (simp add: patch_def)

lemma nth_slice: "i < n \<Longrightarrow> off + i < length buf \<Longrightarrow> slice buf off n ! i = buf ! (off + i)"
  by (simp add: slice_def)

lemma nth_patch:
  "off + length bs \<le> length buf \<Longrightarrow> i < length buf \<Longrightarrow>
   patch buf off bs ! i = (if off \<le> i \<and> i < off + length bs then bs ! (i - off) else buf ! i)"
  by (auto simp: patch_def nth_append min_def)

lemma slice_patch_same:
  "off + length bs \<le> length buf \<Longrightarrow> n = length bs \<Longrightarrow> slice (patch buf off bs) off n = bs"
  by (simp add: slice_def patch_def)

lemma slice_patch_other:
  assumes "off + length bs \<le> length buf" "o' + n \<le> length buf"
    and "o' + n \<le> off \<or> off + length bs \<le> o'"
  shows "slice (patch buf off bs) o' n = slice buf o' n"
  using assms by (intro nth_equalityI) (auto simp: nth_slice nth_patch)

lemma patch_patch:
  "off + length xs + length ys \<le> length buf \<Longrightarrow>
   patch (patch buf off xs) (off + length xs) ys = patch buf off (xs @ ys)"
  by (rule nth_equalityI) (auto simp: nth_patch nth_append)

lemma slice_update_other:
  "\<not> (off \<le> i \<and> i < off + n) \<Longrightarrow> slice (buf[i := b]) off n = slice buf off n"
  by (rule nth_equalityI) (auto simp: slice_def nth_list_update)

lemma nth_patch_other:
  "off + length bs \<le> length buf \<Longrightarrow> i < length buf \<Longrightarrow> i < off \<or> off + length bs \<le> i
   \<Longrightarrow> patch buf off bs ! i = buf ! i"
  by (auto simp: nth_patch)

lemma slice_slice:
  "a + m \<le> n \<Longrightarrow> off + n \<le> length buf \<Longrightarrow> slice (slice buf off n) a m = slice buf (off + a) m"
  by (intro nth_equalityI) (auto simp: nth_slice add.assoc)

lemma slice_0_append: "n = length xs \<Longrightarrow> slice (xs @ ys) 0 n = xs"
  by (simp add: slice_def)

lemma slice_append_right: "length xs \<le> off \<Longrightarrow> slice (xs @ ys) off n = slice ys (off - length xs) n"
  by (simp add: slice_def)

lemma slice_append_left: "off + n \<le> length xs \<Longrightarrow> slice (xs @ ys) off n = slice xs off n"
  by (simp add: slice_def)

lemma slice_full: "n = length xs \<Longrightarrow> slice xs 0 n = xs"
  by (simp add: slice_def)

lemma get_slice_ok [simp]: "off + n \<le> length buf \<Longrightarrow> get_slice buf off n = Inr (slice buf off n)"
  by (simp add: get_slice_def)

lemma put_slice_ok [simp]:
  "off + length bs \<le> length buf \<Longrightarrow> put_slice buf off bs = Inr (patch buf off bs)"
  by (simp add: put_slice_def)

lemma get_range_ok [simp]:
  "s \<le> e \<Longrightarrow> e \<le> length buf \<Longrightarrow> get_range buf s e = Inr (slice buf s (e - s))"
  by (simp add: get_range_def)

lemma get_byte_ok [simp]: "i < length buf \<Longrightarrow> get_byte buf i = Inr (buf ! i)"
  by (simp add: get_byte_def)

lemma put_byte_ok [simp]: "i < length buf \<Longrightarrow> put_byte buf i b = Inr (buf[i := b])"
  by (simp add: put_byte_def)

section \<open>Little-endian integers\<close>

lemma unat_bound: "unat w < 2 ^ LENGTH('a)" for w :: "'a::len word"
  by (rule unsigned_less)

primrec nat_to_le :: "nat \<Rightarrow> nat \<Rightarrow> byte list" where
  "nat_to_le 0 k = []"
| "nat_to_le (Suc n) k = of_nat k # nat_to_le n (k div 256)"

primrec nat_of_le :: "byte list \<Rightarrow> nat" where
  "nat_of_le [] = 0"
| "nat_of_le (b # bs) = unat b + 256 * nat_of_le bs"

lemma length_nat_to_le [simp]: "length (nat_to_le n k) = n"
  by (induction n arbitrary: k) auto

lemma nat_of_le_bound: "nat_of_le bs < 256 ^ length bs"
proof (induction bs)
  case (Cons b bs)
  have "unat b < 256" using unat_bound [of b] by simp
  with Cons show ?case by simp
qed simp

lemma nat_of_le_to_le: "nat_of_le (nat_to_le n k) = k mod 256 ^ n"
proof (induction n arbitrary: k)
  case (Suc n)
  have "k mod 256 ^ Suc n = k mod 256 + 256 * (k div 256 mod 256 ^ n)"
    by (simp add: mod_mult2_eq)
  with Suc show ?case by (simp add: unat_of_nat)
qed simp

lemma nat_to_le_of_le: "nat_to_le (length bs) (nat_of_le bs) = bs"
proof (induction bs)
  case (Cons b bs)
  have "unat b < 256" using unat_bound [of b] by simp
  moreover have "of_nat (unat b + 256 * nat_of_le bs) = b"
  proof -
    have "(of_nat 256 :: byte) = 0" by simp
    then show ?thesis by (simp only: of_nat_add of_nat_mult mult_zero_left add_0_right) simp
  qed
  ultimately show ?case using Cons by simp
qed simp

definition le_bytes :: "nat \<Rightarrow> 'a::len word \<Rightarrow> byte list" where
  "le_bytes n w = nat_to_le n (unat w)"

definition of_le_bytes :: "byte list \<Rightarrow> 'a::len word" where
  "of_le_bytes bs = of_nat (nat_of_le bs)"

lemma length_le_bytes [simp]: "length (le_bytes n w) = n"
  by (simp add: le_bytes_def)

lemma of_le_bytes_le_bytes:
  fixes w :: "'a::len word"
  assumes "LENGTH('a) = 8 * n"
  shows "of_le_bytes (le_bytes n w) = w"
proof -
  have "unat w < 256 ^ n"
    using unat_bound [of w] assms by (simp add: power_mult)
  then show ?thesis by (simp add: le_bytes_def of_le_bytes_def nat_of_le_to_le)
qed

lemma le_bytes_of_le_bytes:
  assumes "LENGTH('a::len) = 8 * length bs"
  shows "le_bytes (length bs) (of_le_bytes bs :: 'a word) = bs"
proof -
  have "nat_of_le bs < 2 ^ LENGTH('a)"
    using nat_of_le_bound [of bs] assms by (simp add: power_mult)
  then have "unat (of_nat (nat_of_le bs) :: 'a word) = nat_of_le bs"
    by (simp add: unat_of_nat)
  then show ?thesis by (simp add: le_bytes_def of_le_bytes_def nat_to_le_of_le)
qed

definition u16_le :: "u16 \<Rightarrow> byte list" where "u16_le w = le_bytes 2 w"
definition u32_le :: "u32 \<Rightarrow> byte list" where "u32_le w = le_bytes 4 w"
definition u64_le :: "u64 \<Rightarrow> byte list" where "u64_le w = le_bytes 8 w"
definition i64_le :: "i64 \<Rightarrow> byte list" where "i64_le w = le_bytes 8 w"
definition u16_of_le :: "byte list \<Rightarrow> u16" where "u16_of_le = of_le_bytes"
definition u32_of_le :: "byte list \<Rightarrow> u32" where "u32_of_le = of_le_bytes"
definition u64_of_le :: "byte list \<Rightarrow> u64" where "u64_of_le = of_le_bytes"
definition i64_of_le :: "byte list \<Rightarrow> i64" where "i64_of_le = of_le_bytes"

lemma length_le [simp]:
  "length (u16_le w) = 2" "length (u32_le x) = 4" "length (u64_le y) = 8" "length (i64_le z) = 8"
  by (simp_all add: u16_le_def u32_le_def u64_le_def i64_le_def)

lemma le_roundtrip [simp]:
  "u16_of_le (u16_le w) = w" "u32_of_le (u32_le x) = x"
  "u64_of_le (u64_le y) = y" "i64_of_le (i64_le z) = z"
  by (simp_all add: u16_le_def u32_le_def u64_le_def i64_le_def u16_of_le_def u32_of_le_def
      u64_of_le_def i64_of_le_def of_le_bytes_le_bytes)

lemma u16_le_of_le: "length bs = 2 \<Longrightarrow> u16_le (u16_of_le bs) = bs"
  unfolding u16_le_def u16_of_le_def by (subst (2) le_bytes_of_le_bytes [symmetric, where 'a = 16]) simp_all

lemma le_inject [simp]:
  "u16_le a = u16_le b \<longleftrightarrow> a = b" "u32_le c = u32_le d \<longleftrightarrow> c = d"
  "u64_le e = u64_le f \<longleftrightarrow> e = f" "i64_le g = i64_le h \<longleftrightarrow> g = h"
  by (metis le_roundtrip)+

section \<open>Words and naturals\<close>

lemma unat_of_nat_u16: "n < 65536 \<Longrightarrow> unat (of_nat n :: u16) = n"
  by (simp add: unat_of_nat)

lemma unat_of_nat_u32: "n < 4294967296 \<Longrightarrow> unat (of_nat n :: u32) = n"
  by (simp add: unat_of_nat)

lemma of_nat_u32_inject:
  "m < 4294967296 \<Longrightarrow> n < 4294967296 \<Longrightarrow> (of_nat m :: u32) = of_nat n \<longleftrightarrow> m = n"
  by (metis unat_of_nat_u32)

end
