(* ===== verification/Utf8.thy ===== *)
theory Utf8
  imports Bytes
begin

text \<open>
  Rust strings. A \<open>String\<close> is a sequence of bytes that is valid UTF-8; the model's
  \<open>string\<close> is the list of these bytes, one \<open>char\<close> each, so \<open>s.len()\<close> is
  \<open>length\<close> and \<open>s.as_bytes()\<close> is \<open>as_bytes\<close>. \<open>String::from_utf8_lossy\<close> is the
  standard library's decoder: it copies well-formed sequences and replaces every maximal
  ill-formed part by U+FFFD. Proved here: it is the identity on valid UTF-8 and its
  result is always valid UTF-8.
\<close>

section \<open>Strings and their bytes\<close>

definition as_bytes :: "string \<Rightarrow> byte list" where
  "as_bytes s = map of_char s"

definition str_of_bytes :: "byte list \<Rightarrow> string" where
  "str_of_bytes bs = map (\<lambda>b. char_of (unat b)) bs"

lemma length_as_bytes [simp]: "length (as_bytes s) = length s"
  by (simp add: as_bytes_def)

lemma length_str_of_bytes [simp]: "length (str_of_bytes bs) = length bs"
  by (simp add: str_of_bytes_def)

lemma unat_of_char: "unat (of_char c :: byte) = of_char c"
proof -
  have "(of_char c :: byte) = of_nat (of_char c)"
    by (rule of_nat_of_char [symmetric])
  moreover have "(of_char c :: nat) < 256"
    using mod_less_divisor [of 256 "of_char c :: nat"] by simp
  ultimately show ?thesis by (simp only: unat_of_nat) simp
qed

lemma str_of_bytes_as_bytes [simp]: "str_of_bytes (as_bytes s) = s"
  by (induction s) (simp_all add: str_of_bytes_def as_bytes_def unat_of_char)

lemma as_bytes_inject [simp]: "as_bytes s = as_bytes t \<longleftrightarrow> s = t"
  by (metis str_of_bytes_as_bytes)

section \<open>One decoding step\<close>

definition cont_byte :: "nat \<Rightarrow> bool" where
  "cont_byte u \<longleftrightarrow> 128 \<le> u \<and> u < 192"

definition second3 :: "nat \<Rightarrow> nat \<Rightarrow> bool" where
  "second3 u v \<longleftrightarrow> (u = 224 \<and> 160 \<le> v \<and> v \<le> 191) \<or> (225 \<le> u \<and> u \<le> 236 \<and> cont_byte v)
     \<or> (u = 237 \<and> 128 \<le> v \<and> v \<le> 159) \<or> (238 \<le> u \<and> u \<le> 239 \<and> cont_byte v)"

definition second4 :: "nat \<Rightarrow> nat \<Rightarrow> bool" where
  "second4 u v \<longleftrightarrow> (u = 240 \<and> 144 \<le> v \<and> v \<le> 191) \<or> (241 \<le> u \<and> u \<le> 243 \<and> cont_byte v)
     \<or> (u = 244 \<and> 128 \<le> v \<and> v \<le> 143)"

text \<open>
  Whether the buffer starts with a well-formed sequence, and how many bytes that sequence
  (or else the ill-formed part to be replaced) has. A missing byte reads as 0.
\<close>

definition peek :: "byte list \<Rightarrow> nat \<Rightarrow> nat" where
  "peek bs i = (if i < length bs then unat (bs ! i) else 0)"

definition utf8_step :: "byte list \<Rightarrow> bool \<times> nat" where
  "utf8_step bs =
     (let u = peek bs 0; v = peek bs 1; w = peek bs 2; x = peek bs 3 in
      if u < 128 then (True, 1)
      else if 194 \<le> u \<and> u \<le> 223 then (if cont_byte v then (True, 2) else (False, 1))
      else if 224 \<le> u \<and> u \<le> 239 then
        (if second3 u v then (if cont_byte w then (True, 3) else (False, 2)) else (False, 1))
      else if 240 \<le> u \<and> u \<le> 244 then
        (if second4 u v
         then (if cont_byte w then (if cont_byte x then (True, 4) else (False, 3)) else (False, 2))
         else (False, 1))
      else (False, 1))"

lemma peek_le: "peek bs i \<noteq> 0 \<Longrightarrow> i < length bs"
  by (auto simp: peek_def split: if_splits)

lemma utf8_step_pos: "0 < snd (utf8_step bs)"
  by (simp add: utf8_step_def Let_def)

lemma utf8_step_pos': "(v, n) = utf8_step bs \<Longrightarrow> 0 < n"
  using utf8_step_pos [of bs] by (metis snd_conv)

lemma second3_cont: "second3 u v \<Longrightarrow> cont_byte v"
  by (auto simp: second3_def cont_byte_def)

lemma second4_cont: "second4 u v \<Longrightarrow> cont_byte v"
  by (auto simp: second4_def cont_byte_def)

lemma cont_byte_peek: "cont_byte (peek bs i) \<Longrightarrow> i < length bs"
  by (rule peek_le) (auto simp: cont_byte_def)

lemma utf8_step_length: "utf8_step bs = (True, n) \<Longrightarrow> bs \<noteq> [] \<Longrightarrow> n \<le> length bs"
  by (cases bs) (auto simp: utf8_step_def Let_def Suc_le_eq split: if_splits
      dest!: second3_cont second4_cont cont_byte_peek)

lemma peek_take: "n \<le> length bs \<Longrightarrow> i < n \<Longrightarrow> peek (take n bs @ ys) i = peek bs i"
  by (simp add: peek_def nth_append)

lemma utf8_step_take:
  assumes "utf8_step bs = (True, n)" "bs \<noteq> []"
  shows "utf8_step (take n bs @ ys) = (True, n)"
proof -
  have n: "n \<le> length bs" using assms by (rule utf8_step_length)
  have p: "peek (take n bs @ ys) i = peek bs i" if "i < n" for i
    using n that by (rule peek_take)
  have "n \<in> {1, 2, 3, 4}"
    using assms(1) by (auto simp: utf8_step_def Let_def split: if_splits)
  then show ?thesis
    using assms(1) p [of 0] p [of 1] p [of 2] p [of 3]
    by (auto simp: utf8_step_def Let_def split: if_splits)
qed

section \<open>Validity and lossy decoding\<close>

function is_utf8 :: "byte list \<Rightarrow> bool" where
  "is_utf8 bs =
     (if bs = [] then True
      else let (valid, n) = utf8_step bs in valid \<and> is_utf8 (drop n bs))"
  by pat_completeness auto
termination
  by (relation "measure length") (auto intro: diff_less utf8_step_pos')

definition replacement_char :: "byte list" where
  "replacement_char = [239, 191, 189]"

function from_utf8_lossy :: "byte list \<Rightarrow> byte list" where
  "from_utf8_lossy bs =
     (if bs = [] then []
      else let (valid, n) = utf8_step bs in
        (if valid then take n bs else replacement_char) @ from_utf8_lossy (drop n bs))"
  by pat_completeness auto
termination
  by (relation "measure length") (auto intro: diff_less utf8_step_pos')

declare is_utf8.simps [simp del] from_utf8_lossy.simps [simp del]

lemma is_utf8_Nil [simp]: "is_utf8 []"
  by (subst is_utf8.simps) simp

lemma from_utf8_lossy_Nil [simp]: "from_utf8_lossy [] = []"
  by (subst from_utf8_lossy.simps) simp

lemma is_utf8_step: "bs \<noteq> [] \<Longrightarrow> is_utf8 bs \<longleftrightarrow> fst (utf8_step bs) \<and> is_utf8 (drop (snd (utf8_step bs)) bs)"
  by (simp add: is_utf8.simps [of bs] case_prod_beta)

lemma from_utf8_lossy_step:
  "bs \<noteq> [] \<Longrightarrow> from_utf8_lossy bs =
     (if fst (utf8_step bs) then take (snd (utf8_step bs)) bs else replacement_char)
     @ from_utf8_lossy (drop (snd (utf8_step bs)) bs)"
  by (simp add: from_utf8_lossy.simps [of bs] case_prod_beta)

lemma from_utf8_lossy_id: "is_utf8 bs \<Longrightarrow> from_utf8_lossy bs = bs"
proof (induction "length bs" arbitrary: bs rule: less_induct)
  case less
  show ?case
  proof (cases "bs = []")
    case False
    then have "length (drop (snd (utf8_step bs)) bs) < length bs"
      using utf8_step_pos [of bs] by simp
    with less False show ?thesis
      by (simp add: from_utf8_lossy_step is_utf8_step)
  qed simp
qed

lemma is_utf8_append: "is_utf8 xs \<Longrightarrow> is_utf8 ys \<Longrightarrow> is_utf8 (xs @ ys)"
proof (induction "length xs" arbitrary: xs rule: less_induct)
  case less
  show ?case
  proof (cases "xs = []")
    case False
    obtain v n where st: "utf8_step xs = (v, n)" by force
    with less.prems False have v: "v" and r: "is_utf8 (drop n xs)"
      by (auto simp: is_utf8_step)
    have n: "n \<le> length xs" "0 < n"
      using st v False utf8_step_length utf8_step_pos [of xs] by auto
    have "utf8_step (xs @ ys) = (True, n)"
      using utf8_step_take [of xs n "drop n xs @ ys"] st v False
      by (simp add: append_assoc [symmetric] del: append_assoc)
    moreover have "is_utf8 (drop n xs @ ys)"
      using less.hyps [of "drop n xs"] r less.prems n by simp
    ultimately show ?thesis
      using False n by (simp add: is_utf8_step)
  qed (use less in simp)
qed

lemma is_utf8_replacement [simp]: "is_utf8 replacement_char"
  by (simp add: replacement_char_def is_utf8_step utf8_step_def peek_def second3_def cont_byte_def)

lemma is_utf8_lossy: "is_utf8 (from_utf8_lossy bs)"
proof (induction "length bs" arbitrary: bs rule: less_induct)
  case less
  show ?case
  proof (cases "bs = []")
    case False
    obtain v n where st: "utf8_step bs = (v, n)" by force
    have n: "0 < n" using utf8_step_pos [of bs] st by simp
    have "is_utf8 (take n bs)" if v
    proof -
      have "utf8_step (take n bs) = (True, n)" "n \<le> length bs"
        using utf8_step_take [of bs n "[]"] utf8_step_length [of bs n] st that False by auto
      with False n show ?thesis by (simp add: is_utf8_step)
    qed
    then show ?thesis
      using False st less.hyps [of "drop n bs"] n
      by (simp add: from_utf8_lossy_step is_utf8_append)
  qed simp
qed

text \<open>ASCII text is valid UTF-8.\<close>

lemma is_utf8_ascii: "(\<And>b. b \<in> set bs \<Longrightarrow> unat b < 128) \<Longrightarrow> is_utf8 bs"
  by (induction bs) (simp_all add: is_utf8_step utf8_step_def peek_def)

section \<open>Strings that Rust can hold\<close>

definition valid_str :: "string \<Rightarrow> bool" where
  "valid_str s \<longleftrightarrow> is_utf8 (as_bytes s)"

definition string_lossy :: "byte list \<Rightarrow> string" where
  "string_lossy bs = str_of_bytes (from_utf8_lossy bs)"

lemma string_lossy_as_bytes [simp]: "valid_str s \<Longrightarrow> string_lossy (as_bytes s) = s"
  by (simp add: string_lossy_def valid_str_def from_utf8_lossy_id)

lemma of_char_of_byte: "of_char (char_of (unat b)) = (b :: byte)"
proof -
  have "(of_char (char_of (unat b)) :: byte) = of_nat (of_char (char_of (unat b)))"
    by (rule of_nat_of_char [symmetric])
  also have "(of_char (char_of (unat b)) :: nat) = unat b"
    using unat_bound [of b] by simp
  finally show ?thesis by simp
qed

lemma as_bytes_str_of_bytes [simp]: "as_bytes (str_of_bytes bs) = bs"
  by (induction bs) (simp_all add: as_bytes_def str_of_bytes_def of_char_of_byte)

lemma valid_str_lossy [simp]: "valid_str (string_lossy bs)"
  by (simp add: valid_str_def string_lossy_def is_utf8_lossy)

lemma valid_str_ascii: "(\<And>c. c \<in> set s \<Longrightarrow> (of_char c :: nat) < 128) \<Longrightarrow> valid_str s"
  unfolding valid_str_def by (rule is_utf8_ascii) (auto simp: as_bytes_def unat_of_char)

lemma valid_str_ascii' [simp]: "list_all (\<lambda>c. of_char c < (128 :: nat)) s \<Longrightarrow> valid_str s"
  by (rule valid_str_ascii) (simp add: list_all_iff)

end
