(* ===== verification/Types.thy ===== *)
theory Types
  imports Utf8 "HOL-Library.List_Lexorder" "HOL-Library.Char_ord"
begin

text \<open>
  The data model of \<open>src/types.rs\<close>: column types, cell values, column definitions, rows,
  WHERE expressions and JOIN clauses. An \<open>i64\<close> is a 64-bit word read as two's
  complement by \<open>sint\<close>. Strings are compared bytewise (\<open>List_Lexorder\<close>), as Rust does.
\<close>

datatype data_type = TInteger | TText

datatype cell_value = VInteger i64 | VText string | VNull

text \<open>\<open>impl Display for Value\<close>\<close>

fun display_value :: "cell_value \<Rightarrow> string" where
  "display_value (VInteger n) = show_int (sint n)"
| "display_value (VText s) = s"
| "display_value VNull = ''NULL''"

record column =
  col_name :: string
  col_type :: data_type

record row =
  row_values :: "cell_value list"

datatype comp_op = CEq | CLt | CGt

record expr =
  expr_column :: string
  expr_op :: comp_op
  expr_value :: cell_value

record join_clause =
  right_table :: string
  left_col :: string
  right_col :: string

text \<open>
  \<open>{:?}\<close> of a string, a value and a column type, for the error messages. Rust also escapes
  characters outside ASCII that Unicode calls unprintable; these are copied here.
\<close>

definition hex_char :: "nat \<Rightarrow> char" where
  "hex_char d = (if d < 10 then char_of (48 + d) else char_of (87 + d))"

definition debug_char :: "char \<Rightarrow> string" where
  "debug_char c =
     (if c = CHR 0x22 then [CHR 0x5C, CHR 0x22]
      else if c = CHR 0x5C then [CHR 0x5C, CHR 0x5C]
      else if c = CHR 0x09 then [CHR 0x5C, CHR ''t'']
      else if c = CHR 0x0A then [CHR 0x5C, CHR ''n'']
      else if c = CHR 0x0D then [CHR 0x5C, CHR ''r'']
      else if c = CHR 0x00 then [CHR 0x5C, CHR ''0'']
      else let n = (of_char c :: nat) in
        if n < 16 then [CHR 0x5C] @ ''u{'' @ [hex_char n] @ ''}''
        else if n < 32 \<or> n = 127 then [CHR 0x5C] @ ''u{'' @ [hex_char (n div 16), hex_char (n mod 16)] @ ''}''
        else [c])"

definition debug_str :: "string \<Rightarrow> string" where
  "debug_str s = [CHR 0x22] @ concat (map debug_char s) @ [CHR 0x22]"

fun debug_value :: "cell_value \<Rightarrow> string" where
  "debug_value (VInteger n) = ''Integer('' @ show_int (sint n) @ '')''"
| "debug_value (VText s) = ''Text('' @ debug_str s @ '')''"
| "debug_value VNull = ''Null''"

fun debug_type :: "data_type \<Rightarrow> string" where
  "debug_type TInteger = ''Integer''"
| "debug_type TText = ''Text''"

text \<open>A value a Rust program can hold: its text is valid UTF-8.\<close>

fun valid_value :: "cell_value \<Rightarrow> bool" where
  "valid_value (VText s) = valid_str s"
| "valid_value _ = True"

end
