(* ===== verification/Codec.thy ===== *)
theory Codec
  imports Utf8
begin

text \<open>
  The decoders of the source walk a byte buffer with an offset: each reads a value at the
  offset and moves it past the bytes it used. \<open>prefix_codec\<close> is the contract between such
  a decoder and its encoder; from it follow the decoding of sequences and the injectivity
  of encodings, once for every format (row cells, table metadata, result rows on the wire).
\<close>

section \<open>The loop over a counted sequence\<close>

text \<open>\<open>for _ in 0..n { v.push(dec(&mut off, buf)?) }\<close>\<close>

primrec decode_n ::
  "(byte list \<Rightarrow> nat \<Rightarrow> ('a \<times> nat) result) \<Rightarrow> nat \<Rightarrow> byte list \<Rightarrow> nat \<Rightarrow> ('a list \<times> nat) result" where
  "decode_n dec 0 buf off = Inr ([], off)"
| "decode_n dec (Suc n) buf off =
     rbind (dec buf off) (\<lambda>(x, off'). rbind (decode_n dec n buf off') (\<lambda>(xs, off''). Inr (x # xs, off'')))"

text \<open>\<open>bs\<close> stands in the buffer at \<open>off\<close>.\<close>

definition stands_at :: "byte list \<Rightarrow> nat \<Rightarrow> byte list \<Rightarrow> bool" where
  "stands_at buf off bs \<longleftrightarrow> off + length bs \<le> length buf \<and> slice buf off (length bs) = bs"

lemma stands_at_bound: "stands_at buf off bs \<Longrightarrow> off + length bs \<le> length buf"
  by (simp add: stands_at_def)

lemma stands_at_append [simp]:
  "stands_at buf off (xs @ ys) \<longleftrightarrow> stands_at buf off xs \<and> stands_at buf (off + length xs) ys"
proof (cases "off + length xs + length ys \<le> length buf")
  case True
  have "slice buf off (length xs + length ys)
      = slice buf off (length xs) @ slice buf (off + length xs) (length ys)"
    by (simp add: slice_def take_add add.commute)
  with True show ?thesis by (auto simp: stands_at_def)
qed (auto simp: stands_at_def)

lemma stands_at_Nil [simp]: "stands_at buf off [] \<longleftrightarrow> off \<le> length buf"
  by (auto simp: stands_at_def slice_def)

lemma stands_at_self: "stands_at (xs @ ys) 0 xs"
  by (simp add: stands_at_def slice_def)

lemma stands_at_mid: "off = length ws \<Longrightarrow> stands_at (ws @ xs @ ys) off xs"
  by (simp add: stands_at_def slice_def)

lemma stands_at_slice: "stands_at buf off bs \<Longrightarrow> n = length bs \<Longrightarrow> slice buf off n = bs"
  by (simp add: stands_at_def)

lemma get_slice_stands: "stands_at buf off bs \<Longrightarrow> n = length bs \<Longrightarrow> get_slice buf off n = Inr bs"
  by (simp add: stands_at_def)

section \<open>The contract\<close>

locale prefix_codec =
  fixes enc :: "'a \<Rightarrow> byte list"
    and dec :: "byte list \<Rightarrow> nat \<Rightarrow> ('a \<times> nat) result"
    and good :: "'a \<Rightarrow> bool"
  assumes dec_enc: "good x \<Longrightarrow> stands_at buf off (enc x) \<Longrightarrow> dec buf off = Inr (x, off + length (enc x))"
begin

lemma dec_list:
  assumes "list_all good xs" and "stands_at buf off (concat (map enc xs))"
  shows "decode_n dec (length xs) buf off = Inr (xs, off + length (concat (map enc xs)))"
  using assms
proof (induction xs arbitrary: off)
  case (Cons x xs)
  then have "dec buf off = Inr (x, off + length (enc x))"
    by (intro dec_enc) auto
  moreover have "decode_n dec (length xs) buf (off + length (enc x))
      = Inr (xs, off + length (enc x) + length (concat (map enc xs)))"
    using Cons.prems by (intro Cons.IH) auto
  ultimately show ?case by (simp add: add.assoc)
qed simp

text \<open>No encoding of a good value is a prefix of another one's.\<close>

lemma enc_inj_prefix:
  assumes "good x" "good y" "enc x @ r = enc y @ s"
  shows "x = y \<and> r = s"
proof -
  have "dec (enc x @ r) 0 = Inr (x, length (enc x))"
    using assms(1) by (simp add: dec_enc stands_at_self)
  moreover have "dec (enc y @ s) 0 = Inr (y, length (enc y))"
    using assms(2) by (simp add: dec_enc stands_at_self)
  ultimately have "x = y" using assms(3) by simp
  with assms(3) show ?thesis by simp
qed

lemma enc_list_inj_prefix:
  assumes "list_all good xs" "list_all good ys" "length xs = length ys"
    and "concat (map enc xs) @ r = concat (map enc ys) @ s"
  shows "xs = ys \<and> r = s"
  using assms(3,1,2,4)
proof (induction xs ys rule: list_induct2)
  case (Cons x xs y ys)
  then have "enc x @ (concat (map enc xs) @ r) = enc y @ (concat (map enc ys) @ s)"
    by simp
  with Cons.prems have "x = y \<and> concat (map enc xs) @ r = concat (map enc ys) @ s"
    by (intro enc_inj_prefix) auto
  with Cons show ?case by simp
qed simp

end

end
