(* ===== verification/Row.thy ===== *)
theory Row
  imports Types Codec
begin

text \<open>
  \<open>src/row.rs\<close>: the binary layout of a row under a schema. \<open>encode_row\<close> is the byte
  string the layout describes; \<open>serialize\<close> writes exactly that string into a buffer of
  \<open>serialized_size\<close> bytes and \<open>deserialize\<close> reads it back.
\<close>

section \<open>The operations of the source\<close>

text \<open>One summand of \<open>serialized_size\<close>.\<close>

fun cell_size :: "data_type \<Rightarrow> cell_value \<Rightarrow> nat" where
  "cell_size TInteger _ = 8"
| "cell_size TText (VText s) = 4 + length s"
| "cell_size TText _ = 4"

definition serialized_size :: "row \<Rightarrow> column list \<Rightarrow> nat" where
  "serialized_size r columns =
     sum_list (map (\<lambda>(col, v). cell_size (col_type col) v) (zip columns (row_values r)))"

text \<open>
  The loop of \<open>serialize\<close>: every write is a slice of the buffer and panics when the
  buffer is too short. The last case zero-fills a cell whose value has the wrong type.
\<close>

fun serialize_loop :: "(column \<times> cell_value) list \<Rightarrow> nat \<Rightarrow> byte list \<Rightarrow> byte list result" where
  "serialize_loop [] off buf = Inr buf"
| "serialize_loop ((col, v) # cvs) off buf =
     (case (col_type col, v) of
        (TInteger, VInteger n) \<Rightarrow>
          rbind (put_slice buf off (i64_le n)) (serialize_loop cvs (off + 8))
      | (TText, VText s) \<Rightarrow>
          rbind (put_slice buf off (u32_le (of_nat (length s)))) (\<lambda>buf'.
          rbind (put_slice buf' (off + 4) (as_bytes s)) (serialize_loop cvs (off + 4 + length s)))
      | _ \<Rightarrow>
          (let sz = (case col_type col of TInteger \<Rightarrow> 8 | TText \<Rightarrow> 4) in
           rbind (put_slice buf off (replicate sz 0)) (serialize_loop cvs (off + sz))))"

definition serialize :: "row \<Rightarrow> column list \<Rightarrow> byte list \<Rightarrow> byte list result" where
  "serialize r columns buf = serialize_loop (zip columns (row_values r)) 0 buf"

definition decode_cell :: "data_type \<Rightarrow> byte list \<Rightarrow> nat \<Rightarrow> (cell_value \<times> nat) result" where
  "decode_cell ty buf off =
     (case ty of
        TInteger \<Rightarrow>
          rbind (get_slice buf off 8) (\<lambda>b. Inr (VInteger (i64_of_le b), off + 8))
      | TText \<Rightarrow>
          rbind (get_slice buf off 4) (\<lambda>b.
          let len = unat (u32_of_le b); off' = off + 4 in
          rbind (get_slice buf off' len) (\<lambda>s. Inr (VText (string_lossy s), off' + len))))"

fun deserialize_loop :: "column list \<Rightarrow> byte list \<Rightarrow> nat \<Rightarrow> cell_value list result" where
  "deserialize_loop [] buf off = Inr []"
| "deserialize_loop (col # cols) buf off =
     rbind (decode_cell (col_type col) buf off) (\<lambda>(v, off').
     rbind (deserialize_loop cols buf off') (\<lambda>vs. Inr (v # vs)))"

definition deserialize :: "byte list \<Rightarrow> column list \<Rightarrow> row result" where
  "deserialize buf columns =
     rbind (deserialize_loop columns buf 0) (\<lambda>vs. Inr \<lparr>row_values = vs\<rparr>)"

section \<open>The layout\<close>

fun encode_cell :: "data_type \<Rightarrow> cell_value \<Rightarrow> byte list" where
  "encode_cell TInteger (VInteger n) = i64_le n"
| "encode_cell TInteger _ = replicate 8 0"
| "encode_cell TText (VText s) = u32_le (of_nat (length s)) @ as_bytes s"
| "encode_cell TText _ = replicate 4 0"

definition encode_row :: "(column \<times> cell_value) list \<Rightarrow> byte list" where
  "encode_row cvs = concat (map (\<lambda>(col, v). encode_cell (col_type col) v) cvs)"

text \<open>A value that fits its column: what \<open>Storage::insert\<close> checks, and a text that a
  32-bit length prefix can describe.\<close>

fun cell_ok :: "data_type \<Rightarrow> cell_value \<Rightarrow> bool" where
  "cell_ok TInteger (VInteger _) = True"
| "cell_ok TText (VText s) = (valid_str s \<and> length s < 2 ^ 32)"
| "cell_ok _ _ = False"

definition row_ok :: "row \<Rightarrow> column list \<Rightarrow> bool" where
  "row_ok r columns \<longleftrightarrow> list_all2 (\<lambda>col v. cell_ok (col_type col) v) columns (row_values r)"

lemma length_encode_cell: "length (encode_cell ty v) = cell_size ty v"
  by (cases ty; cases v) auto

lemma length_encode_cells:
  "length (encode_row cvs) = sum_list (map (\<lambda>(col, v). cell_size (col_type col) v) cvs)"
  by (induction cvs) (auto simp: encode_row_def length_encode_cell)

lemma length_encode_row: "length (encode_row (zip columns (row_values r))) = serialized_size r columns"
  by (simp add: length_encode_cells serialized_size_def)

lemma serialize_loop_encode:
  "off + length (encode_row cvs) \<le> length buf \<Longrightarrow>
   serialize_loop cvs off buf = Inr (patch buf off (encode_row cvs))"
proof (induction cvs arbitrary: off buf)
  case Nil
  then show ?case by (simp add: encode_row_def patch_def)
next
  case (Cons cv cvs)
  obtain col v where cv: "cv = (col, v)" by force
  let ?e = "encode_cell (col_type col) v"
  have enc: "encode_row (cv # cvs) = ?e @ encode_row cvs"
    by (simp add: encode_row_def cv)
  have "serialize_loop cvs (off + length ?e) (patch buf off ?e)
      = Inr (patch (patch buf off ?e) (off + length ?e) (encode_row cvs))"
    using Cons.prems by (intro Cons.IH) (simp add: enc)
  also have "\<dots> = Inr (patch buf off (encode_row (cv # cvs)))"
    using Cons.prems by (simp add: enc patch_patch)
  finally have tail: "serialize_loop cvs (off + length ?e) (patch buf off ?e)
      = Inr (patch buf off (encode_row (cv # cvs)))" .
  have room: "off + length ?e \<le> length buf"
    using Cons.prems by (simp add: enc)
  show ?case
  proof (cases "col_type col"; cases v)
    fix s assume t: "col_type col = TText" "v = VText s"
    with room show ?thesis
      using tail patch_patch [of off "u32_le (of_nat (length s))" "as_bytes s" buf]
      by (simp add: cv add.assoc)
  qed (use tail room in \<open>simp_all add: cv\<close>)
qed

lemma serialize_encode:
  assumes "length buf = serialized_size r columns"
  shows "serialize r columns buf = Inr (encode_row (zip columns (row_values r)))"
  using serialize_loop_encode [of 0 "zip columns (row_values r)" buf] assms
  by (simp add: serialize_def length_encode_row patch_def)

section \<open>Cells as a prefix codec\<close>

lemma decode_encode_cell:
  assumes "cell_ok ty v" "stands_at buf off (encode_cell ty v)"
  shows "decode_cell ty buf off = Inr (v, off + length (encode_cell ty v))"
proof (cases ty)
  case TInteger
  with assms show ?thesis
    by (cases v) (auto simp: decode_cell_def stands_at_def)
next
  case TText
  with assms(1) obtain s where v: "v = VText s" "valid_str s" "length s < 2 ^ 32"
    by (cases v) auto
  with TText assms(2) have "stands_at buf off (u32_le (of_nat (length s)))"
    and "stands_at buf (off + 4) (as_bytes s)"
    by simp_all
  with TText v show ?thesis
    by (simp add: decode_cell_def Let_def get_slice_stands unat_of_nat_u32)
qed

interpretation cell: prefix_codec "encode_cell ty" "decode_cell ty" "cell_ok ty" for ty
  by unfold_locales (rule decode_encode_cell)

lemma deserialize_loop_encode:
  assumes "list_all2 (\<lambda>col v. cell_ok (col_type col) v) columns vs"
    and "stands_at buf off (encode_row (zip columns vs))"
  shows "deserialize_loop columns buf off = Inr vs"
  using assms
proof (induction columns vs arbitrary: off rule: list_all2_induct)
  case (Cons col cols v vs)
  then show ?case
    using cell.dec_enc [of "col_type col" v buf off]
    by (simp add: encode_row_def)
qed simp

lemma deserialize_encode:
  assumes "row_ok r columns"
  shows "deserialize (encode_row (zip columns (row_values r)) @ rest) columns = Inr r"
  using deserialize_loop_encode [of columns "row_values r" _ 0] assms
  by (simp add: deserialize_def row_ok_def stands_at_self)

section \<open>Properties\<close>

text \<open>Property C26. A row whose values have their columns' types is written into a buffer of
  \<open>serialized_size\<close> bytes without a panic, and the bytes read back, wherever they end up in
  a longer buffer, as the same row.\<close>

theorem row_roundtrip:
  assumes "row_ok r columns" "length buf = serialized_size r columns"
  shows "rbind (serialize r columns buf) (\<lambda>bytes. deserialize (bytes @ rest) columns) = Inr r"
  using assms by (simp add: serialize_encode deserialize_encode)

theorem row_roundtrip_witness:
  "rbind (serialize \<lparr>row_values = [VInteger 42, VText ''alice'']\<rparr>
       [\<lparr>col_name = ''id'', col_type = TInteger\<rparr>, \<lparr>col_name = ''name'', col_type = TText\<rparr>] (replicate 17 0))
     (\<lambda>bytes. deserialize (bytes @ [0, 0])
       [\<lparr>col_name = ''id'', col_type = TInteger\<rparr>, \<lparr>col_name = ''name'', col_type = TText\<rparr>])
   = Inr \<lparr>row_values = [VInteger 42, VText ''alice'']\<rparr>"
  by (rule row_roundtrip) (simp_all add: row_ok_def serialized_size_def)

end
