(* ===== verification/Files.thy ===== *)
theory Files
  imports Bytes
begin

text \<open>
  Pages and files. A page is a list of \<open>PAGE_SIZE\<close> bytes; a file is the list of its
  bytes. The operations of \<open>std::fs::File\<close> that the pager and the log use are modelled
  on success: a seek followed by \<open>write_all\<close> overwrites, extends the file when it ends
  past its end and fills a gap with zeros.
\<close>

definition PAGE_SIZE :: nat where "PAGE_SIZE = 4096"
definition MAX_PAGES :: nat where "MAX_PAGES = 1024"

type_synonym page = "byte list"

definition zero_page :: page where "zero_page = replicate PAGE_SIZE 0"

lemma length_zero_page [simp]: "length zero_page = PAGE_SIZE"
  by (simp add: zero_page_def)

lemma PAGE_SIZE_pos [simp]: "0 < PAGE_SIZE"
  by (simp add: PAGE_SIZE_def)

text \<open>\<open>seek(Start(off)); write_all(bs)\<close>\<close>

definition write_at :: "byte list \<Rightarrow> nat \<Rightarrow> byte list \<Rightarrow> byte list" where
  "write_at f off bs = take off (f @ replicate (off - length f) 0) @ bs @ drop (off + length bs) f"

text \<open>\<open>seek(End(0)); write_all(bs)\<close>\<close>

definition append_end :: "byte list \<Rightarrow> byte list \<Rightarrow> byte list" where
  "append_end f bs = f @ bs"

text \<open>\<open>read_exact\<close> of one page at a page boundary.\<close>

definition read_page_at :: "byte list \<Rightarrow> nat \<Rightarrow> page result" where
  "read_page_at f i =
     (if (i + 1) * PAGE_SIZE \<le> length f then Inr (slice f (i * PAGE_SIZE) PAGE_SIZE)
      else Inl (Fail ''failed to fill whole buffer''))"

section \<open>Files as sequences of bytes with a zero tail\<close>

text \<open>Byte \<open>i\<close> of a file, 0 past its end: what a page read of the pager would see.\<close>

definition fbyte :: "byte list \<Rightarrow> nat \<Rightarrow> byte" where
  "fbyte f i = (if i < length f then f ! i else 0)"

lemma file_eqI: "length f = length g \<Longrightarrow> (\<And>i. fbyte f i = fbyte g i) \<Longrightarrow> f = g"
  by (rule nth_equalityI) (metis fbyte_def)+

lemma length_write_at [simp]: "bs \<noteq> [] \<Longrightarrow> length (write_at f off bs) = max (length f) (off + length bs)"
  by (simp add: write_at_def max_def min_def)

lemma fbyte_write_at:
  "fbyte (write_at f off bs) i = (if off \<le> i \<and> i < off + length bs then bs ! (i - off) else fbyte f i)"
proof (cases "off \<le> length f")
  case True
  then show ?thesis
    by (auto simp: fbyte_def write_at_def nth_append min_def)
next
  case False
  then show ?thesis
    by (auto simp: fbyte_def write_at_def nth_append min_def)
qed

text \<open>Writes of whole pages at different page boundaries commute; a second write to the
  same page wins.\<close>

lemma write_at_commute:
  assumes "length bs = PAGE_SIZE" "length cs = PAGE_SIZE" "i \<noteq> j"
  shows "write_at (write_at f (i * PAGE_SIZE) bs) (j * PAGE_SIZE) cs
       = write_at (write_at f (j * PAGE_SIZE) cs) (i * PAGE_SIZE) bs"
proof (rule file_eqI)
  have ne: "bs \<noteq> []" "cs \<noteq> []"
    using assms by (auto simp: PAGE_SIZE_def)
  then show "length (write_at (write_at f (i * PAGE_SIZE) bs) (j * PAGE_SIZE) cs)
       = length (write_at (write_at f (j * PAGE_SIZE) cs) (i * PAGE_SIZE) bs)"
    by simp
  have apart: "i * PAGE_SIZE + PAGE_SIZE \<le> j * PAGE_SIZE \<or> j * PAGE_SIZE + PAGE_SIZE \<le> i * PAGE_SIZE"
    using assms(3) by (simp add: PAGE_SIZE_def) arith
  then show "fbyte (write_at (write_at f (i * PAGE_SIZE) bs) (j * PAGE_SIZE) cs) k
       = fbyte (write_at (write_at f (j * PAGE_SIZE) cs) (i * PAGE_SIZE) bs) k" for k
    using assms by (auto simp: fbyte_write_at)
qed

lemma write_at_overwrite:
  assumes "length bs = length cs"
  shows "write_at (write_at f off bs) off cs = write_at f off cs"
proof (cases "cs = []")
  case False
  with assms have "bs \<noteq> []" by auto
  with False assms show ?thesis
    by (intro file_eqI) (auto simp: fbyte_write_at)
qed (use assms in \<open>simp add: write_at_def\<close>)

section \<open>Applying page writes\<close>

text \<open>The loop that writes a list of (page number, page) pairs to a file.\<close>

primrec write_pages :: "(nat \<times> page) list \<Rightarrow> byte list \<Rightarrow> byte list" where
  "write_pages [] f = f"
| "write_pages (w # ws) f = write_pages ws (write_at f (fst w * PAGE_SIZE) (snd w))"

definition pages_ok :: "(nat \<times> page) list \<Rightarrow> bool" where
  "pages_ok ws \<longleftrightarrow> (\<forall>w \<in> set ws. length (snd w) = PAGE_SIZE)"

lemma write_pages_append: "write_pages (xs @ ys) f = write_pages ys (write_pages xs f)"
  by (induction xs arbitrary: f) auto

lemma write_pages_move:
  assumes "pages_ok ws" "length b = PAGE_SIZE" "i \<notin> fst ` set ws"
  shows "write_pages ws (write_at f (i * PAGE_SIZE) b) = write_at (write_pages ws f) (i * PAGE_SIZE) b"
  using assms
proof (induction ws arbitrary: f)
  case (Cons w ws)
  then have "write_at (write_at f (i * PAGE_SIZE) b) (fst w * PAGE_SIZE) (snd w)
      = write_at (write_at f (fst w * PAGE_SIZE) (snd w)) (i * PAGE_SIZE) b"
    by (intro write_at_commute) (auto simp: pages_ok_def)
  with Cons show ?case by (simp add: pages_ok_def)
qed simp

text \<open>
  Redo absorbs a partial first attempt: if some of the writes, in any selection, have
  already reached the file, performing all of them gives the same file as performing them
  on the untouched one.
\<close>

lemma write_pages_absorb_one:
  assumes "pages_ok ws" "distinct (map fst ws)" "(i, b) \<in> set ws"
  shows "write_pages ws (write_at f (i * PAGE_SIZE) b) = write_pages ws f"
  using assms
proof (induction ws arbitrary: f)
  case (Cons w ws)
  show ?case
  proof (cases "w = (i, b)")
    case True
    then show ?thesis by (simp add: write_at_overwrite)
  next
    case False
    with Cons.prems have mem: "(i, b) \<in> set ws" by auto
    then have "i \<in> fst ` set ws" by force
    then have "fst w \<noteq> i" using Cons.prems(2) by auto
    moreover have "length b = PAGE_SIZE" using Cons.prems mem by (auto simp: pages_ok_def)
    ultimately have "write_at (write_at f (i * PAGE_SIZE) b) (fst w * PAGE_SIZE) (snd w)
        = write_at (write_at f (fst w * PAGE_SIZE) (snd w)) (i * PAGE_SIZE) b"
      using Cons.prems by (intro write_at_commute) (auto simp: pages_ok_def)
    then show ?thesis using Cons.IH [OF _ _ mem] Cons.prems by (simp add: pages_ok_def)
  qed
qed simp

lemma write_pages_absorb:
  assumes "pages_ok ws" "distinct (map fst ws)" "set part \<subseteq> set ws"
  shows "write_pages ws (write_pages part f) = write_pages ws f"
  using assms(3)
proof (induction part arbitrary: f)
  case (Cons p part)
  then have "write_pages ws (write_pages (p # part) f) = write_pages ws (write_at f (fst p * PAGE_SIZE) (snd p))"
    by simp
  also have "\<dots> = write_pages ws f"
    using Cons.prems assms by (intro write_pages_absorb_one) auto
  finally show ?case .
qed simp

section \<open>Contents of a page after a sequence of page writes\<close>

lemma length_write_pages_ge:
  assumes "pages_ok ws"
  shows "length f \<le> length (write_pages ws f)"
    and "w \<in> set ws \<Longrightarrow> (fst w + 1) * PAGE_SIZE \<le> length (write_pages ws f)"
proof -
  have "length f \<le> length (write_pages ws f) \<and>
      (w \<in> set ws \<longrightarrow> (fst w + 1) * PAGE_SIZE \<le> length (write_pages ws f))"
    using assms
  proof (induction ws arbitrary: f)
    case (Cons v ws)
    then have v: "snd v \<noteq> []" "length (snd v) = PAGE_SIZE"
      by (auto simp: pages_ok_def PAGE_SIZE_def)
    let ?g = "write_at f (fst v * PAGE_SIZE) (snd v)"
    have "length ?g \<le> length (write_pages ws ?g) \<and>
      (w \<in> set ws \<longrightarrow> (fst w + 1) * PAGE_SIZE \<le> length (write_pages ws ?g))"
      using Cons by (auto simp: pages_ok_def)
    with v show ?case by auto
  qed simp
  then show "length f \<le> length (write_pages ws f)"
    and "w \<in> set ws \<Longrightarrow> (fst w + 1) * PAGE_SIZE \<le> length (write_pages ws f)"
    by auto
qed

lemma length_write_pages_le:
  "pages_ok ws \<Longrightarrow> (\<And>w. w \<in> set ws \<Longrightarrow> (fst w + 1) * PAGE_SIZE \<le> B) \<Longrightarrow> length f \<le> B
   \<Longrightarrow> length (write_pages ws f) \<le> B"
proof (induction ws arbitrary: f)
  case (Cons v ws)
  then have v: "snd v \<noteq> []" "length (snd v) = PAGE_SIZE" "fst v * PAGE_SIZE + PAGE_SIZE \<le> B"
    using Cons.prems(1) Cons.prems(2) [of v] by (auto simp: pages_ok_def PAGE_SIZE_def add.commute)
  then have "length (write_at f (fst v * PAGE_SIZE) (snd v)) \<le> B"
    using Cons.prems(3) by simp
  moreover have "pages_ok ws" "\<And>w. w \<in> set ws \<Longrightarrow> (fst w + 1) * PAGE_SIZE \<le> B"
    using Cons.prems by (auto simp: pages_ok_def)
  ultimately show ?case using Cons.IH by simp
qed simp

text \<open>What a page holds on disk; pages past the end of the file are zeros.\<close>

definition disk_page :: "byte list \<Rightarrow> nat \<Rightarrow> page" where
  "disk_page f i = (if (i + 1) * PAGE_SIZE \<le> length f then slice f (i * PAGE_SIZE) PAGE_SIZE else zero_page)"

lemma length_disk_page [simp]: "length (disk_page f i) = PAGE_SIZE"
  by (auto simp: disk_page_def)

lemma dvd_page_up: "PAGE_SIZE dvd n \<Longrightarrow> i * PAGE_SIZE < n \<Longrightarrow> (i + 1) * PAGE_SIZE \<le> n"
  by (auto simp: PAGE_SIZE_def dvd_def)

lemma disk_page_fbyte:
  assumes "PAGE_SIZE dvd length f" "k < PAGE_SIZE"
  shows "disk_page f i ! k = fbyte f (i * PAGE_SIZE + k)"
proof (cases "(i + 1) * PAGE_SIZE \<le> length f")
  case True
  with assms show ?thesis by (simp add: disk_page_def nth_slice fbyte_def)
next
  case False
  then have "length f \<le> i * PAGE_SIZE"
    using dvd_page_up [OF assms(1)] by (meson not_le)
  with False assms show ?thesis by (simp add: disk_page_def zero_page_def fbyte_def)
qed

lemma fbyte_write_at_page:
  assumes "length b = PAGE_SIZE" "k < PAGE_SIZE"
  shows "fbyte (write_at f (j * PAGE_SIZE) b) (i * PAGE_SIZE + k)
       = (if i = j then b ! k else fbyte f (i * PAGE_SIZE + k))"
proof -
  have "j * PAGE_SIZE \<le> i * PAGE_SIZE + k \<and> i * PAGE_SIZE + k < j * PAGE_SIZE + PAGE_SIZE \<longleftrightarrow> i = j"
    using assms(2) by (auto simp: PAGE_SIZE_def)
  with assms(1) show ?thesis by (simp add: fbyte_write_at)
qed

lemma dvd_write_at:
  "PAGE_SIZE dvd length f \<Longrightarrow> length b = PAGE_SIZE \<Longrightarrow> PAGE_SIZE dvd length (write_at f (i * PAGE_SIZE) b)"
proof -
  assume a: "PAGE_SIZE dvd length f" "length b = PAGE_SIZE"
  then have "b \<noteq> []" by (auto simp: PAGE_SIZE_def)
  moreover have "PAGE_SIZE dvd i * PAGE_SIZE + PAGE_SIZE" by simp
  ultimately show ?thesis using a by (simp add: max_def)
qed

lemma disk_page_write_at:
  assumes "PAGE_SIZE dvd length f" "length b = PAGE_SIZE"
  shows "disk_page (write_at f (j * PAGE_SIZE) b) i = (if i = j then b else disk_page f i)"
  using assms dvd_write_at [OF assms]
  by (intro nth_equalityI) (auto simp: disk_page_fbyte fbyte_write_at_page)

lemma dvd_write_pages: "pages_ok ws \<Longrightarrow> PAGE_SIZE dvd length f \<Longrightarrow> PAGE_SIZE dvd length (write_pages ws f)"
  by (induction ws arbitrary: f) (auto simp: pages_ok_def dvd_write_at)

lemma disk_page_write_pages:
  "pages_ok ws \<Longrightarrow> PAGE_SIZE dvd length f \<Longrightarrow> distinct (map fst ws) \<Longrightarrow>
   disk_page (write_pages ws f) i = (case map_of ws i of Some b \<Rightarrow> b | None \<Rightarrow> disk_page f i)"
proof (induction ws arbitrary: f)
  case (Cons w ws)
  then have "disk_page (write_pages (w # ws) f) i
      = (case map_of ws i of Some b \<Rightarrow> b | None \<Rightarrow> if i = fst w then snd w else disk_page f i)"
    by (simp add: pages_ok_def dvd_write_at disk_page_write_at cong: option.case_cong)
  moreover have "i = fst w \<Longrightarrow> map_of ws i = None"
    using Cons.prems(3) by (simp add: map_of_eq_None_iff)
  ultimately show ?case by (auto split: option.split)
qed simp

end
