(* ===== verification/Wal.thy ===== *)
theory Wal
  imports Files
begin

text \<open>
  \<open>src/wal.rs\<close>: the write-ahead log, a file of fixed-size records. The model keeps the
  file's bytes and the transaction counter; file operations succeed. \<open>recover\<close> is the
  source's single pass over the file; the log is related to a list of entries by
  \<open>encode_log\<close>.
\<close>

section \<open>The operations of the source\<close>

definition RECORD_TYPE_PAGE :: byte where "RECORD_TYPE_PAGE = 1"
definition RECORD_TYPE_COMMIT :: byte where "RECORD_TYPE_COMMIT = 2"
definition RECORD_SIZE :: nat where "RECORD_SIZE = 1 + 8 + 4 + PAGE_SIZE"

record wal =
  wal_file :: "byte list"
  wal_txn_id :: u64

record wal_record =
  rec_page_num :: u32
  rec_data :: page

definition wal_open :: "byte list \<Rightarrow> wal" where
  "wal_open contents = \<lparr>wal_file = contents, wal_txn_id = 0\<rparr>"

definition page_rec :: "u64 \<Rightarrow> u32 \<Rightarrow> page \<Rightarrow> byte list" where
  "page_rec txn n data = [RECORD_TYPE_PAGE] @ u64_le txn @ u32_le n @ data"

definition commit_rec :: "u64 \<Rightarrow> byte list" where
  "commit_rec txn = [RECORD_TYPE_COMMIT] @ u64_le txn @ replicate 4 0 @ zero_page"

definition append_page :: "u32 \<Rightarrow> page \<Rightarrow> wal \<Rightarrow> wal" where
  "append_page n data w = w\<lparr>wal_file := append_end (wal_file w) (page_rec (wal_txn_id w) n data)\<rparr>"

definition append_commit :: "wal \<Rightarrow> wal" where
  "append_commit w =
     w\<lparr>wal_file := append_end (wal_file w) (commit_rec (wal_txn_id w)),
       wal_txn_id := wal_txn_id w + 1\<rparr>"

definition wal_truncate :: "wal \<Rightarrow> wal" where
  "wal_truncate w = w\<lparr>wal_file := []\<rparr>"

text \<open>The first pass of \<open>recover\<close>: committed ids and page records, in file order.\<close>

function scan_records ::
  "byte list \<Rightarrow> u64 set \<Rightarrow> (u64 \<times> wal_record) list \<Rightarrow> u64 set \<times> (u64 \<times> wal_record) list" where
  "scan_records bs committed pages =
     (if length bs < RECORD_SIZE then (committed, pages)
      else
        let buf = take RECORD_SIZE bs; rest = drop RECORD_SIZE bs;
            rtype = buf ! 0; txn = u64_of_le (slice buf 1 8) in
        if rtype = RECORD_TYPE_COMMIT then scan_records rest (insert txn committed) pages
        else if rtype = RECORD_TYPE_PAGE then
          scan_records rest committed
            (pages @ [(txn, \<lparr>rec_page_num = u32_of_le (slice buf 9 4), rec_data = drop 13 buf\<rparr>)])
        else scan_records rest committed pages)"
  by pat_completeness auto
termination
  by (relation "measure (\<lambda>(bs, c, p). length bs)") (auto simp: RECORD_SIZE_def)

declare scan_records.simps [simp del]

definition recover :: "wal \<Rightarrow> wal_record list" where
  "recover w =
     (if wal_file w = [] then []
      else let (committed, pages) = scan_records (wal_file w) {} [] in
        map snd (filter (\<lambda>(txn, _). txn \<in> committed) pages))"

section \<open>The log as a list of entries\<close>

datatype log_entry = PageE u64 u32 page | CommitE u64

fun encode_entry :: "log_entry \<Rightarrow> byte list" where
  "encode_entry (PageE txn n data) = page_rec txn n data"
| "encode_entry (CommitE txn) = commit_rec txn"

definition encode_log :: "log_entry list \<Rightarrow> byte list" where
  "encode_log es = concat (map encode_entry es)"

fun entry_ok :: "log_entry \<Rightarrow> bool" where
  "entry_ok (PageE txn n data) = (length data = PAGE_SIZE)"
| "entry_ok (CommitE txn) = True"

fun commits :: "log_entry list \<Rightarrow> u64 set" where
  "commits [] = {}"
| "commits (CommitE txn # es) = insert txn (commits es)"
| "commits (PageE _ _ _ # es) = commits es"

fun page_entries :: "log_entry list \<Rightarrow> (u64 \<times> wal_record) list" where
  "page_entries [] = []"
| "page_entries (CommitE _ # es) = page_entries es"
| "page_entries (PageE txn n data # es) = (txn, \<lparr>rec_page_num = n, rec_data = data\<rparr>) # page_entries es"

text \<open>What recovery is for: the page writes of the transactions whose commit marker is in
  the log, in log order.\<close>

definition committed_records :: "log_entry list \<Rightarrow> wal_record list" where
  "committed_records es = map snd (filter (\<lambda>(txn, _). txn \<in> commits es) (page_entries es))"

lemma encode_log_simps [simp]:
  "encode_log [] = []"
  "encode_log (e # es) = encode_entry e @ encode_log es"
  "encode_log (xs @ ys) = encode_log xs @ encode_log ys"
  by (simp_all add: encode_log_def)

lemma commits_append [simp]: "commits (xs @ ys) = commits xs \<union> commits ys"
  by (induction xs rule: commits.induct) auto

lemma page_entries_append [simp]: "page_entries (xs @ ys) = page_entries xs @ page_entries ys"
  by (induction xs rule: page_entries.induct) auto

lemma length_encode_entry: "entry_ok e \<Longrightarrow> length (encode_entry e) = RECORD_SIZE"
  by (cases e) (auto simp: page_rec_def commit_rec_def RECORD_SIZE_def)

lemma length_encode_log: "list_all entry_ok es \<Longrightarrow> length (encode_log es) = length es * RECORD_SIZE"
  by (induction es) (auto simp: length_encode_entry)

lemma page_rec_fields:
  "page_rec txn n data ! 0 = RECORD_TYPE_PAGE"
  "slice (page_rec txn n data) (Suc 0) 8 = u64_le txn"
  "slice (page_rec txn n data) 9 4 = u32_le n"
  "drop 13 (page_rec txn n data) = data"
  by (simp_all add: page_rec_def slice_def)

lemma commit_rec_fields:
  "commit_rec txn ! 0 = RECORD_TYPE_COMMIT"
  "slice (commit_rec txn) (Suc 0) 8 = u64_le txn"
  by (simp_all add: commit_rec_def slice_def)

text \<open>One record is parsed back to its entry.\<close>

lemma scan_records_short: "length bs < RECORD_SIZE \<Longrightarrow> scan_records bs c p = (c, p)"
  by (simp add: scan_records.simps [of bs])

lemma scan_records_entry:
  assumes "entry_ok e"
  shows "scan_records (encode_entry e @ bs) c p = scan_records bs (c \<union> commits [e]) (p @ page_entries [e])"
proof -
  have "take RECORD_SIZE (encode_entry e @ bs) = encode_entry e"
    "drop RECORD_SIZE (encode_entry e @ bs) = bs"
    using length_encode_entry [OF assms] by simp_all
  moreover have "\<not> length (encode_entry e @ bs) < RECORD_SIZE"
    using length_encode_entry [OF assms] by simp
  ultimately show ?thesis
    by (subst scan_records.simps, cases e)
      (simp_all add: Let_def page_rec_fields commit_rec_fields
        RECORD_TYPE_PAGE_def RECORD_TYPE_COMMIT_def)
qed

lemma scan_records_log:
  "list_all entry_ok es \<Longrightarrow>
   scan_records (encode_log es @ bs) c p = scan_records bs (c \<union> commits es) (p @ page_entries es)"
proof (induction es arbitrary: c p)
  case (Cons e es)
  then have "scan_records (encode_log (e # es) @ bs) c p
      = scan_records bs (c \<union> commits [e] \<union> commits es) (p @ page_entries [e] @ page_entries es)"
    using scan_records_entry [of e "encode_log es @ bs"] by simp
  moreover have "commits [e] \<union> commits es = commits (e # es)"
    "page_entries [e] @ page_entries es = page_entries (e # es)"
    by (cases e; simp)+
  ultimately show ?case by (simp only: Un_assoc)
qed simp

text \<open>A log followed by a torn record recovers to exactly the committed entries.\<close>

lemma recover_log:
  assumes "list_all entry_ok es" "length torn < RECORD_SIZE"
  shows "recover \<lparr>wal_file = encode_log es @ torn, wal_txn_id = t\<rparr> = committed_records es"
proof (cases "encode_log es @ torn = []")
  case True
  then have "es = []"
    using length_encode_log [OF assms(1)] by (cases es) (auto simp: RECORD_SIZE_def)
  with True show ?thesis by (simp add: recover_def committed_records_def)
next
  case False
  have "scan_records (encode_log es @ torn) {} [] = (commits es, page_entries es)"
    using assms by (simp add: scan_records_log scan_records_short)
  with False show ?thesis
    by (simp only: recover_def committed_records_def wal.simps if_False Let_def case_prod_conv)
qed

section \<open>Logs of one transaction\<close>

definition txn_entries :: "u64 \<Rightarrow> (u32 \<times> page) list \<Rightarrow> log_entry list" where
  "txn_entries txn ws = map (\<lambda>(n, data). PageE txn n data) ws"

lemma txn_entries_simps [simp]:
  "commits (txn_entries txn ws) = {}"
  "page_entries (txn_entries txn ws) = map (\<lambda>(n, data). (txn, \<lparr>rec_page_num = n, rec_data = data\<rparr>)) ws"
  by (induction ws) (auto simp: txn_entries_def)

lemma txn_entries_ok: "list_all entry_ok (txn_entries txn ws) \<longleftrightarrow> list_all (\<lambda>w. length (snd w) = PAGE_SIZE) ws"
  by (induction ws) (auto simp: txn_entries_def)

definition records_of :: "(u32 \<times> page) list \<Rightarrow> wal_record list" where
  "records_of ws = map (\<lambda>(n, data). \<lparr>rec_page_num = n, rec_data = data\<rparr>) ws"

lemma committed_txn: "committed_records (txn_entries txn ws @ [CommitE txn]) = records_of ws"
  by (simp add: committed_records_def records_of_def filter_map comp_def case_prod_beta)

lemma uncommitted_txn: "committed_records (txn_entries txn ws) = []"
  by (simp add: committed_records_def)

text \<open>A strict prefix of a transaction's log consists of page records and a torn record.\<close>

lemma prefix_of_log:
  assumes "list_all entry_ok es"
  obtains k torn where "take m (encode_log es) = encode_log (take k es) @ torn"
    "length torn < RECORD_SIZE" "m < length (encode_log es) \<Longrightarrow> k < length es"
proof -
  let ?k = "m div RECORD_SIZE"
  have pos: "0 < RECORD_SIZE" by (simp add: RECORD_SIZE_def)
  show ?thesis
  proof (cases "m < length (encode_log es)")
    case True
    then have k: "?k < length es"
      using length_encode_log [OF assms] by (simp add: div_less_iff_less_mult pos)
    have ok: "list_all entry_ok (take ?k es)"
      using assms by (auto simp: list_all_iff dest: in_set_takeD)
    then have len: "length (encode_log (take ?k es)) = ?k * RECORD_SIZE"
      using k length_encode_log [OF ok] by simp
    have "encode_log es = encode_log (take ?k es) @ encode_log (drop ?k es)"
      by (metis append_take_drop_id encode_log_simps(3))
    then have "take m (encode_log es)
        = encode_log (take ?k es) @ take (m mod RECORD_SIZE) (encode_log (drop ?k es))"
      using len by (simp add: minus_div_mult_eq_mod)
    moreover have "length (take (m mod RECORD_SIZE) (encode_log (drop ?k es))) < RECORD_SIZE"
      using pos by (simp add: min.strict_coboundedI2)
    ultimately show ?thesis using that k by blast
  next
    case False
    then have "take m (encode_log es) = encode_log (take (length es) es) @ []" by simp
    then show ?thesis using that [of "length es" "[]"] False pos by simp
  qed
qed

section \<open>Properties\<close>

text \<open>Property C25. \<open>recover\<close> on a log file that ends in a torn record returns, in log order,
  exactly the page images of the transactions whose commit record is complete in the
  file.\<close>

theorem recover_committed_only:
  assumes "list_all entry_ok es" "length torn < RECORD_SIZE"
  shows "recover (wal_open (encode_log es @ torn)) = committed_records es"
  unfolding wal_open_def using assms by (rule recover_log)

theorem recover_committed_only_witness:
  "recover (wal_open (encode_log [PageE 0 3 zero_page, CommitE 0, PageE 1 4 zero_page] @ [1, 1]))
   = committed_records [PageE 0 3 zero_page, CommitE 0, PageE 1 4 zero_page]"
  by (rule recover_committed_only) (simp_all add: zero_page_def RECORD_SIZE_def PAGE_SIZE_def)

end
