(* ===== verification/Page_Store.thy ===== *)
theory Page_Store
  imports Files
begin

text \<open>
  The interface between the B+Tree and the pager: a store of numbered pages. The B+Tree
  relies on nothing else than the laws of these locales; the pager proves them for its own
  operations (theory \<open>Pager\<close>). \<open>page_reader\<close> is the read path, \<open>page_store\<close> adds
  mutation and allocation.
\<close>

locale page_reader =
  fixes inv :: "'s \<Rightarrow> bool"
    and view :: "'s \<Rightarrow> u32 \<Rightarrow> page"
    and npages :: "'s \<Rightarrow> nat"
    and rd :: "u32 \<Rightarrow> ('s, page) sm"
  assumes rd_law: "inv s \<Longrightarrow> unat n < MAX_PAGES \<Longrightarrow>
    ok (rd n) s (\<lambda>p s'. p = view s n \<and> inv s' \<and> view s' = view s \<and> npages s' = npages s)"
begin

text \<open>\<open>st s V n\<close>: a good state with page contents \<open>V\<close> and \<open>n\<close> pages.\<close>

definition st :: "'s \<Rightarrow> (u32 \<Rightarrow> page) \<Rightarrow> nat \<Rightarrow> bool" where
  "st s V n \<longleftrightarrow> inv s \<and> view s = V \<and> npages s = n"

lemma rd_ok:
  assumes "st s V n" "unat i < MAX_PAGES" "\<And>s'. st s' V n \<Longrightarrow> Q (V i) s'"
  shows "ok (rd i) s Q"
  using rd_law [of s i] assms by (auto simp: st_def elim!: ok_mono)

text \<open>Reading is repeatable: a second read of any page returns what a first one would.\<close>

lemma rd_rd:
  assumes "st s V n" "unat i < MAX_PAGES" "unat j < MAX_PAGES"
  shows "ok (sbind (rd i) (\<lambda>p. sbind (rd j) (\<lambda>q. ret (p, q)))) s (\<lambda>r s'. r = (V i, V j) \<and> st s' V n)"
  by (auto simp: ok_simps intro!: rd_ok [OF assms(1,2)] rd_ok [OF _ assms(3)])

end

locale page_store = page_reader +
  fixes upd :: "u32 \<Rightarrow> (page \<Rightarrow> page result) \<Rightarrow> ('a, unit) sm"
    and alloc :: "('a, u32) sm"
  assumes view_length: "inv s \<Longrightarrow> length (view s n) = PAGE_SIZE"
    and upd_law: "inv s \<Longrightarrow> unat n < npages s \<Longrightarrow> unat n < MAX_PAGES \<Longrightarrow>
      f (view s n) = Inr p \<Longrightarrow> length p = PAGE_SIZE \<Longrightarrow>
      ok (upd n f) s (\<lambda>_ s'. inv s' \<and> view s' = (view s)(n := p) \<and> npages s' = npages s)"
    and alloc_law: "inv s \<Longrightarrow> npages s < MAX_PAGES \<Longrightarrow>
      ok alloc s (\<lambda>n s'. n = of_nat (npages s) \<and> inv s' \<and> view s' = view s \<and> npages s' = Suc (npages s))"
    and alloc_full: "inv s \<Longrightarrow> npages s = MAX_PAGES \<Longrightarrow> \<exists>msg. alloc s = (Inl (Fail msg), s)"
begin

lemma st_length: "st s V n \<Longrightarrow> length (V i) = PAGE_SIZE"
  using view_length by (auto simp: st_def)

lemma upd_ok:
  assumes "st s V n" "unat i < n" "unat i < MAX_PAGES" "f (V i) = Inr p" "length p = PAGE_SIZE"
    and "\<And>s'. st s' (V(i := p)) n \<Longrightarrow> Q () s'"
  shows "ok (upd i f) s Q"
  using upd_law [of s i f p] assms by (auto simp: st_def elim!: ok_mono)

lemma alloc_ok:
  assumes "st s V n" "n < MAX_PAGES" "\<And>s'. st s' V (Suc n) \<Longrightarrow> Q (of_nat n) s'"
  shows "ok alloc s Q"
  using alloc_law [of s] assms by (auto simp: st_def elim!: ok_mono)

text \<open>A page number below the page count, as the word the code uses.\<close>

lemma unat_page: "n < MAX_PAGES \<Longrightarrow> unat (of_nat n :: u32) = n"
  by (simp add: MAX_PAGES_def unat_of_nat_u32)

text \<open>The pattern of every split: allocate a page, rewrite the old one, fill the new one.\<close>

lemma split_pages_ok:
  assumes "st s V n" "n < MAX_PAGES" "unat i < n"
    and "f (of_nat n) (V i) = Inr p" "length p = PAGE_SIZE"
    and "g (V (of_nat n)) = Inr q" "length q = PAGE_SIZE"
    and "\<And>s'. st s' (V(i := p, of_nat n := q)) (Suc n) \<Longrightarrow> Q (h (of_nat n)) s'"
  shows "ok (sbind alloc (\<lambda>j. sbind (upd i (f j)) (\<lambda>_. sbind (upd j g) (\<lambda>_. ret (h j))))) s Q"
proof -
  have j: "unat (of_nat n :: u32) = n" using assms(2) by (rule unat_page)
  then have ne: "of_nat n \<noteq> i" using assms(3) by auto
  show ?thesis
    unfolding ok_simps
  proof (rule alloc_ok [OF assms(1,2)])
    fix s1 assume s1: "st s1 V (Suc n)"
    show "ok (upd i (f (of_nat n))) s1 (\<lambda>_ s'. ok (upd (of_nat n) g) s' (\<lambda>_. Q (h (of_nat n))))"
    proof (rule upd_ok [OF s1, where p = p])
      fix s2 assume s2: "st s2 (V(i := p)) (Suc n)"
      show "ok (upd (of_nat n) g) s2 (\<lambda>_. Q (h (of_nat n)))"
        by (rule upd_ok [OF s2, where p = q]) (use assms(2,6-8) ne j in auto)
    qed (use assms(2-5) in auto)
  qed
qed

end

end
