(* ===== verification/Pager.thy ===== *)
theory Pager
  imports Wal Page_Store
begin

text \<open>
  \<open>src/pager.rs\<close>: the page cache over a file and its write-ahead log. The record keeps
  the source's fields; the two mutexes are plain fields here (the write path bypasses them,
  the read path holds each only for one step). File operations succeed; what a crash can
  do to the files is the subject of theory \<open>Crash\<close>.
\<close>

section \<open>The operations of the source\<close>

record cache =
  cache_pages :: "page option list"
  cache_dirty :: "bool list"

record pager =
  pg_file :: "byte list"
  pg_file_length :: nat
  pg_cache :: cache
  pg_wal :: wal
  pg_in_txn :: bool

definition apply_records :: "wal_record list \<Rightarrow> byte list \<Rightarrow> byte list" where
  "apply_records recs f = write_pages (map (\<lambda>r. (unat (rec_page_num r), rec_data r)) recs) f"

definition empty_cache :: cache where
  "empty_cache = \<lparr>cache_pages = replicate MAX_PAGES None, cache_dirty = replicate MAX_PAGES False\<rparr>"

text \<open>\<open>Pager::open\<close> on the contents of the database file and of its log (empty for files
  that the call creates).\<close>

definition pager_open :: "string \<Rightarrow> byte list \<Rightarrow> byte list \<Rightarrow> pager result" where
  "pager_open path db log =
     (if length db mod PAGE_SIZE \<noteq> 0
      then Inl (Fail (''Corrupt file '' @ quoted path @ '': length '' @ show_nat (length db)
                @ '' not a multiple of '' @ show_nat PAGE_SIZE))
      else
        let w = wal_open log; recs = recover w;
            (db', w') = (if recs \<noteq> [] then (apply_records recs db, wal_truncate w) else (db, w)) in
        Inr \<lparr>pg_file = db', pg_file_length = length db', pg_cache = empty_cache,
             pg_wal = w', pg_in_txn = False\<rparr>)"

definition num_pages :: "pager \<Rightarrow> u32" where
  "num_pages pg = of_nat (pg_file_length pg div PAGE_SIZE)"

definition exceeds_max :: "u32 \<Rightarrow> error" where
  "exceeds_max n = Fail (''Page '' @ show_nat (unat n) @ '' exceeds max '' @ show_nat MAX_PAGES)"

text \<open>A cache miss: zeros past the end of the database, a disk read otherwise.\<close>

definition load_page :: "pager \<Rightarrow> u32 \<Rightarrow> page result" where
  "load_page pg n =
     (if (unat n + 1) * PAGE_SIZE \<le> pg_file_length pg then read_page_at (pg_file pg) (unat n)
      else Inr zero_page)"

definition cache_put :: "nat \<Rightarrow> page \<Rightarrow> pager \<Rightarrow> pager" where
  "cache_put i p pg = pg\<lparr>pg_cache := (pg_cache pg)\<lparr>cache_pages := (cache_pages (pg_cache pg))[i := Some p]\<rparr>\<rparr>"

text \<open>\<open>read_page\<close>, the \<open>&self\<close> read path: it returns a copy and fills the cache.\<close>

definition read_page :: "u32 \<Rightarrow> (pager, page) sm" where
  "read_page n pg =
     (if MAX_PAGES \<le> unat n then (Inl (exceeds_max n), pg)
      else case cache_pages (pg_cache pg) ! unat n of
        Some buf \<Rightarrow> (Inr buf, pg)
      | None \<Rightarrow> (case load_page pg n of
            Inl e \<Rightarrow> (Inl e, pg)
          | Inr buf \<Rightarrow> (Inr buf, cache_put (unat n) buf pg)))"

text \<open>\<open>get_page\<close>, the \<open>&mut self\<close> read: same contents, borrowed instead of copied.\<close>

definition get_page :: "u32 \<Rightarrow> (pager, page) sm" where
  "get_page n pg =
     (if MAX_PAGES \<le> unat n then (Inl (exceeds_max n), pg)
      else if cache_pages (pg_cache pg) ! unat n = None
      then (case load_page pg n of
            Inl e \<Rightarrow> (Inl e, pg)
          | Inr buf \<Rightarrow> (Inr buf, cache_put (unat n) buf pg))
      else (Inr (the (cache_pages (pg_cache pg) ! unat n)), pg))"

definition extend_and_mark :: "u32 \<Rightarrow> pager \<Rightarrow> pager" where
  "extend_and_mark n pg =
     (let new_end = (unat n + 1) * PAGE_SIZE;
          pg1 = (if pg_file_length pg < new_end then pg\<lparr>pg_file_length := new_end\<rparr> else pg) in
      pg1\<lparr>pg_cache := (pg_cache pg1)\<lparr>cache_dirty := (cache_dirty (pg_cache pg1))[unat n := True]\<rparr>\<rparr>)"

definition get_page_mut :: "u32 \<Rightarrow> (pager, page) sm" where
  "get_page_mut n = sbind (get_page n) (\<lambda>p pg. (Inr p, extend_and_mark n pg))"

text \<open>
  A caller of \<open>get_page_mut\<close> changes the page through the reference it gets; in the model
  it gives the change as a function, and the result is stored back. When the change panics
  the cache keeps the page as it was: the panic unwinds through the write lock and poisons
  it, so nothing reads the cache afterwards.
\<close>

definition with_page_mut :: "u32 \<Rightarrow> (page \<Rightarrow> page result) \<Rightarrow> (pager, unit) sm" where
  "with_page_mut n f =
     sbind (get_page_mut n) (\<lambda>p. sbind (liftR (f p)) (\<lambda>p' pg. (Inr (), cache_put (unat n) p' pg)))"

definition allocate_page :: "(pager, u32) sm" where
  "allocate_page pg =
     (let n = num_pages pg in sbind (get_page_mut n) (\<lambda>_. ret n) pg)"

definition pager_begin :: "(pager, unit) sm" where
  "pager_begin pg =
     (if pg_in_txn pg then (Inl (Fail ''Already in a transaction.''), pg)
      else (Inr (), pg\<lparr>pg_in_txn := True\<rparr>))"

text \<open>The two loops of \<open>commit\<close> over the page numbers.\<close>

definition commit_log_step :: "cache \<Rightarrow> nat \<Rightarrow> wal \<Rightarrow> wal" where
  "commit_log_step c i w =
     (if cache_dirty c ! i
      then (case cache_pages c ! i of Some buf \<Rightarrow> append_page (of_nat i) buf w | None \<Rightarrow> w)
      else w)"

definition commit_apply_step :: "page option list \<Rightarrow> nat \<Rightarrow> byte list \<times> bool list \<Rightarrow> byte list \<times> bool list" where
  "commit_apply_step ps i = (\<lambda>(f, d).
     if d ! i
     then (case ps ! i of Some buf \<Rightarrow> (write_at f (i * PAGE_SIZE) buf, d[i := False]) | None \<Rightarrow> (f, d))
     else (f, d))"

definition pager_commit :: "(pager, unit) sm" where
  "pager_commit pg =
     (let c = pg_cache pg;
          w = append_commit (fold (commit_log_step c) [0..<MAX_PAGES] (pg_wal pg));
          (f, d) = fold (commit_apply_step (cache_pages c)) [0..<MAX_PAGES] (pg_file pg, cache_dirty c) in
      (Inr (), pg\<lparr>pg_file := f, pg_cache := c\<lparr>cache_dirty := d\<rparr>, pg_wal := wal_truncate w,
                  pg_in_txn := False\<rparr>))"

definition discard_step :: "nat \<Rightarrow> cache \<Rightarrow> cache" where
  "discard_step i c =
     (if cache_dirty c ! i
      then c\<lparr>cache_pages := (cache_pages c)[i := None], cache_dirty := (cache_dirty c)[i := False]\<rparr>
      else c)"

definition pager_rollback :: "(pager, unit) sm" where
  "pager_rollback pg =
     (Inr (), pg\<lparr>pg_cache := fold discard_step [0..<MAX_PAGES] (pg_cache pg),
                 pg_file_length := length (pg_file pg),
                 pg_wal := wal_truncate (pg_wal pg), pg_in_txn := False\<rparr>)"

definition pager_flush :: "(pager, unit) sm" where
  "pager_flush = pager_commit"

section \<open>The invariant and the logical contents\<close>

definition npages :: "pager \<Rightarrow> nat" where
  "npages pg = pg_file_length pg div PAGE_SIZE"

definition page_view :: "pager \<Rightarrow> u32 \<Rightarrow> page" where
  "page_view pg n =
     (if unat n < MAX_PAGES
      then (case cache_pages (pg_cache pg) ! unat n of Some p \<Rightarrow> p | None \<Rightarrow> disk_page (pg_file pg) (unat n))
      else zero_page)"

text \<open>
  A cached page has the page size and, when clean, the contents of the disk. A dirty page
  is cached and lies below the logical length. Pages between the end of the file and the
  logical length are dirty: nothing else has them.
\<close>

definition cache_entry_ok :: "byte list \<Rightarrow> nat \<Rightarrow> nat \<Rightarrow> page option \<Rightarrow> bool \<Rightarrow> bool" where
  "cache_entry_ok f fl i po d \<longleftrightarrow>
     (case po of
        Some p \<Rightarrow> length p = PAGE_SIZE \<and> (if d then (i + 1) * PAGE_SIZE \<le> fl else p = disk_page f i)
      | None \<Rightarrow> \<not> d) \<and>
     (length f \<le> i * PAGE_SIZE \<and> (i + 1) * PAGE_SIZE \<le> fl \<longrightarrow> d)"

lemma cache_entry_simps:
  "cache_entry_ok f fl i None d \<longleftrightarrow> \<not> d \<and> \<not> (length f \<le> i * PAGE_SIZE \<and> (i + 1) * PAGE_SIZE \<le> fl)"
  "cache_entry_ok f fl i (Some p) d \<longleftrightarrow>
     length p = PAGE_SIZE \<and> (if d then (i + 1) * PAGE_SIZE \<le> fl
       else p = disk_page f i \<and> \<not> (length f \<le> i * PAGE_SIZE \<and> (i + 1) * PAGE_SIZE \<le> fl))"
  by (auto simp: cache_entry_ok_def)

definition lengths_ok :: "nat \<Rightarrow> nat \<Rightarrow> bool" where
  "lengths_ok len fl \<longleftrightarrow>
     PAGE_SIZE dvd len \<and> PAGE_SIZE dvd fl \<and> len \<le> fl \<and> (fl = len \<or> fl \<le> MAX_PAGES * PAGE_SIZE)"

definition pager_ok :: "pager \<Rightarrow> bool" where
  "pager_ok pg \<longleftrightarrow>
     length (cache_pages (pg_cache pg)) = MAX_PAGES \<and> length (cache_dirty (pg_cache pg)) = MAX_PAGES \<and>
     (\<forall>i < MAX_PAGES. cache_entry_ok (pg_file pg) (pg_file_length pg) i
        (cache_pages (pg_cache pg) ! i) (cache_dirty (pg_cache pg) ! i)) \<and>
     lengths_ok (length (pg_file pg)) (pg_file_length pg)"

lemma pager_okD:
  assumes "pager_ok pg" "i < MAX_PAGES"
  shows "cache_entry_ok (pg_file pg) (pg_file_length pg) i
           (cache_pages (pg_cache pg) ! i) (cache_dirty (pg_cache pg) ! i)"
  using assms by (simp add: pager_ok_def)

lemma page_view_length: "pager_ok pg \<Longrightarrow> length (page_view pg n) = PAGE_SIZE"
  using pager_okD [of pg "unat n"]
  by (auto simp: page_view_def cache_entry_ok_def split: option.splits)

lemma load_page_ok:
  assumes "pager_ok pg" "unat n < MAX_PAGES" "cache_pages (pg_cache pg) ! unat n = None"
  shows "load_page pg n = Inr (disk_page (pg_file pg) (unat n))"
proof -
  have clean: "\<not> (length (pg_file pg) \<le> unat n * PAGE_SIZE \<and> (unat n + 1) * PAGE_SIZE \<le> pg_file_length pg)"
    using pager_okD [OF assms(1,2)] assms(3) by (auto simp: cache_entry_ok_def)
  have len: "PAGE_SIZE dvd length (pg_file pg)" "length (pg_file pg) \<le> pg_file_length pg"
    using assms(1) by (auto simp: pager_ok_def lengths_ok_def)
  show ?thesis
  proof (cases "(unat n + 1) * PAGE_SIZE \<le> pg_file_length pg")
    case True
    with clean len dvd_page_up show ?thesis
      by (auto simp: load_page_def read_page_at_def disk_page_def not_le)
  next
    case False
    with len show ?thesis by (auto simp: load_page_def disk_page_def)
  qed
qed

lemma cache_put_sel [simp]:
  "pg_file (cache_put i p pg) = pg_file pg"
  "pg_file_length (cache_put i p pg) = pg_file_length pg"
  "pg_wal (cache_put i p pg) = pg_wal pg"
  "pg_in_txn (cache_put i p pg) = pg_in_txn pg"
  "cache_pages (pg_cache (cache_put i p pg)) = (cache_pages (pg_cache pg))[i := Some p]"
  "cache_dirty (pg_cache (cache_put i p pg)) = cache_dirty (pg_cache pg)"
  by (simp_all add: cache_put_def)

lemma extend_and_mark_sel [simp]:
  "pg_file (extend_and_mark n pg) = pg_file pg"
  "pg_file_length (extend_and_mark n pg) = max (pg_file_length pg) ((unat n + 1) * PAGE_SIZE)"
  "pg_wal (extend_and_mark n pg) = pg_wal pg"
  "pg_in_txn (extend_and_mark n pg) = pg_in_txn pg"
  "cache_pages (pg_cache (extend_and_mark n pg)) = cache_pages (pg_cache pg)"
  "cache_dirty (pg_cache (extend_and_mark n pg)) = (cache_dirty (pg_cache pg))[unat n := True]"
  by (simp_all add: extend_and_mark_def Let_def max_def)

text \<open>\<open>same_view\<close>: a pager that answers every read as before and has the same files.\<close>

definition same_view :: "pager \<Rightarrow> pager \<Rightarrow> bool" where
  "same_view pg pg' \<longleftrightarrow> pager_ok pg' \<and> page_view pg' = page_view pg \<and>
     pg_file pg' = pg_file pg \<and> pg_file_length pg' = pg_file_length pg \<and>
     pg_wal pg' = pg_wal pg \<and> pg_in_txn pg' = pg_in_txn pg \<and>
     cache_dirty (pg_cache pg') = cache_dirty (pg_cache pg)"

lemma same_view_refl [simp]: "same_view pg pg \<longleftrightarrow> pager_ok pg"
  by (simp add: same_view_def)

lemma same_view_npages: "same_view pg pg' \<Longrightarrow> npages pg' = npages pg"
  by (simp add: same_view_def npages_def)

lemma cache_put_fill:
  assumes "pager_ok pg" "unat n < MAX_PAGES" "cache_pages (pg_cache pg) ! unat n = None"
  shows "same_view pg (cache_put (unat n) (disk_page (pg_file pg) (unat n)) pg)"
proof -
  let ?pg = "cache_put (unat n) (disk_page (pg_file pg) (unat n)) pg"
  have len: "length (cache_pages (pg_cache pg)) = MAX_PAGES"
    using assms(1) by (simp add: pager_ok_def)
  have entry: "cache_entry_ok (pg_file pg) (pg_file_length pg) i
      (cache_pages (pg_cache ?pg) ! i) (cache_dirty (pg_cache pg) ! i)" if "i < MAX_PAGES" for i
  proof (cases "i = unat n")
    case True
    with pager_okD [OF assms(1) that] assms(3) len that show ?thesis
      by (simp add: cache_entry_simps)
  next
    case False
    with pager_okD [OF assms(1) that] show ?thesis
      by simp
  qed
  have "page_view ?pg m = page_view pg m" for m
    using assms len by (auto simp: page_view_def nth_list_update split: option.split)
  then show ?thesis
    using assms(1) entry by (auto simp: same_view_def pager_ok_def)
qed

lemma get_page_ok:
  assumes "pager_ok pg" "unat n < MAX_PAGES"
  shows "ok (get_page n) pg (\<lambda>p pg'. p = page_view pg n \<and> same_view pg pg')"
  using assms load_page_ok [OF assms] cache_put_fill [OF assms]
  by (auto simp: get_page_def ok_def page_view_def)

text \<open>The shared read path and the exclusive one are the same function of the pager.\<close>

lemma read_page_get_page: "read_page = get_page"
  by (auto simp: read_page_def get_page_def fun_eq_iff split: option.splits)

section \<open>The write path\<close>

text \<open>Marking a cached page dirty and storing a new version of it.\<close>

lemma mark_and_put_ok:
  assumes pg: "pager_ok pg" and n: "unat n < MAX_PAGES" "unat n \<le> npages pg"
    and len: "length p = PAGE_SIZE"
  shows "pager_ok (cache_put (unat n) p (extend_and_mark n pg))"
proof -
  let ?fl = "max (pg_file_length pg) ((unat n + 1) * PAGE_SIZE)"
  have lens: "lengths_ok (length (pg_file pg)) (pg_file_length pg)"
    and caps: "length (cache_pages (pg_cache pg)) = MAX_PAGES" "length (cache_dirty (pg_cache pg)) = MAX_PAGES"
    using pg by (auto simp: pager_ok_def)
  have below: "unat n * PAGE_SIZE \<le> pg_file_length pg"
    using n(2) by (metis npages_def mult_le_mono1 div_times_less_eq_dividend order_trans)
  have "(unat n + 1) * PAGE_SIZE \<le> MAX_PAGES * PAGE_SIZE"
    using n(1) by (intro mult_le_mono1) simp
  then have lens': "lengths_ok (length (pg_file pg)) ?fl"
    using lens by (auto simp: lengths_ok_def max_def)
  have "cache_entry_ok (pg_file pg) ?fl i ((cache_pages (pg_cache pg))[unat n := Some p] ! i)
      ((cache_dirty (pg_cache pg))[unat n := True] ! i)" if i: "i < MAX_PAGES" for i
  proof (cases "i = unat n")
    case True
    with caps i len show ?thesis by (simp add: cache_entry_simps)
  next
    case False
    have "(i + 1) * PAGE_SIZE \<le> ?fl \<longleftrightarrow> (i + 1) * PAGE_SIZE \<le> pg_file_length pg \<or> i < unat n"
      using False by (auto simp: PAGE_SIZE_def max_def)
    moreover have "i < unat n \<Longrightarrow> (i + 1) * PAGE_SIZE \<le> pg_file_length pg"
      using below by (simp add: PAGE_SIZE_def)
    ultimately have "(i + 1) * PAGE_SIZE \<le> ?fl \<longleftrightarrow> (i + 1) * PAGE_SIZE \<le> pg_file_length pg"
      by blast
    with False pager_okD [OF pg i] show ?thesis
      by (auto simp: cache_entry_ok_def split: option.splits if_splits)
  qed
  with caps lens' show ?thesis by (simp add: pager_ok_def)
qed

lemma mark_and_put_view:
  assumes "pager_ok pg" "unat n < MAX_PAGES"
  shows "page_view (cache_put (unat n) p (extend_and_mark n pg)) = (page_view pg)(n := p)"
proof
  fix m
  have "length (cache_pages (pg_cache pg)) = MAX_PAGES"
    using assms(1) by (simp add: pager_ok_def)
  with assms(2) show "page_view (cache_put (unat n) p (extend_and_mark n pg)) m = ((page_view pg)(n := p)) m"
    by (auto simp: page_view_def nth_list_update word_unat_eq_iff split: option.split)
qed

lemma mark_is_put:
  assumes "pager_ok pg" "unat n < MAX_PAGES" "cache_pages (pg_cache pg) ! unat n = Some p"
  shows "extend_and_mark n pg = cache_put (unat n) p (extend_and_mark n pg)"
proof -
  have "(cache_pages (pg_cache pg))[unat n := Some p] = cache_pages (pg_cache pg)"
    using assms by (simp add: list_update_same_conv pager_ok_def)
  then show ?thesis
    by (cases "pg_cache pg") (simp add: cache_put_def extend_and_mark_def Let_def)
qed

text \<open>After a read the page is in the cache.\<close>

lemma get_page_cached:
  assumes "pager_ok pg" "unat n < MAX_PAGES" "get_page n pg = (Inr p, pg')"
  shows "cache_pages (pg_cache pg') ! unat n = Some p"
  using assms by (auto simp: get_page_def pager_ok_def split: if_splits sum.splits)

definition same_base :: "pager \<Rightarrow> pager \<Rightarrow> bool" where
  "same_base pg pg' \<longleftrightarrow> pg_file pg' = pg_file pg \<and> pg_wal pg' = pg_wal pg \<and> pg_in_txn pg' = pg_in_txn pg"

lemma same_view_base: "same_view pg pg' \<Longrightarrow> same_base pg pg'"
  by (simp add: same_view_def same_base_def)

lemma npages_mark:
  assumes "pager_ok pg" "unat n \<le> npages pg"
  shows "npages (extend_and_mark n pg) = max (npages pg) (unat n + 1)"
proof -
  have "PAGE_SIZE dvd pg_file_length pg"
    using assms by (simp add: pager_ok_def lengths_ok_def)
  then obtain a where "pg_file_length pg = a * PAGE_SIZE"
    by (metis dvdE mult.commute)
  then show ?thesis by (auto simp: npages_def max_def PAGE_SIZE_def)
qed

lemma get_page_mut_ok:
  assumes "pager_ok pg" "unat n < MAX_PAGES" "unat n \<le> npages pg"
  shows "ok (get_page_mut n) pg (\<lambda>p pg'. p = page_view pg n \<and> pager_ok pg' \<and>
     page_view pg' = page_view pg \<and> npages pg' = max (npages pg) (unat n + 1) \<and> same_base pg pg' \<and>
     (\<forall>q. length q = PAGE_SIZE \<longrightarrow> pager_ok (cache_put (unat n) q pg') \<and>
        page_view (cache_put (unat n) q pg') = (page_view pg)(n := q)))"
proof -
  obtain p pg1 where g: "get_page n pg = (Inr p, pg1)" "p = page_view pg n" "same_view pg pg1"
    using get_page_ok [OF assms(1,2)] by (rule okE) blast
  then have ok1: "pager_ok pg1" and np: "npages pg1 = npages pg"
    by (auto simp: same_view_def npages_def)
  have c: "cache_pages (pg_cache pg1) ! unat n = Some p"
    using get_page_cached [OF assms(1,2) g(1)] .
  have lp: "length p = PAGE_SIZE" using g(2) page_view_length [OF assms(1)] by simp
  note eq = mark_is_put [OF ok1 assms(2) c]
  have "pager_ok (extend_and_mark n pg1)"
    using mark_and_put_ok [OF ok1 assms(2) _ lp] eq assms(3) np by simp
  moreover have "page_view (extend_and_mark n pg1) = page_view pg"
    using mark_and_put_view [OF ok1 assms(2), of p] eq g(2,3) by (simp add: same_view_def)
  moreover have "pager_ok (cache_put (unat n) q (extend_and_mark n pg1)) \<and>
      page_view (cache_put (unat n) q (extend_and_mark n pg1)) = (page_view pg)(n := q)"
    if "length q = PAGE_SIZE" for q
    using mark_and_put_ok [OF ok1 assms(2) _ that] mark_and_put_view [OF ok1 assms(2), of q] assms(3) np g(3)
    by (simp add: same_view_def)
  moreover have "same_base pg (extend_and_mark n pg1)"
    using g(3) by (simp add: same_view_def same_base_def)
  ultimately show ?thesis
    using g(2) npages_mark [OF ok1] assms(3) np
    by (auto simp: get_page_mut_def ok_def sbind_def g(1))
qed

lemma npages_cache_put [simp]: "npages (cache_put i p pg) = npages pg"
  by (simp add: npages_def)

lemma same_base_cache_put [simp]: "same_base pg (cache_put i p pg') = same_base pg pg'"
  by (simp add: same_base_def)

lemma with_page_mut_ok:
  assumes "pager_ok pg" "unat n < npages pg" "unat n < MAX_PAGES" "f (page_view pg n) = Inr p" "length p = PAGE_SIZE"
  shows "ok (with_page_mut n f) pg (\<lambda>_ pg'. pager_ok pg' \<and> page_view pg' = (page_view pg)(n := p) \<and>
     npages pg' = npages pg \<and> same_base pg pg')"
proof -
  obtain pg1 where g: "get_page_mut n pg = (Inr (page_view pg n), pg1)"
      "npages pg1 = npages pg" "same_base pg pg1"
      "pager_ok (cache_put (unat n) p pg1)" "page_view (cache_put (unat n) p pg1) = (page_view pg)(n := p)"
    using get_page_mut_ok [of pg n] assms by (auto elim!: okE)
  then show ?thesis
    using assms(4) by (simp add: ok_def with_page_mut_def sbind_def liftR_def)
qed

lemma with_page_mut_fails:
  assumes "pager_ok pg" "unat n < npages pg" "unat n < MAX_PAGES" "f (page_view pg n) = Inl e"
  shows "fails (with_page_mut n f) pg e"
  unfolding with_page_mut_def
  by (rule fails_bind2 [OF get_page_mut_ok [OF assms(1,3)]])
    (use assms in \<open>auto intro: fails_bind1\<close>)

lemma allocate_page_ok:
  assumes "pager_ok pg" "npages pg < MAX_PAGES"
  shows "ok allocate_page pg (\<lambda>n pg'. n = of_nat (npages pg) \<and> pager_ok pg' \<and> page_view pg' = page_view pg \<and>
     npages pg' = Suc (npages pg) \<and> same_base pg pg')"
proof -
  have n: "unat (num_pages pg) = npages pg" "num_pages pg = of_nat (npages pg)"
    using assms(2) by (simp_all add: num_pages_def npages_def MAX_PAGES_def unat_of_nat_u32)
  then have "ok (sbind (get_page_mut (num_pages pg)) (\<lambda>_. ret (num_pages pg))) pg
      (\<lambda>n pg'. n = of_nat (npages pg) \<and> pager_ok pg' \<and> page_view pg' = page_view pg \<and>
        npages pg' = Suc (npages pg) \<and> same_base pg pg')"
    using get_page_mut_ok [of pg "num_pages pg"] assms
    by (auto simp: ok_simps elim!: ok_mono)
  then show ?thesis by (simp add: ok_def allocate_page_def Let_def)
qed

lemma allocate_page_full:
  assumes "npages pg = MAX_PAGES"
  shows "allocate_page pg = (Inl (exceeds_max (num_pages pg)), pg)"
proof -
  have "unat (num_pages pg) = MAX_PAGES"
    using assms by (simp add: num_pages_def npages_def MAX_PAGES_def unat_of_nat_u32)
  then show ?thesis
    by (simp add: allocate_page_def get_page_mut_def get_page_def sbind_def Let_def)
qed

section \<open>A new database\<close>

text \<open>The pager that \<open>Pager::open\<close> returns for a new file.\<close>

definition fresh_pager :: pager where
  "fresh_pager = \<lparr>pg_file = [], pg_file_length = 0, pg_cache = empty_cache, pg_wal = wal_open [], pg_in_txn = False\<rparr>"

lemma empty_cache_ok:
  assumes "lengths_ok (length f) (length f)"
  shows "pager_ok \<lparr>pg_file = f, pg_file_length = length f, pg_cache = empty_cache, pg_wal = w, pg_in_txn = b\<rparr>"
  using assms by (auto simp: pager_ok_def empty_cache_def cache_entry_ok_def lengths_ok_def PAGE_SIZE_def)

lemma fresh_pager_ok: "pager_ok fresh_pager" "npages fresh_pager = 0"
  using empty_cache_ok [of "[]"] by (simp_all add: fresh_pager_def npages_def lengths_ok_def)

text \<open>A new database with one page, not committed yet.\<close>

definition one_page_pager :: pager where
  "one_page_pager = snd (allocate_page fresh_pager)"

lemma one_page_pager_ok:
  "allocate_page fresh_pager = (Inr 0, one_page_pager)" "pager_ok one_page_pager" "npages one_page_pager = 1"
  "pg_file one_page_pager = []" "wal_file (pg_wal one_page_pager) = []"
  using allocate_page_ok [OF fresh_pager_ok(1)] fresh_pager_ok(2)
  by (auto simp: one_page_pager_def MAX_PAGES_def same_base_def fresh_pager_def wal_open_def elim!: okE)

section \<open>The pager as a page store\<close>

text \<open>
  The laws of \<open>Page_Store\<close> hold of the pager's operations, and none of them touches the
  file, the log or the transaction flag: \<open>pg0\<close> is the pager the operations started from.
\<close>

interpretation pg: page_store
  "\<lambda>s. pager_ok s \<and> same_base pg0 s" page_view npages get_page with_page_mut allocate_page
  for pg0
proof unfold_locales
  fix s n assume a: "pager_ok s \<and> same_base pg0 s" "unat (n :: u32) < MAX_PAGES"
  show "ok (get_page n) s (\<lambda>p s'. p = page_view s n \<and> (pager_ok s' \<and> same_base pg0 s') \<and>
      page_view s' = page_view s \<and> npages s' = npages s)"
    by (rule ok_mono [OF get_page_ok])
      (use a in \<open>auto simp: same_view_def same_base_def npages_def\<close>)
next
  fix s n assume "pager_ok s \<and> same_base pg0 s"
  then show "length (page_view s n) = PAGE_SIZE" by (simp add: page_view_length)
next
  fix s n p and f :: "page \<Rightarrow> page result"
  assume a: "pager_ok s \<and> same_base pg0 s" "unat (n :: u32) < npages s" "unat n < MAX_PAGES"
    "f (page_view s n) = Inr p" "length p = PAGE_SIZE"
  show "ok (with_page_mut n f) s (\<lambda>_ s'. (pager_ok s' \<and> same_base pg0 s') \<and>
      page_view s' = (page_view s)(n := p) \<and> npages s' = npages s)"
    by (rule ok_mono [OF with_page_mut_ok [where p = p]]) (use a in \<open>auto simp: same_base_def\<close>)
next
  fix s assume a: "pager_ok s \<and> same_base pg0 s" "npages s < MAX_PAGES"
  show "ok allocate_page s (\<lambda>n s'. n = of_nat (npages s) \<and> (pager_ok s' \<and> same_base pg0 s') \<and>
      page_view s' = page_view s \<and> npages s' = Suc (npages s))"
    by (rule ok_mono [OF allocate_page_ok]) (use a in \<open>auto simp: same_base_def\<close>)
next
  fix s assume "npages s = MAX_PAGES"
  then show "\<exists>msg. allocate_page s = (Inl (Fail msg), s)"
    by (simp add: allocate_page_full exceeds_max_def)
qed

interpretation pgr: page_reader
  "\<lambda>s. pager_ok s \<and> same_base pg0 s" page_view npages read_page
  for pg0
  unfolding read_page_get_page by (rule pg.page_reader_axioms)

end
