(* ===== verification/Btree_Page.thy ===== *)
theory Btree_Page
  imports Files
begin

text \<open>
  The page layouts of \<open>src/btree.rs\<close>: little-endian accessors, slotted leaves and internal
  nodes, with every operation that works on one page. An access outside the page panics.
  \<open>leaf_rep\<close> and \<open>internal_rep\<close> say which leaf or internal node a page holds; the
  lemmas show what each operation does to it.
\<close>

section \<open>Constants\<close>

definition NODE_TYPE_LEAF :: byte where "NODE_TYPE_LEAF = 1"
definition NODE_TYPE_INTERNAL :: byte where "NODE_TYPE_INTERNAL = 2"
definition LEAF_NUM_CELLS_OFFSET :: nat where "LEAF_NUM_CELLS_OFFSET = 1"
definition LEAF_NEXT_LEAF_OFFSET :: nat where "LEAF_NEXT_LEAF_OFFSET = 5"
definition LEAF_DATA_START_OFFSET :: nat where "LEAF_DATA_START_OFFSET = 9"
definition LEAF_HEADER_SIZE :: nat where "LEAF_HEADER_SIZE = 11"
definition SLOT_SIZE :: nat where "SLOT_SIZE = 4"
definition KEY_SIZE :: nat where "KEY_SIZE = 8"
definition MAX_CELL_DATA :: nat where "MAX_CELL_DATA = PAGE_SIZE - LEAF_HEADER_SIZE - SLOT_SIZE"
definition INTERNAL_NUM_KEYS_OFFSET :: nat where "INTERNAL_NUM_KEYS_OFFSET = 1"
definition RIGHT_CHILD_OFFSET :: nat where "RIGHT_CHILD_OFFSET = 5"
definition INTERNAL_HEADER_SIZE :: nat where "INTERNAL_HEADER_SIZE = 9"
definition INTERNAL_ENTRY_SIZE :: nat where "INTERNAL_ENTRY_SIZE = 4 + 8"

lemmas layout = PAGE_SIZE_def NODE_TYPE_LEAF_def NODE_TYPE_INTERNAL_def
  LEAF_NUM_CELLS_OFFSET_def LEAF_NEXT_LEAF_OFFSET_def LEAF_DATA_START_OFFSET_def
  LEAF_HEADER_SIZE_def SLOT_SIZE_def KEY_SIZE_def MAX_CELL_DATA_def
  INTERNAL_NUM_KEYS_OFFSET_def RIGHT_CHILD_OFFSET_def INTERNAL_HEADER_SIZE_def
  INTERNAL_ENTRY_SIZE_def

section \<open>Little-endian helpers\<close>

definition read_u16 :: "page \<Rightarrow> nat \<Rightarrow> u16 result" where
  "read_u16 page off = rbind (get_slice page off 2) (\<lambda>b. Inr (u16_of_le b))"

definition write_u16 :: "page \<Rightarrow> nat \<Rightarrow> u16 \<Rightarrow> page result" where
  "write_u16 page off v = put_slice page off (u16_le v)"

definition read_u32 :: "page \<Rightarrow> nat \<Rightarrow> u32 result" where
  "read_u32 page off = rbind (get_slice page off 4) (\<lambda>b. Inr (u32_of_le b))"

definition write_u32 :: "page \<Rightarrow> nat \<Rightarrow> u32 \<Rightarrow> page result" where
  "write_u32 page off v = put_slice page off (u32_le v)"

definition read_i64 :: "page \<Rightarrow> nat \<Rightarrow> i64 result" where
  "read_i64 page off = rbind (get_slice page off 8) (\<lambda>b. Inr (i64_of_le b))"

definition write_i64 :: "page \<Rightarrow> nat \<Rightarrow> i64 \<Rightarrow> page result" where
  "write_i64 page off v = put_slice page off (i64_le v)"

section \<open>Leaf helpers\<close>

definition leaf_num_cells :: "page \<Rightarrow> u32 result" where
  "leaf_num_cells page = read_u32 page LEAF_NUM_CELLS_OFFSET"

definition leaf_set_num_cells :: "page \<Rightarrow> u32 \<Rightarrow> page result" where
  "leaf_set_num_cells page n = write_u32 page LEAF_NUM_CELLS_OFFSET n"

definition leaf_next_leaf :: "page \<Rightarrow> u32 result" where
  "leaf_next_leaf page = read_u32 page LEAF_NEXT_LEAF_OFFSET"

definition leaf_set_next_leaf :: "page \<Rightarrow> u32 \<Rightarrow> page result" where
  "leaf_set_next_leaf page v = write_u32 page LEAF_NEXT_LEAF_OFFSET v"

definition leaf_data_start :: "page \<Rightarrow> u16 result" where
  "leaf_data_start page = read_u16 page LEAF_DATA_START_OFFSET"

definition leaf_set_data_start :: "page \<Rightarrow> u16 \<Rightarrow> page result" where
  "leaf_set_data_start page v = write_u16 page LEAF_DATA_START_OFFSET v"

definition slot_offset :: "nat \<Rightarrow> nat" where
  "slot_offset i = LEAF_HEADER_SIZE + i * SLOT_SIZE"

definition read_slot :: "page \<Rightarrow> nat \<Rightarrow> (u16 \<times> u16) result" where
  "read_slot page i =
     (let off = slot_offset i in
      rbind (read_u16 page off) (\<lambda>o'. rbind (read_u16 page (off + 2)) (\<lambda>l. Inr (o', l))))"

definition write_slot :: "page \<Rightarrow> nat \<Rightarrow> u16 \<Rightarrow> u16 \<Rightarrow> page result" where
  "write_slot page i data_off data_len =
     (let off = slot_offset i in
      rbind (write_u16 page off data_off) (\<lambda>p. write_u16 p (off + 2) data_len))"

definition leaf_cell_key :: "page \<Rightarrow> nat \<Rightarrow> i64 result" where
  "leaf_cell_key page i = rbind (read_slot page i) (\<lambda>(off, _). read_i64 page (unat off))"

definition leaf_cell_row :: "page \<Rightarrow> nat \<Rightarrow> byte list result" where
  "leaf_cell_row page i =
     rbind (read_slot page i) (\<lambda>(off, len).
       let start = unat off + KEY_SIZE; end' = unat off + unat len in get_range page start end')"

definition leaf_free_space :: "page \<Rightarrow> nat result" where
  "leaf_free_space page =
     rbind (leaf_num_cells page) (\<lambda>num.
     let slots_end = LEAF_HEADER_SIZE + unat num * SLOT_SIZE in
     rbind (leaf_data_start page) (\<lambda>ds.
     let data_start = unat ds in
     Inr (if slots_end < data_start then data_start - slots_end else 0)))"

definition init_leaf :: "page \<Rightarrow> page result" where
  "init_leaf page =
     rbind (put_byte page 0 NODE_TYPE_LEAF) (\<lambda>p.
     rbind (leaf_set_num_cells p 0) (\<lambda>p.
     rbind (leaf_set_next_leaf p 0) (\<lambda>p.
     leaf_set_data_start p (of_nat PAGE_SIZE))))"

section \<open>Internal node helpers\<close>

definition internal_num_keys :: "page \<Rightarrow> u32 result" where
  "internal_num_keys page = read_u32 page INTERNAL_NUM_KEYS_OFFSET"

definition internal_set_num_keys :: "page \<Rightarrow> u32 \<Rightarrow> page result" where
  "internal_set_num_keys page n = write_u32 page INTERNAL_NUM_KEYS_OFFSET n"

definition internal_right_child :: "page \<Rightarrow> u32 result" where
  "internal_right_child page = read_u32 page RIGHT_CHILD_OFFSET"

definition internal_set_right_child :: "page \<Rightarrow> u32 \<Rightarrow> page result" where
  "internal_set_right_child page v = write_u32 page RIGHT_CHILD_OFFSET v"

definition internal_entry_offset :: "nat \<Rightarrow> nat" where
  "internal_entry_offset idx = INTERNAL_HEADER_SIZE + idx * INTERNAL_ENTRY_SIZE"

definition internal_child :: "page \<Rightarrow> nat \<Rightarrow> u32 result" where
  "internal_child page idx = read_u32 page (internal_entry_offset idx)"

definition internal_key :: "page \<Rightarrow> nat \<Rightarrow> i64 result" where
  "internal_key page idx = read_i64 page (internal_entry_offset idx + 4)"

definition internal_set_entry :: "page \<Rightarrow> nat \<Rightarrow> u32 \<Rightarrow> i64 \<Rightarrow> page result" where
  "internal_set_entry page idx child key =
     (let off = internal_entry_offset idx in
      rbind (write_u32 page off child) (\<lambda>p. write_i64 p (off + 4) key))"

definition internal_max_keys :: nat where
  "internal_max_keys = (PAGE_SIZE - INTERNAL_HEADER_SIZE) div INTERNAL_ENTRY_SIZE"

definition init_internal :: "page \<Rightarrow> page result" where
  "init_internal page =
     rbind (put_byte page 0 NODE_TYPE_INTERNAL) (\<lambda>p.
     rbind (internal_set_num_keys p 0) (\<lambda>p.
     internal_set_right_child p 0))"

definition max_row_data_size :: nat where
  "max_row_data_size = (PAGE_SIZE - LEAF_HEADER_SIZE) div 2 - SLOT_SIZE - KEY_SIZE"

lemma layout_values:
  "internal_max_keys = 340" "max_row_data_size = 2030" "MAX_CELL_DATA = 4081"
  by (simp_all add: internal_max_keys_def max_row_data_size_def layout)

section \<open>Leaf operations on a page\<close>

type_synonym cell = "i64 \<times> byte list"

text \<open>The shift loop of \<open>insert_into_leaf\<close>: slots \<open>[pos..i)\<close> move up by one, from the top.\<close>

function shift_slots :: "page \<Rightarrow> nat \<Rightarrow> nat \<Rightarrow> page result" where
  "shift_slots page pos i =
     (if pos < i
      then rbind (read_slot page (i - 1)) (\<lambda>(off, len).
           rbind (write_slot page (i - 1 + 1) off len) (\<lambda>p. shift_slots p pos (i - 1)))
      else Inr page)"
  by pat_completeness auto
termination
  by (relation "measure (\<lambda>(page, pos, i). i - pos)") auto

declare shift_slots.simps [simp del]

text \<open>\<open>insert_into_leaf\<close> on its page.\<close>

definition insert_into_leaf_page :: "i64 \<Rightarrow> byte list \<Rightarrow> page \<Rightarrow> page result" where
  "insert_into_leaf_page key row_data page =
     (let cell_size = KEY_SIZE + length row_data in
      rbind (leaf_num_cells page) (\<lambda>n. let num = unat n in
      rbind (scan_from (leaf_cell_key page) (\<lambda>k. sint k < sint key) num 0) (\<lambda>pos.
      rbind (shift_slots page pos num) (\<lambda>page.
      rbind (leaf_data_start page) (\<lambda>ds.
      rbind (checked_sub (unat ds) cell_size) (\<lambda>new_data_start.
      rbind (leaf_set_data_start page (of_nat new_data_start)) (\<lambda>page.
      rbind (write_i64 page new_data_start key) (\<lambda>page.
      rbind (put_slice page (new_data_start + KEY_SIZE) row_data) (\<lambda>page.
      rbind (write_slot page pos (of_nat new_data_start) (of_nat cell_size)) (\<lambda>page.
      leaf_set_num_cells page (of_nat (num + 1))))))))))))"

text \<open>The loop of \<open>collect_leaf_cells\<close> from cell \<open>i\<close>, \<open>n\<close> cells left.\<close>

primrec collect_from :: "page \<Rightarrow> nat \<Rightarrow> nat \<Rightarrow> cell list result" where
  "collect_from page i 0 = Inr []"
| "collect_from page i (Suc n) =
     rbind (leaf_cell_key page i) (\<lambda>key.
     rbind (leaf_cell_row page i) (\<lambda>row.
     rbind (collect_from page (Suc i) n) (\<lambda>cells. Inr ((key, row) # cells))))"

definition collect_leaf_cells :: "page \<Rightarrow> cell list result" where
  "collect_leaf_cells page = rbind (leaf_num_cells page) (\<lambda>n. collect_from page 0 (unat n))"

text \<open>The loop of \<open>write_leaf_cells\<close>; it also returns the final \<open>data_start\<close>.\<close>

fun write_cells_from :: "page \<Rightarrow> nat \<Rightarrow> nat \<Rightarrow> cell list \<Rightarrow> (page \<times> nat) result" where
  "write_cells_from page i data_start [] = Inr (page, data_start)"
| "write_cells_from page i data_start ((key, row) # cells) =
     (let cell_size = KEY_SIZE + length row in
      rbind (checked_sub data_start cell_size) (\<lambda>ds.
      rbind (write_i64 page ds key) (\<lambda>page.
      rbind (put_slice page (ds + KEY_SIZE) row) (\<lambda>page.
      rbind (write_slot page i (of_nat ds) (of_nat cell_size)) (\<lambda>page.
      write_cells_from page (Suc i) ds cells)))))"

definition write_leaf_cells :: "cell list \<Rightarrow> page \<Rightarrow> page result" where
  "write_leaf_cells cells page =
     rbind (init_leaf page) (\<lambda>page.
     rbind (write_cells_from page 0 PAGE_SIZE cells) (\<lambda>(page, data_start).
     rbind (leaf_set_num_cells page (of_nat (length cells))) (\<lambda>page.
     leaf_set_data_start page (of_nat data_start))))"

section \<open>Accessors on pages of the right size\<close>

lemma read_u16_slice: "off + 2 \<le> length p \<Longrightarrow> read_u16 p off = Inr (u16_of_le (slice p off 2))"
  by (simp add: read_u16_def)

lemma read_u32_slice: "off + 4 \<le> length p \<Longrightarrow> read_u32 p off = Inr (u32_of_le (slice p off 4))"
  by (simp add: read_u32_def)

lemma read_i64_slice: "off + 8 \<le> length p \<Longrightarrow> read_i64 p off = Inr (i64_of_le (slice p off 8))"
  by (simp add: read_i64_def)

lemma write_u16_patch: "off + 2 \<le> length p \<Longrightarrow> write_u16 p off v = Inr (patch p off (u16_le v))"
  by (simp add: write_u16_def)

lemma write_u32_patch: "off + 4 \<le> length p \<Longrightarrow> write_u32 p off v = Inr (patch p off (u32_le v))"
  by (simp add: write_u32_def)

lemma write_i64_patch: "off + 8 \<le> length p \<Longrightarrow> write_i64 p off v = Inr (patch p off (i64_le v))"
  by (simp add: write_i64_def)

lemma write_slot_patch:
  "slot_offset i + 4 \<le> length p \<Longrightarrow>
   write_slot p i o' l = Inr (patch p (slot_offset i) (u16_le o' @ u16_le l))"
  using patch_patch [of "slot_offset i" "u16_le o'" "u16_le l" p]
  by (simp add: write_slot_def Let_def write_u16_patch)

text \<open>Slot \<open>i\<close> holds the pair \<open>(o, l)\<close>.\<close>

definition slot_is :: "page \<Rightarrow> nat \<Rightarrow> u16 \<times> u16 \<Rightarrow> bool" where
  "slot_is p i s \<longleftrightarrow> slice p (slot_offset i) 4 = u16_le (fst s) @ u16_le (snd s)"

lemma read_slot_is:
  assumes "slot_is p i s" "slot_offset i + 4 \<le> length p"
  shows "read_slot p i = Inr s"
proof -
  have "slice p (slot_offset i) 2 = slice (slice p (slot_offset i) 4) 0 2"
    "slice p (slot_offset i + 2) 2 = slice (slice p (slot_offset i) 4) 2 2"
    using assms(2) by (simp_all add: slice_slice)
  then have "slice p (slot_offset i) 2 = u16_le (fst s)" "slice p (slot_offset i + 2) 2 = u16_le (snd s)"
    using assms(1) by (simp_all add: slot_is_def slice_0_append slice_append_right slice_full)
  then show ?thesis
    using assms(2) by (simp add: read_slot_def Let_def read_u16_slice)
qed

text \<open>Two buffers that agree outside the range \<open>[a, b)\<close>.\<close>

definition agree_outside :: "nat \<Rightarrow> nat \<Rightarrow> page \<Rightarrow> page \<Rightarrow> bool" where
  "agree_outside a b p p' \<longleftrightarrow> length p' = length p \<and> (\<forall>i < length p. i < a \<or> b \<le> i \<longrightarrow> p' ! i = p ! i)"

lemma agree_refl [simp]: "agree_outside a b p p"
  by (simp add: agree_outside_def)

lemma agree_patch:
  "off + length bs \<le> length p \<Longrightarrow> a \<le> off \<Longrightarrow> off + length bs \<le> b \<Longrightarrow> agree_outside a b p (patch p off bs)"
  by (auto simp: agree_outside_def nth_patch)

lemma agree_trans: "agree_outside a b p q \<Longrightarrow> agree_outside a b q r \<Longrightarrow> agree_outside a b p r"
  by (auto simp: agree_outside_def)

lemma agree_mono: "agree_outside a b p q \<Longrightarrow> a' \<le> a \<Longrightarrow> b \<le> b' \<Longrightarrow> agree_outside a' b' p q"
  by (auto simp: agree_outside_def)

lemma agree_slice:
  assumes "agree_outside a b p q" "off + n \<le> length p" "off + n \<le> a \<or> b \<le> off"
  shows "slice q off n = slice p off n"
  using assms by (intro nth_equalityI) (auto simp: agree_outside_def nth_slice)

lemma agree_length: "agree_outside a b p q \<Longrightarrow> length q = length p"
  by (simp add: agree_outside_def)

lemma slot_offset_simps: "slot_offset i = 11 + 4 * i"
  by (simp add: slot_offset_def layout)

lemma shift_slots_done [simp]: "shift_slots p pos pos = Inr p"
  by (simp add: shift_slots.simps [of p pos pos])

lemma shift_slots_ok:
  assumes "\<And>j. j < i \<Longrightarrow> slot_is p j (S j)" "slot_offset i + 4 \<le> length p" "pos \<le> i"
  shows "\<exists>p'. shift_slots p pos i = Inr p' \<and> agree_outside (slot_offset (Suc pos)) (slot_offset (Suc i)) p p' \<and>
    (\<forall>j. pos < j \<and> j \<le> i \<longrightarrow> slot_is p' j (S (j - 1)))"
  using assms
proof (induction i arbitrary: p)
  case 0
  then show ?case by simp
next
  case (Suc i)
  show ?case
  proof (cases "pos = Suc i")
    case True
    then show ?thesis by auto
  next
    case False
    let ?q = "patch p (slot_offset (Suc i)) (u16_le (fst (S i)) @ u16_le (snd (S i)))"
    have rd: "read_slot p i = Inr (S i)"
      using Suc.prems by (intro read_slot_is) (auto simp: slot_offset_simps)
    have wr: "write_slot p (Suc i) (fst (S i)) (snd (S i)) = Inr ?q"
      using Suc.prems by (intro write_slot_patch) simp
    have ag: "agree_outside (slot_offset (Suc i)) (slot_offset (Suc (Suc i))) p ?q"
      using Suc.prems by (intro agree_patch) (auto simp: slot_offset_simps)
    have "\<exists>p'. shift_slots ?q pos i = Inr p' \<and> agree_outside (slot_offset (Suc pos)) (slot_offset (Suc i)) ?q p' \<and>
        (\<forall>j. pos < j \<and> j \<le> i \<longrightarrow> slot_is p' j (S (j - 1)))"
    proof (rule Suc.IH)
      show "slot_is ?q j (S j)" if "j < i" for j
        using Suc.prems(1) [of j] Suc.prems(2) that agree_slice [OF ag, of "slot_offset j" 4]
        by (simp add: slot_is_def slot_offset_simps)
    qed (use Suc.prems False in \<open>auto simp: slot_offset_simps\<close>)
    then obtain p' where p': "shift_slots ?q pos i = Inr p'"
      "agree_outside (slot_offset (Suc pos)) (slot_offset (Suc i)) ?q p'"
      "\<And>j. pos < j \<Longrightarrow> j \<le> i \<Longrightarrow> slot_is p' j (S (j - 1))"
      by blast
    have "slot_is p' (Suc i) (S i)"
      using agree_slice [OF p'(2), of "slot_offset (Suc i)" 4] Suc.prems(2)
      by (simp add: slot_is_def slice_patch_same)
    moreover have "agree_outside (slot_offset (Suc pos)) (slot_offset (Suc (Suc i))) p p'"
      by (rule agree_trans [OF agree_mono [OF ag] agree_mono [OF p'(2)]])
        (use Suc.prems(3) False in \<open>auto simp: slot_offset_simps\<close>)
    moreover have "shift_slots p pos (Suc i) = Inr p'"
      using rd wr p'(1) Suc.prems(3) False
      by (simp add: shift_slots.simps [of p pos "Suc i"] case_prod_beta)
    ultimately show ?thesis using p'(3) by (auto simp: le_Suc_eq)
  qed
qed

end
