(* ===== verification/Btree_Internal.thy ===== *)
theory Btree_Internal
  imports Btree_Page
begin

text \<open>
  Internal nodes of \<open>src/btree.rs\<close>. \<open>internal_rep p es r\<close>: page \<open>p\<close> is an internal
  node with the entries \<open>es\<close> (child, key) and the right child \<open>r\<close>. Inserting a separator and
  splitting a full node act on \<open>es\<close> and \<open>r\<close> as the vector operations of
  \<open>split_internal\<close> do: \<open>combined_entries\<close>.
\<close>

section \<open>Operations on the page\<close>

text \<open>The shift loop of \<open>insert_into_internal\<close>: entries \<open>[pos..i)\<close> move up by one.\<close>

function shift_entries :: "page \<Rightarrow> nat \<Rightarrow> nat \<Rightarrow> page result" where
  "shift_entries page pos i =
     (if pos < i
      then rbind (internal_key page (i - 1)) (\<lambda>k.
           rbind (internal_child page (i - 1)) (\<lambda>c.
           rbind (internal_set_entry page (i - 1 + 1) c k) (\<lambda>p. shift_entries p pos (i - 1))))
      else Inr page)"
  by pat_completeness auto
termination
  by (relation "measure (\<lambda>(page, pos, i). i - pos)") auto

declare shift_entries.simps [simp del]

definition insert_into_internal_page :: "i64 \<Rightarrow> u32 \<Rightarrow> page \<Rightarrow> page result" where
  "insert_into_internal_page key right_child page =
     rbind (internal_num_keys page) (\<lambda>n. let nk = unat n in
     rbind (scan_from (internal_key page) (\<lambda>k. sint k < sint key) nk 0) (\<lambda>pos.
     rbind (shift_entries page pos nk) (\<lambda>page.
     rbind (if pos < nk then internal_child page (pos + 1) else internal_right_child page) (\<lambda>old_child_at_pos.
     rbind (internal_set_entry page pos old_child_at_pos key) (\<lambda>page.
     rbind (if pos + 1 \<le> nk then write_u32 page (internal_entry_offset (pos + 1)) right_child
            else Inr page) (\<lambda>page.
     rbind (if pos = nk then internal_set_right_child page right_child else Inr page) (\<lambda>page.
     internal_set_num_keys page (of_nat (nk + 1)))))))))"

type_synonym entry = "u32 \<times> i64"

text \<open>The loop of \<open>split_internal\<close> that reads the entries.\<close>

primrec read_entries :: "page \<Rightarrow> nat \<Rightarrow> nat \<Rightarrow> entry list result" where
  "read_entries page i 0 = Inr []"
| "read_entries page i (Suc n) =
     rbind (internal_child page i) (\<lambda>c.
     rbind (internal_key page i) (\<lambda>k.
     rbind (read_entries page (Suc i) n) (\<lambda>es. Inr ((c, k) # es))))"

text \<open>
  The new entry placed among the old ones, in \<open>split_internal\<close>: the separator \<open>key\<close> takes
  over the child at its position and \<open>right_child\<close> comes after it. The result is the
  combined entries and the combined right child.
\<close>

definition combined_entries :: "i64 \<Rightarrow> u32 \<Rightarrow> entry list \<Rightarrow> u32 \<Rightarrow> entry list \<times> u32" where
  "combined_entries key right_child entries old_right =
     (let ins = prefix_len (\<lambda>e. sint (snd e) < sint key) entries;
          new_entry_child = (if ins < length entries then fst (entries ! ins) else old_right);
          es = insert_at ins (new_entry_child, key) entries;
          es' = (if ins + 1 < length es then es[ins + 1 := (right_child, snd (es ! (ins + 1)))] else es);
          combined_right = (if ins + 1 = length es' then right_child else old_right) in
      (es', combined_right))"

text \<open>The loop that writes the entries of a half, and the whole of a half.\<close>

primrec write_entries_from :: "page \<Rightarrow> nat \<Rightarrow> entry list \<Rightarrow> page result" where
  "write_entries_from page i [] = Inr page"
| "write_entries_from page i (e # es) =
     rbind (internal_set_entry page i (fst e) (snd e)) (\<lambda>page. write_entries_from page (Suc i) es)"

definition write_internal :: "entry list \<Rightarrow> u32 \<Rightarrow> page \<Rightarrow> page result" where
  "write_internal es right_child page =
     rbind (init_internal page) (\<lambda>page.
     rbind (internal_set_num_keys page (of_nat (length es))) (\<lambda>page.
     rbind (write_entries_from page 0 es) (\<lambda>page.
     internal_set_right_child page right_child)))"

section \<open>The representation\<close>

definition entry_is :: "page \<Rightarrow> nat \<Rightarrow> entry \<Rightarrow> bool" where
  "entry_is p i e \<longleftrightarrow> slice p (9 + 12 * i) 4 = u32_le (fst e) \<and> slice p (13 + 12 * i) 8 = i64_le (snd e)"

definition internal_rep :: "page \<Rightarrow> entry list \<Rightarrow> u32 \<Rightarrow> bool" where
  "internal_rep p es r \<longleftrightarrow>
     length p = PAGE_SIZE \<and> slice p 0 1 = [NODE_TYPE_INTERNAL] \<and>
     slice p 1 4 = u32_le (of_nat (length es)) \<and> slice p 5 4 = u32_le r \<and>
     length es \<le> internal_max_keys \<and> (\<forall>i < length es. entry_is p i (es ! i))"

lemma entry_offset_simps: "internal_entry_offset i = 9 + 12 * i"
  by (simp add: internal_entry_offset_def layout)

lemma internal_rep_length: "internal_rep p es r \<Longrightarrow> length p = PAGE_SIZE"
  by (simp add: internal_rep_def)

lemma internal_rep_size: "internal_rep p es r \<Longrightarrow> length es \<le> 340"
  by (simp add: internal_rep_def layout_values)

lemma internal_rep_type:
  assumes "internal_rep p es r"
  shows "get_byte p 0 = Inr NODE_TYPE_INTERNAL"
proof -
  have "length p = 4096" "slice p 0 1 = [NODE_TYPE_INTERNAL]"
    using assms by (simp_all add: internal_rep_def PAGE_SIZE_def)
  then show ?thesis by (cases p) (simp_all add: slice_def get_byte_def)
qed

lemma internal_rep_num:
  assumes "internal_rep p es r"
  shows "internal_num_keys p = Inr (of_nat (length es))" "unat (of_nat (length es) :: u32) = length es"
  using assms internal_rep_size [OF assms]
  by (simp_all add: internal_rep_def internal_num_keys_def layout read_u32_slice unat_of_nat_u32)

lemma internal_rep_right: "internal_rep p es r \<Longrightarrow> internal_right_child p = Inr r"
  by (simp add: internal_rep_def internal_right_child_def layout read_u32_slice)

lemma entry_is_read:
  assumes "entry_is p i e" "21 + 12 * i \<le> length p"
  shows "internal_child p i = Inr (fst e)" "internal_key p i = Inr (snd e)"
  using assms
  by (simp_all add: entry_is_def internal_child_def internal_key_def entry_offset_simps read_u32_slice
      read_i64_slice add.commute add.left_commute)

lemma internal_rep_entry:
  assumes "internal_rep p es r" "i < length es"
  shows "internal_child p i = Inr (fst (es ! i))" "internal_key p i = Inr (snd (es ! i))"
  using entry_is_read [of p i "es ! i"] internal_rep_size [OF assms(1)] assms
  by (auto simp: internal_rep_def PAGE_SIZE_def)

lemma entry_is_agree:
  assumes "entry_is p i e" "agree_outside a b p q" "21 + 12 * i \<le> length p"
    and "21 + 12 * i \<le> a \<or> b \<le> 9 + 12 * i"
  shows "entry_is q i e"
  using assms agree_slice [OF assms(2), of "9 + 12 * i" 4] agree_slice [OF assms(2), of "13 + 12 * i" 8]
  by (auto simp: entry_is_def)

lemma set_entry_ok:
  assumes "21 + 12 * i \<le> length p"
  shows "\<exists>q. internal_set_entry p i c k = Inr q \<and> entry_is q i (c, k) \<and>
    agree_outside (9 + 12 * i) (21 + 12 * i) p q"
proof -
  let ?q = "patch (patch p (9 + 12 * i) (u32_le c)) (13 + 12 * i) (i64_le k)"
  have "internal_set_entry p i c k = Inr ?q"
    using assms by (simp add: internal_set_entry_def entry_offset_simps Let_def write_u32_patch
        write_i64_patch add.commute add.left_commute)
  moreover have "entry_is ?q i (c, k)"
    using assms by (simp add: entry_is_def slice_patch_other slice_patch_same)
  moreover have "agree_outside (9 + 12 * i) (21 + 12 * i) p ?q"
    using assms by (intro agree_trans [OF agree_patch agree_patch]) auto
  ultimately show ?thesis by blast
qed

text \<open>Writes to the header leave the entries in place.\<close>

lemma entry_is_header: "entry_is p i e \<Longrightarrow> agree_outside 0 9 p q \<Longrightarrow> 21 + 12 * i \<le> length p \<Longrightarrow> entry_is q i e"
  by (rule entry_is_agree) auto

section \<open>Reading the entries\<close>

lemma read_entries_ok:
  assumes "internal_rep p es r"
  shows "read_entries p 0 (length es) = Inr es"
proof -
  have "read_entries p i n = Inr (take n (drop i es))" if "i + n = length es" for i n
    using that
  proof (induction n arbitrary: i)
    case (Suc n)
    then have "i < length es" by simp
    with Suc internal_rep_entry [OF assms this] show ?case
      by (simp add: Cons_nth_drop_Suc [symmetric])
  qed simp
  from this [of 0 "length es"] show ?thesis by simp
qed

lemma internal_scan_ok:
  assumes "internal_rep p es r"
  shows "scan_from (internal_key p) P (length es) 0 = Inr (prefix_len (\<lambda>e. P (snd e)) es)"
proof -
  have "prefix_len P (map snd es) = prefix_len (\<lambda>e. P (snd e)) es"
    by (induction es) auto
  with scan_from_prefix_len [of "map snd es" "internal_key p" P] internal_rep_entry [OF assms]
  show ?thesis by simp
qed

section \<open>Inserting a separator\<close>

lemma shift_entries_done [simp]: "shift_entries p pos pos = Inr p"
  by (simp add: shift_entries.simps [of p pos pos])

lemma shift_entries_ok:
  assumes "\<And>j. j < i \<Longrightarrow> entry_is p j (E j)" "21 + 12 * i \<le> length p" "pos \<le> i"
  shows "\<exists>p'. shift_entries p pos i = Inr p' \<and> agree_outside (21 + 12 * pos) (21 + 12 * i) p p' \<and>
    (\<forall>j. pos < j \<and> j \<le> i \<longrightarrow> entry_is p' j (E (j - 1)))"
  using assms
proof (induction i arbitrary: p)
  case 0
  then show ?case by simp
next
  case (Suc i)
  show ?case
  proof (cases "pos = Suc i")
    case True
    then show ?thesis by auto
  next
    case False
    obtain c k where E: "E i = (c, k)" by force
    have rd: "internal_key p i = Inr k" "internal_child p i = Inr c"
      using entry_is_read [OF Suc.prems(1) [of i]] Suc.prems(2) E by auto
    obtain q where q: "internal_set_entry p (Suc i) c k = Inr q" "entry_is q (Suc i) (c, k)"
        "agree_outside (9 + 12 * Suc i) (21 + 12 * Suc i) p q"
      using set_entry_ok [of "Suc i" p c k] Suc.prems(2) by blast
    have len: "length q = length p" using q(3) by (rule agree_length)
    have "\<exists>p'. shift_entries q pos i = Inr p' \<and> agree_outside (21 + 12 * pos) (21 + 12 * i) q p' \<and>
        (\<forall>j. pos < j \<and> j \<le> i \<longrightarrow> entry_is p' j (E (j - 1)))"
    proof (rule Suc.IH)
      show "entry_is q j (E j)" if "j < i" for j
        by (rule entry_is_agree [OF Suc.prems(1) q(3)]) (use that Suc.prems(2) in auto)
    qed (use Suc.prems False len in auto)
    then obtain p' where p': "shift_entries q pos i = Inr p'"
      "agree_outside (21 + 12 * pos) (21 + 12 * i) q p'"
      "\<And>j. pos < j \<Longrightarrow> j \<le> i \<Longrightarrow> entry_is p' j (E (j - 1))"
      by blast
    have "entry_is p' (Suc i) (E i)"
      using entry_is_agree [OF q(2) p'(2)] len Suc.prems(2) E by simp
    moreover have "agree_outside (21 + 12 * pos) (21 + 12 * Suc i) p p'"
      by (rule agree_trans [OF agree_mono [OF q(3)] agree_mono [OF p'(2)]])
        (use Suc.prems(3) False in auto)
    moreover have "shift_entries p pos (Suc i) = Inr p'"
      using rd q(1) p'(1) Suc.prems(3) False by (simp add: shift_entries.simps [of p pos "Suc i"])
    ultimately show ?thesis using p'(3) by (auto simp: le_Suc_eq)
  qed
qed

text \<open>Overwriting the child of an entry.\<close>

lemma set_child_ok:
  assumes "entry_is p i e" "21 + 12 * i \<le> length p"
  shows "\<exists>q. write_u32 p (internal_entry_offset i) c = Inr q \<and> entry_is q i (c, snd e) \<and>
    agree_outside (9 + 12 * i) (21 + 12 * i) p q"
proof -
  let ?q = "patch p (9 + 12 * i) (u32_le c)"
  have "write_u32 p (internal_entry_offset i) c = Inr ?q"
    using assms by (simp add: entry_offset_simps write_u32_patch)
  moreover have "entry_is ?q i (c, snd e)"
    using assms by (simp add: entry_is_def slice_patch_other slice_patch_same)
  moreover have "agree_outside (9 + 12 * i) (21 + 12 * i) p ?q"
    using assms by (intro agree_patch) auto
  ultimately show ?thesis by blast
qed

text \<open>The entries of \<open>combined_entries\<close>, one by one.\<close>

lemma combined_length: "combined_entries key rc es r = (es', r') \<Longrightarrow> length es' = Suc (length es)"
  by (auto simp: combined_entries_def Let_def)

lemma combined_nth:
  assumes "combined_entries key rc es r = (es', r')" "j \<le> length es"
  defines "pos \<equiv> prefix_len (\<lambda>e. sint (snd e) < sint key) es"
  shows "es' ! j = (if j < pos then es ! j
    else if j = pos then (if pos < length es then fst (es ! pos) else r, key)
    else if j = Suc pos then (rc, snd (es ! pos)) else es ! (j - 1))"
    "r' = (if pos = length es then rc else r)"
proof -
  have pos: "pos \<le> length es" unfolding pos_def by (rule prefix_len_le)
  have es': "es' = (if pos < length es
      then (insert_at pos (if pos < length es then fst (es ! pos) else r, key) es)[Suc pos := (rc, snd (es ! pos))]
      else insert_at pos (if pos < length es then fst (es ! pos) else r, key) es)"
    using assms(1) pos by (auto simp: combined_entries_def Let_def pos_def [symmetric] nth_insert_at)
  show "es' ! j = (if j < pos then es ! j
    else if j = pos then (if pos < length es then fst (es ! pos) else r, key)
    else if j = Suc pos then (rc, snd (es ! pos)) else es ! (j - 1))"
    using assms(2) pos by (auto simp: es' nth_list_update nth_insert_at)
  show "r' = (if pos = length es then rc else r)"
    using assms(1) pos by (auto simp: combined_entries_def Let_def pos_def [symmetric])
qed

lemma internal_set_num_keys_ok:
  assumes "length p = PAGE_SIZE" "slice p 0 1 = [NODE_TYPE_INTERNAL]" "slice p 5 4 = u32_le r"
    and "length es \<le> 340" "\<And>i. i < length es \<Longrightarrow> entry_is p i (es ! i)"
  shows "\<exists>p'. internal_set_num_keys p (of_nat (length es)) = Inr p' \<and> internal_rep p' es r"
proof -
  let ?q = "patch p 1 (u32_le (of_nat (length es)))"
  have len: "length p = 4096" using assms(1) by (simp add: PAGE_SIZE_def)
  have "entry_is ?q i (es ! i)" if "i < length es" for i
    by (rule entry_is_header [OF assms(5) [OF that] agree_patch]) (use len that assms(4) in auto)
  then have "internal_rep ?q es r"
    using assms len by (simp add: internal_rep_def slice_patch_other slice_patch_same layout_values)
  moreover have "internal_set_num_keys p (of_nat (length es)) = Inr ?q"
    using len by (simp add: internal_set_num_keys_def write_u32_patch INTERNAL_NUM_KEYS_OFFSET_def)
  ultimately show ?thesis by blast
qed

lemma internal_set_right_ok:
  assumes "length p = PAGE_SIZE"
  shows "\<exists>q. internal_set_right_child p r = Inr q \<and> agree_outside 5 9 p q \<and> slice q 5 4 = u32_le r"
  using assms
  by (intro exI [of _ "patch p 5 (u32_le r)"])
    (simp add: internal_set_right_child_def write_u32_patch RIGHT_CHILD_OFFSET_def PAGE_SIZE_def
      agree_patch slice_patch_same)

text \<open>The two stores that follow the shift, before the key count is updated.\<close>

lemma place_entry_ok:
  assumes len: "length p = PAGE_SIZE" and nk: "nk < 340" and pos: "pos \<le> nk"
    and above: "pos < nk \<Longrightarrow> entry_is p (Suc pos) (c0, k0)"
  shows "\<exists>p1 p2 p3. internal_set_entry p pos oc key = Inr p1 \<and>
    (if pos + 1 \<le> nk then write_u32 p1 (internal_entry_offset (pos + 1)) rc else Inr p1) = Inr p2 \<and>
    (if pos = nk then internal_set_right_child p2 rc else Inr p2) = Inr p3 \<and>
    length p3 = PAGE_SIZE \<and> entry_is p3 pos (oc, key) \<and>
    (pos < nk \<longrightarrow> entry_is p3 (Suc pos) (rc, k0)) \<and>
    slice p3 0 1 = slice p 0 1 \<and> slice p3 5 4 = (if pos = nk then u32_le rc else slice p 5 4) \<and>
    (\<forall>j e. j < 340 \<and> (j < pos \<or> Suc pos < j) \<and> entry_is p j e \<longrightarrow> entry_is p3 j e)"
proof -
  have len: "length p = 4096" using len by (simp add: PAGE_SIZE_def)
  obtain p1 where p1: "internal_set_entry p pos oc key = Inr p1" "entry_is p1 pos (oc, key)"
      "agree_outside (9 + 12 * pos) (21 + 12 * pos) p p1"
    using set_entry_ok [of pos p oc key] len pos nk by auto
  have len1: "length p1 = 4096" using p1(3) len by (simp add: agree_length)
  have head: "slice p1 0 1 = slice p 0 1" "slice p1 5 4 = slice p 5 4"
    using agree_slice [OF p1(3), of 0 1] agree_slice [OF p1(3), of 5 4] len by simp_all
  have keep: "entry_is p1 j e" if "entry_is p j e" "j < 340" "j \<noteq> pos" for j e
    by (rule entry_is_agree [OF that(1) p1(3)]) (use that len in auto)
  show ?thesis
  proof (cases "pos = nk")
    case True
    obtain p3 where p3: "internal_set_right_child p1 rc = Inr p3" "agree_outside 5 9 p1 p3" "slice p3 5 4 = u32_le rc"
      using internal_set_right_ok [of p1 rc] len1 by (auto simp: PAGE_SIZE_def)
    have "entry_is p3 j e" if "entry_is p1 j e" "j < 340" for j e
      by (rule entry_is_agree [OF that(1) p3(2)]) (use that len1 in auto)
    moreover have "slice p3 0 1 = slice p 0 1"
      using agree_slice [OF p3(2), of 0 1] head len1 by simp
    ultimately show ?thesis
      using True p1 p3 keep len1 agree_length [OF p3(2)] nk pos
      by (intro exI [of _ p1] exI [of _ p3]) (auto simp: PAGE_SIZE_def)
  next
    case False
    then have lt: "pos < nk" using pos by simp
    obtain p2 where p2: "write_u32 p1 (internal_entry_offset (Suc pos)) rc = Inr p2"
        "entry_is p2 (Suc pos) (rc, k0)" "agree_outside (9 + 12 * Suc pos) (21 + 12 * Suc pos) p1 p2"
      using set_child_ok [OF keep [OF above [OF lt]], of rc] len1 lt nk by auto
    have len2: "length p2 = 4096" using p2(3) len1 by (simp add: agree_length)
    have keep2: "entry_is p2 j e" if "entry_is p1 j e" "j < 340" "j \<noteq> Suc pos" for j e
      by (rule entry_is_agree [OF that(1) p2(3)]) (use that len1 in auto)
    have head2: "slice p2 0 1 = slice p 0 1" "slice p2 5 4 = slice p 5 4"
      using agree_slice [OF p2(3), of 0 1] agree_slice [OF p2(3), of 5 4] head len1 by simp_all
    show ?thesis
      using lt p1 p2 keep keep2 len2 head2 nk
      by (intro exI [of _ p1] exI [of _ p2]) (auto simp: PAGE_SIZE_def)
  qed
qed

lemma insert_into_internal_page_ok:
  assumes rep: "internal_rep p es r" and room: "length es < internal_max_keys"
    and comb: "combined_entries key rc es r = (es', r')"
  shows "\<exists>p'. insert_into_internal_page key rc p = Inr p' \<and> internal_rep p' es' r'"
proof -
  define pos where "pos = prefix_len (\<lambda>e. sint (snd e) < sint key) es"
  let ?nk = "length es"
  have pos: "pos \<le> ?nk" and nk: "?nk < 340"
    using room by (simp_all add: pos_def prefix_len_le layout_values)
  have len: "length p = 4096" using rep by (simp add: internal_rep_def PAGE_SIZE_def)
  obtain p1 where p1: "shift_entries p pos ?nk = Inr p1" "agree_outside (21 + 12 * pos) (21 + 12 * ?nk) p p1"
      "\<And>j. pos < j \<Longrightarrow> j \<le> ?nk \<Longrightarrow> entry_is p1 j (es ! (j - 1))"
    using shift_entries_ok [of ?nk p "\<lambda>j. es ! j" pos] rep pos nk len by (auto simp: internal_rep_def)
  have len1: "length p1 = PAGE_SIZE" using p1(2) len by (simp add: agree_length PAGE_SIZE_def)
  have head: "slice p1 0 1 = [NODE_TYPE_INTERNAL]" "slice p1 5 4 = u32_le r"
    using agree_slice [OF p1(2), of 0 1] agree_slice [OF p1(2), of 5 4] len rep
    by (simp_all add: internal_rep_def)
  have low: "entry_is p1 j (es ! j)" if "j < pos" for j
    by (rule entry_is_agree [OF _ p1(2)]) (use that pos nk len rep in \<open>auto simp: internal_rep_def\<close>)
  define oc where "oc = (if pos < ?nk then fst (es ! pos) else r)"
  have old: "(if pos < ?nk then internal_child p1 (pos + 1) else internal_right_child p1) = Inr oc"
    using entry_is_read(1) [OF p1(3) [of "Suc pos"]] nk len1 head
    by (auto simp: oc_def PAGE_SIZE_def internal_right_child_def RIGHT_CHILD_OFFSET_def read_u32_slice)
  obtain q1 q2 q3 where q: "internal_set_entry p1 pos oc key = Inr q1"
      "(if pos + 1 \<le> ?nk then write_u32 q1 (internal_entry_offset (pos + 1)) rc else Inr q1) = Inr q2"
      "(if pos = ?nk then internal_set_right_child q2 rc else Inr q2) = Inr q3"
      "length q3 = PAGE_SIZE" "entry_is q3 pos (oc, key)"
      "pos < ?nk \<Longrightarrow> entry_is q3 (Suc pos) (rc, snd (es ! pos))"
      "slice q3 0 1 = slice p1 0 1" "slice q3 5 4 = (if pos = ?nk then u32_le rc else slice p1 5 4)"
      "\<And>j e. j < 340 \<Longrightarrow> j < pos \<or> Suc pos < j \<Longrightarrow> entry_is p1 j e \<Longrightarrow> entry_is q3 j e"
    using place_entry_ok [OF len1 nk pos, of "fst (es ! pos)" "snd (es ! pos)" oc key rc] p1(3) [of "Suc pos"] by auto
  have es': "length es' = Suc ?nk" by (rule combined_length [OF comb])
  have "entry_is q3 j (es' ! j)" if "j < length es'" for j
    using that es' nk low p1(3) q(5,6,9) combined_nth(1) [OF comb, of j]
    by (auto simp: pos_def [symmetric] oc_def linorder_not_less le_Suc_eq)
  moreover have "slice q3 0 1 = [NODE_TYPE_INTERNAL]" "slice q3 5 4 = u32_le r'"
    using q(7,8) head combined_nth(2) [OF comb, of 0, folded pos_def] by (auto split: if_splits)
  ultimately obtain p' where p': "internal_set_num_keys q3 (of_nat (length es')) = Inr p'" "internal_rep p' es' r'"
    using internal_set_num_keys_ok [OF q(4)] nk es' by (metis Suc_leI)
  have "insert_into_internal_page key rc p = Inr p'"
    using internal_rep_num [OF rep] internal_scan_ok [OF rep, of "\<lambda>k. sint k < sint key"] p1(1) old q(1-3) p'(1) es'
    by (simp add: insert_into_internal_page_def Let_def pos_def [symmetric] del: of_nat_Suc)
  with p'(2) show ?thesis by blast
qed

section \<open>Writing a whole internal node\<close>

lemma write_entries_from_ok:
  assumes "21 + 12 * (i + length es) \<le> length p + 12"
  shows "\<exists>p'. write_entries_from p i es = Inr p' \<and> agree_outside (9 + 12 * i) (9 + 12 * (i + length es)) p p' \<and>
    (\<forall>j < length es. entry_is p' (i + j) (es ! j))"
  using assms
proof (induction es arbitrary: i p)
  case (Cons e es)
  obtain q where q: "internal_set_entry p i (fst e) (snd e) = Inr q" "entry_is q i e"
      "agree_outside (9 + 12 * i) (21 + 12 * i) p q"
    using set_entry_ok [of i p "fst e" "snd e"] Cons.prems by auto
  have len: "length q = length p" using q(3) by (rule agree_length)
  obtain p' where p': "write_entries_from q (Suc i) es = Inr p'"
      "agree_outside (9 + 12 * Suc i) (9 + 12 * (Suc i + length es)) q p'"
      "\<And>j. j < length es \<Longrightarrow> entry_is p' (Suc i + j) (es ! j)"
    using Cons.IH [of "Suc i" q] Cons.prems len by auto
  have "entry_is p' i e"
    by (rule entry_is_agree [OF q(2) p'(2)]) (use Cons.prems len in auto)
  then have "entry_is p' (i + j) ((e # es) ! j)" if "j < length (e # es)" for j
    using that p'(3) [of "j - 1"] by (cases j) auto
  moreover have "agree_outside (9 + 12 * i) (9 + 12 * (i + length (e # es))) p p'"
    by (rule agree_trans [OF agree_mono [OF q(3)] agree_mono [OF p'(2)]]) auto
  ultimately show ?case using q(1) p'(1) by auto
qed simp

lemma write_internal_ok:
  assumes "length p = PAGE_SIZE" "length es \<le> internal_max_keys"
  shows "\<exists>p'. write_internal es r p = Inr p' \<and> internal_rep p' es r"
proof -
  have len: "length p = 4096" and n: "length es \<le> 340"
    using assms by (simp_all add: PAGE_SIZE_def layout_values)
  define p0 where "p0 = patch (patch (patch p 0 [2]) 1 (u32_le 0)) 5 (u32_le 0)"
  define p1 where "p1 = patch p0 1 (u32_le (of_nat (length es)))"
  have upd: "p[0 := 2] = patch p 0 [2]"
    using len by (cases p) (auto simp: patch_def)
  have init: "init_internal p = Inr p0"
    using len upd by (simp add: init_internal_def p0_def layout internal_set_num_keys_def
        internal_set_right_child_def write_u32_patch)
  have len1: "length p1 = 4096" using len by (simp add: p1_def p0_def)
  have head: "slice p1 0 1 = [2]" "slice p1 1 4 = u32_le (of_nat (length es))"
    using len by (simp_all add: p1_def p0_def slice_patch_other slice_patch_same)
  have set: "internal_set_num_keys p0 (of_nat (length es)) = Inr p1"
    using len by (simp add: p0_def p1_def internal_set_num_keys_def write_u32_patch INTERNAL_NUM_KEYS_OFFSET_def)
  obtain p2 where p2: "write_entries_from p1 0 es = Inr p2" "agree_outside 9 (9 + 12 * length es) p1 p2"
      "\<And>j. j < length es \<Longrightarrow> entry_is p2 j (es ! j)"
    using write_entries_from_ok [of 0 es p1] n len1 by auto
  have len2: "length p2 = 4096" using p2(2) len1 by (simp add: agree_length)
  obtain p3 where p3: "internal_set_right_child p2 r = Inr p3" "agree_outside 5 9 p2 p3" "slice p3 5 4 = u32_le r"
    using internal_set_right_ok [of p2 r] len2 by (auto simp: PAGE_SIZE_def)
  have "entry_is p3 j (es ! j)" if "j < length es" for j
    by (rule entry_is_agree [OF p2(3) p3(2)]) (use that n len2 in auto)
  moreover have "slice p3 0 1 = [2]" "slice p3 1 4 = u32_le (of_nat (length es))"
    using agree_slice [OF p3(2), of 0 1] agree_slice [OF p3(2), of 1 4] agree_slice [OF p2(2), of 0 1]
      agree_slice [OF p2(2), of 1 4] head len1 len2 by simp_all
  ultimately have "internal_rep p3 es r"
    using p3(3) n len2 agree_length [OF p3(2)]
    by (simp add: internal_rep_def layout layout_values NODE_TYPE_INTERNAL_def)
  moreover have "write_internal es r p = Inr p3"
    using init set p2(1) p3(1) by (simp add: write_internal_def)
  ultimately show ?thesis by blast
qed

end
