(* ===== verification/Btree_Leaf.thy ===== *)
theory Btree_Leaf
  imports Btree_Page
begin

text \<open>
  Slotted leaf pages of \<open>src/btree.rs\<close>. \<open>leaf_rep p cells nx\<close>: page \<open>p\<close> is a leaf that
  holds \<open>cells\<close> in this order and points to leaf \<open>nx\<close>. Each accessor reads the
  abstract component, and inserting, collecting and rewriting cells act on \<open>cells\<close> as
  the corresponding list operation, with no panic, as long as the cells fit.
\<close>

section \<open>Sizes\<close>

definition cells_bytes :: "cell list \<Rightarrow> nat" where
  "cells_bytes cells = sum_list (map (\<lambda>c. KEY_SIZE + length (snd c)) cells)"

definition cell_cost :: "cell \<Rightarrow> nat" where
  "cell_cost c = SLOT_SIZE + KEY_SIZE + length (snd c)"

definition cells_cost :: "cell list \<Rightarrow> nat" where
  "cells_cost cells = sum_list (map cell_cost cells)"

definition leaf_capacity :: nat where
  "leaf_capacity = PAGE_SIZE - LEAF_HEADER_SIZE"

lemma cells_cost_simps [simp]:
  "cells_cost [] = 0"
  "cells_cost (c # cs) = cell_cost c + cells_cost cs"
  "cells_cost (xs @ ys) = cells_cost xs + cells_cost ys"
  by (simp_all add: cells_cost_def)

lemma cells_bytes_simps [simp]:
  "cells_bytes [] = 0"
  "cells_bytes (c # cs) = 8 + length (snd c) + cells_bytes cs"
  "cells_bytes (xs @ ys) = cells_bytes xs + cells_bytes ys"
  by (simp_all add: cells_bytes_def KEY_SIZE_def)

lemma cell_cost_eq: "cell_cost c = 12 + length (snd c)"
  by (simp add: cell_cost_def layout)

lemma cells_cost_bytes: "cells_cost cs = cells_bytes cs + 4 * length cs"
  by (induction cs) (auto simp: cell_cost_eq)

lemma cells_cost_insert [simp]: "cells_cost (insert_at i c cs) = cell_cost c + cells_cost cs"
  by (simp add: cells_cost_def)

lemma cells_bytes_insert [simp]: "cells_bytes (insert_at i c cs) = 8 + length (snd c) + cells_bytes cs"
  by (simp add: cells_bytes_def KEY_SIZE_def)

section \<open>The representation\<close>

definition cell_rep :: "page \<Rightarrow> nat \<Rightarrow> nat \<Rightarrow> cell \<Rightarrow> bool" where
  "cell_rep p ds i c \<longleftrightarrow>
     (\<exists>off. ds \<le> off \<and> off + (8 + length (snd c)) \<le> PAGE_SIZE \<and>
        slot_is p i (of_nat off, of_nat (8 + length (snd c))) \<and>
        slice p off (8 + length (snd c)) = i64_le (fst c) @ snd c)"

definition leaf_rep :: "page \<Rightarrow> cell list \<Rightarrow> u32 \<Rightarrow> bool" where
  "leaf_rep p cells nx \<longleftrightarrow>
     length p = PAGE_SIZE \<and> slice p 0 1 = [NODE_TYPE_LEAF] \<and>
     slice p 1 4 = u32_le (of_nat (length cells)) \<and> slice p 5 4 = u32_le nx \<and>
     slice p 9 2 = u16_le (of_nat (PAGE_SIZE - cells_bytes cells)) \<and>
     cells_cost cells \<le> leaf_capacity \<and>
     (\<forall>i < length cells. cell_rep p (PAGE_SIZE - cells_bytes cells) i (cells ! i))"

lemma leaf_rep_length: "leaf_rep p cells nx \<Longrightarrow> length p = PAGE_SIZE"
  by (simp add: leaf_rep_def)

lemma leaf_rep_cost: "leaf_rep p cells nx \<Longrightarrow> cells_cost cells \<le> leaf_capacity"
  by (simp add: leaf_rep_def)

lemma capacity_bounds:
  assumes "cells_cost cells \<le> leaf_capacity"
  shows "11 + 4 * length cells + cells_bytes cells \<le> 4096" "12 * length cells \<le> 4085"
    "length cells < 65536" "cells_bytes cells \<le> 4085"
proof -
  have c: "cells_bytes cells + 4 * length cells \<le> 4085"
    using assms by (simp add: cells_cost_bytes leaf_capacity_def layout)
  moreover have "8 * length cells \<le> cells_bytes cells"
    by (induction cells) auto
  ultimately show "11 + 4 * length cells + cells_bytes cells \<le> 4096" "12 * length cells \<le> 4085"
    "length cells < 65536" "cells_bytes cells \<le> 4085"
    by linarith+
qed

lemma slice_one: "i < length p \<Longrightarrow> slice p i 1 = [p ! i]"
  by (simp add: slice_def Cons_nth_drop_Suc [symmetric])

lemma leaf_rep_type: "leaf_rep p cells nx \<Longrightarrow> get_byte p 0 = Inr NODE_TYPE_LEAF"
  using slice_one [of 0 p] by (simp add: leaf_rep_def layout)

lemma leaf_rep_num:
  assumes "leaf_rep p cells nx"
  shows "leaf_num_cells p = Inr (of_nat (length cells))" "unat (of_nat (length cells) :: u32) = length cells"
  using assms capacity_bounds [OF leaf_rep_cost [OF assms]]
  by (simp_all add: leaf_rep_def leaf_num_cells_def layout read_u32_slice unat_of_nat_u32)

lemma leaf_rep_next: "leaf_rep p cells nx \<Longrightarrow> leaf_next_leaf p = Inr nx"
  by (simp add: leaf_rep_def leaf_next_leaf_def layout read_u32_slice)

lemma leaf_rep_data_start:
  "leaf_rep p cells nx \<Longrightarrow> leaf_data_start p = Inr (of_nat (PAGE_SIZE - cells_bytes cells))"
  by (simp add: leaf_rep_def leaf_data_start_def layout read_u16_slice)

lemma leaf_rep_cell:
  assumes "leaf_rep p cells nx" "i < length cells"
  shows "leaf_cell_key p i = Inr (fst (cells ! i))" "leaf_cell_row p i = Inr (snd (cells ! i))"
proof -
  let ?c = "cells ! i" and ?n = "8 + length (snd (cells ! i))"
  obtain off where off: "off + ?n \<le> PAGE_SIZE" "slot_is p i (of_nat off, of_nat ?n)"
      "slice p off ?n = i64_le (fst ?c) @ snd ?c"
    using assms by (auto simp: leaf_rep_def cell_rep_def)
  have len: "length p = 4096" using assms by (simp add: leaf_rep_def layout)
  have "slot_offset i + 4 \<le> length p"
    using capacity_bounds [OF leaf_rep_cost [OF assms(1)]] assms(2) len by (simp add: slot_offset_simps)
  then have slot: "read_slot p i = Inr (of_nat off, of_nat ?n)"
    by (rule read_slot_is [OF off(2)])
  have u: "unat (of_nat off :: u16) = off" "unat (of_nat ?n :: u16) = ?n"
    by (rule unat_of_nat_u16, use off(1) in \<open>simp add: layout\<close>)+
  have "slice p off 8 = slice (slice p off ?n) 0 8" "slice p (off + 8) (length (snd ?c)) = slice (slice p off ?n) 8 (length (snd ?c))"
    using off(1) len by (simp_all add: slice_slice layout)
  then have "slice p off 8 = i64_le (fst ?c)" "slice p (off + 8) (length (snd ?c)) = snd ?c"
    by (simp_all add: off(3) slice_0_append slice_append_right slice_full)
  then show "leaf_cell_key p i = Inr (fst ?c)" "leaf_cell_row p i = Inr (snd ?c)"
    using off(1) len slot u
    by (simp_all add: leaf_cell_key_def leaf_cell_row_def Let_def layout read_i64_slice)
qed

lemma leaf_rep_free:
  assumes "leaf_rep p cells nx"
  shows "leaf_free_space p = Inr (leaf_capacity - cells_cost cells)"
proof -
  have "unat (of_nat (PAGE_SIZE - cells_bytes cells) :: u16) = PAGE_SIZE - cells_bytes cells"
    by (rule unat_of_nat_u16) (simp add: layout)
  with leaf_rep_num [OF assms] leaf_rep_data_start [OF assms] capacity_bounds [OF leaf_rep_cost [OF assms]]
  show ?thesis
    by (simp add: leaf_free_space_def Let_def layout leaf_capacity_def cells_cost_bytes mult.commute)
qed

lemma collect_from_ok:
  assumes "leaf_rep p cells nx"
  shows "i + n = length cells \<Longrightarrow> collect_from p i n = Inr (drop i cells)"
proof (induction n arbitrary: i)
  case (Suc n)
  then show ?case
    using leaf_rep_cell [OF assms, of i] by (simp add: Cons_nth_drop_Suc [symmetric])
qed simp

lemma collect_leaf_cells_ok: "leaf_rep p cells nx \<Longrightarrow> collect_leaf_cells p = Inr cells"
  using collect_from_ok [of p cells nx 0 "length cells"] leaf_rep_num [of p cells nx]
  by (simp add: collect_leaf_cells_def)

section \<open>Inserting a cell\<close>

definition cell_pos :: "i64 \<Rightarrow> cell list \<Rightarrow> nat" where
  "cell_pos key cells = prefix_len (\<lambda>c. sint (fst c) < sint key) cells"

lemma cell_pos_le: "cell_pos key cells \<le> length cells"
  by (simp add: cell_pos_def prefix_len_le)

lemma prefix_len_map: "prefix_len p (map f xs) = prefix_len (\<lambda>x. p (f x)) xs"
  by (induction xs) auto

lemma leaf_scan_ok:
  assumes "leaf_rep p cells nx"
  shows "scan_from (leaf_cell_key p) (\<lambda>k. sint k < sint key) (length cells) 0 = Inr (cell_pos key cells)"
  using scan_from_prefix_len [of "map fst cells" "leaf_cell_key p" "\<lambda>k. sint k < sint key"]
    leaf_rep_cell(1) [OF assms]
  by (simp add: prefix_len_map cell_pos_def)

text \<open>A cell whose bytes and slot are untouched keeps its representation.\<close>

lemma cell_rep_agree:
  assumes "cell_rep p ds i c" "ds' \<le> ds"
    and slot: "slice q (slot_offset j) 4 = slice p (slot_offset i) 4"
    and data: "\<And>off n. ds \<le> off \<Longrightarrow> off + n \<le> PAGE_SIZE \<Longrightarrow> slice q off n = slice p off n"
  shows "cell_rep q ds' j c"
proof -
  obtain off where off: "ds \<le> off" "off + (8 + length (snd c)) \<le> PAGE_SIZE"
      "slot_is p i (of_nat off, of_nat (8 + length (snd c)))"
      "slice p off (8 + length (snd c)) = i64_le (fst c) @ snd c"
    using assms(1) by (auto simp: cell_rep_def)
  then have "slot_is q j (of_nat off, of_nat (8 + length (snd c)))"
    "slice q off (8 + length (snd c)) = i64_le (fst c) @ snd c" "ds' \<le> off"
    using slot data assms(2) by (simp_all only: slot_is_def)
  with off(2) show ?thesis unfolding cell_rep_def by blast
qed

text \<open>
  The four writes of an insertion (data start, cell, slot, cell count) do not interfere: the
  resulting page has each of them, and keeps the rest.
\<close>

lemma leaf_patches:
  fixes p D C S N :: "byte list" and nds so :: nat
  assumes "length p = 4096" "length D = 2" "length S = 4" "length N = 4"
    and "11 \<le> so" "so + 4 \<le> nds" "nds + length C \<le> 4096"
  defines "q \<equiv> patch (patch (patch (patch p 9 D) nds C) so S) 1 N"
  shows "length q = 4096" "slice q 1 4 = N" "slice q 9 2 = D" "slice q so 4 = S"
    and "m = length C \<Longrightarrow> slice q nds m = C" "slice q 0 1 = slice p 0 1" "slice q 5 4 = slice p 5 4"
    and "nds + length C \<le> off \<Longrightarrow> off + n \<le> 4096 \<Longrightarrow> slice q off n = slice p off n"
    and "11 \<le> off \<Longrightarrow> off + 4 \<le> nds \<Longrightarrow> off + 4 \<le> so \<or> so + 4 \<le> off \<Longrightarrow> slice q off 4 = slice p off 4"
  using assms(1-7) unfolding q_def by (simp_all add: slice_patch_other slice_patch_same)

text \<open>Where the new cell goes, with \<open>n\<close> cells of \<open>bytes\<close> bytes in the page.\<close>

definition new_start :: "cell list \<Rightarrow> byte list \<Rightarrow> nat" where
  "new_start cells row = 4096 - cells_bytes cells - (8 + length row)"

definition with_cell :: "page \<Rightarrow> nat \<Rightarrow> nat \<Rightarrow> nat \<Rightarrow> i64 \<Rightarrow> byte list \<Rightarrow> page" where
  "with_cell p n pos nds key row = patch (patch (patch (patch p 9 (u16_le (of_nat nds))) nds (i64_le key @ row))
     (slot_offset pos) (u16_le (of_nat nds) @ u16_le (of_nat (8 + length row)))) 1 (u32_le (of_nat (n + 1)))"

lemma with_cell_slices:
  fixes pos nds n :: nat and key :: i64
  assumes "length p = 4096" "slot_offset pos + 4 \<le> nds" "nds + (8 + length row) \<le> 4096"
  defines "q \<equiv> with_cell p n pos nds key row"
  shows "length q = 4096" "slice q 1 4 = u32_le (of_nat (n + 1))" "slice q 9 2 = u16_le (of_nat nds)"
    and "slot_is q pos (of_nat nds, of_nat (8 + length row))" "slice q nds (8 + length row) = i64_le key @ row"
    and "slice q 0 1 = slice p 0 1" "slice q 5 4 = slice p 5 4"
    and "nds + (8 + length row) \<le> off \<Longrightarrow> off + m \<le> 4096 \<Longrightarrow> slice q off m = slice p off m"
    and "i \<noteq> pos \<Longrightarrow> slot_offset i + 4 \<le> nds \<Longrightarrow> slice q (slot_offset i) 4 = slice p (slot_offset i) 4"
proof -
  have b: "length (u16_le (of_nat nds)) = 2" "length (u16_le (of_nat nds) @ u16_le (of_nat (8 + length row))) = 4"
    "length (u32_le (of_nat (n + 1))) = 4" "11 \<le> slot_offset pos" "nds + length (i64_le key @ row) \<le> 4096"
    using assms(3) by (simp_all add: slot_offset_simps)
  note ps = leaf_patches [OF assms(1) b(1-4) assms(2) b(5), folded with_cell_def q_def]
  show "length q = 4096" "slice q 1 4 = u32_le (of_nat (n + 1))" "slice q 9 2 = u16_le (of_nat nds)"
    "slice q 0 1 = slice p 0 1" "slice q 5 4 = slice p 5 4"
    by (rule ps)+
  show "slot_is q pos (of_nat nds, of_nat (8 + length row))"
    unfolding slot_is_def fst_conv snd_conv by (rule ps(4))
  show "slice q nds (8 + length row) = i64_le key @ row" by (rule ps(5)) simp
  show "slice q off m = slice p off m" if "nds + (8 + length row) \<le> off" "off + m \<le> 4096"
    by (rule ps(8)) (use that in simp_all)
  show "slice q (slot_offset i) 4 = slice p (slot_offset i) 4" if "i \<noteq> pos" "slot_offset i + 4 \<le> nds"
    by (rule ps(9)) (use that in \<open>auto simp: slot_offset_simps\<close>)
qed

lemma new_start_bounds:
  assumes "cell_cost (key, row) + cells_cost cells \<le> leaf_capacity"
  shows "11 + 4 * (length cells + 1) \<le> new_start cells row" "new_start cells row + (8 + length row) = 4096 - cells_bytes cells"
    "slot_offset (cell_pos key cells) + 4 \<le> new_start cells row" "new_start cells row + (8 + length row) \<le> 4096"
proof -
  have bound: "11 + 4 * (length cells + 1) + (cells_bytes cells + (8 + length row)) \<le> 4096" "cell_pos key cells \<le> length cells"
    using capacity_bounds(1) [of "insert_at (cell_pos key cells) (key, row) cells"] assms cell_pos_le by simp_all
  from bound(1) show start: "11 + 4 * (length cells + 1) \<le> new_start cells row" "new_start cells row + (8 + length row) = 4096 - cells_bytes cells"
    "new_start cells row + (8 + length row) \<le> 4096"
    by (simp_all add: new_start_def)
  from start(1) bound(2) show "slot_offset (cell_pos key cells) + 4 \<le> new_start cells row"
    unfolding slot_offset_simps by arith
qed

text \<open>The run: after the shift of the slots the four writes succeed.\<close>

lemma insert_into_leaf_page_run:
  assumes rep: "leaf_rep p cells nx" and fits: "cell_cost (key, row) + cells_cost cells \<le> leaf_capacity"
    and shift: "shift_slots p (cell_pos key cells) (length cells) = Inr p1"
      "agree_outside (slot_offset (Suc (cell_pos key cells))) (slot_offset (Suc (length cells))) p p1"
  shows "insert_into_leaf_page key row p = Inr (with_cell p1 (length cells) (cell_pos key cells) (new_start cells row) key row)"
proof -
  define nds D where "nds = new_start cells row" and "D = u16_le (of_nat nds)"
  note nds = new_start_bounds [OF fits, folded nds_def]
  have len: "length p = 4096" "length p1 = 4096" using rep shift(2) by (simp_all add: leaf_rep_def layout agree_length)
  have "slice p1 9 2 = slice p 9 2"
    using agree_slice [OF shift(2), of 9 2] len by (simp add: slot_offset_simps)
  then have start: "leaf_data_start p1 = Inr (of_nat (4096 - cells_bytes cells))"
    using leaf_rep_data_start [OF rep] len by (simp add: leaf_data_start_def read_u16_slice layout)
  have uds: "unat (of_nat (4096 - cells_bytes cells) :: u16) = 4096 - cells_bytes cells"
    by (rule unat_of_nat_u16) simp
  have put: "rbind (write_i64 (patch p1 9 D) nds key) (\<lambda>q. put_slice q (nds + 8) row) = Inr (patch (patch p1 9 D) nds (i64_le key @ row))"
    using patch_patch [of nds "i64_le key" row "patch p1 9 D"] len nds(4)
    by (simp add: write_i64_patch D_def)
  have sub: "checked_sub (4096 - cells_bytes cells) (8 + length row) = Inr nds"
    using nds(2) by (simp add: nds_def new_start_def)
  have b: "length D = 2" "slot_offset (cell_pos key cells) + 4 \<le> 4096" "nds \<le> 4096"
    using nds(3,4) by (simp_all add: D_def)
  show ?thesis
    unfolding nds_def [symmetric] with_cell_def
    using b leaf_rep_num [OF rep] leaf_scan_ok [OF rep, of key] shift(1) start uds len nds put sub
    by (simp add: insert_into_leaf_page_def Let_def KEY_SIZE_def leaf_set_data_start_def
        leaf_set_num_cells_def write_u16_patch write_u32_patch write_slot_patch LEAF_DATA_START_OFFSET_def
        LEAF_NUM_CELLS_OFFSET_def flip: rbind_assoc D_def del: of_nat_add of_nat_Suc checked_sub_simps)
qed

text \<open>The result: the new cell is at its position, the others keep theirs or move up by one.\<close>

lemma with_cell_cells:
  assumes rep: "leaf_rep p cells nx" and fits: "cell_cost (key, row) + cells_cost cells \<le> leaf_capacity"
    and agree: "agree_outside (slot_offset (Suc (cell_pos key cells))) (slot_offset (Suc (length cells))) p p1"
    and moved: "\<And>j. cell_pos key cells < j \<Longrightarrow> j \<le> length cells \<Longrightarrow> slice p1 (slot_offset j) 4 = slice p (slot_offset (j - 1)) 4"
    and q: "q = with_cell p1 (length cells) (cell_pos key cells) (new_start cells row) key row" and j: "j \<le> length cells"
  shows "cell_rep q (new_start cells row) j (insert_at (cell_pos key cells) (key, row) cells ! j)"
proof -
  let ?n = "length cells" and ?pos = "cell_pos key cells"
  define nds ds where "nds = new_start cells row" and "ds = 4096 - cells_bytes cells"
  note nds = new_start_bounds [OF fits, folded nds_def ds_def]
  have len: "length p = 4096" "length p1 = 4096" using rep agree by (simp_all add: leaf_rep_def layout agree_length)
  have pos: "?pos \<le> ?n" by (rule cell_pos_le)
  note ps = with_cell_slices [where n = ?n and key = key, OF len(2) nds(3,4), folded q [folded nds_def]]
  have data: "slice q off m = slice p off m" if "ds \<le> off" "off + m \<le> 4096" for off m
    using that nds len ps(8) [of off m] agree_slice [OF agree, of off m] by (simp add: slot_offset_simps)
  have slots: "slice q (slot_offset i) 4 = slice p1 (slot_offset i) 4" if "i \<le> ?n" "i \<noteq> ?pos" for i
    using that nds(1) by (intro ps(9)) (auto simp: slot_offset_simps)
  have low: "slice p1 (slot_offset i) 4 = slice p (slot_offset i) 4" if "i < ?pos" for i
    using agree_slice [OF agree, of "slot_offset i" 4] that pos nds len by (simp add: slot_offset_simps)
  have new: "cell_rep q nds ?pos (key, row)"
    unfolding cell_rep_def fst_conv snd_conv PAGE_SIZE_def using nds(4) ps(4,5) by blast
  have old: "cell_rep q nds j (cells ! i)" if "i < ?n" "slice q (slot_offset j) 4 = slice p (slot_offset i) 4" for i
  proof (rule cell_rep_agree [OF _ _ that(2)])
    show "cell_rep p ds i (cells ! i)" using rep that(1) by (simp add: leaf_rep_def layout ds_def)
  qed (use nds(2) in \<open>auto simp: data PAGE_SIZE_def\<close>)
  consider "j < ?pos" | "j = ?pos" | "?pos < j" by linarith
  then show ?thesis
  proof cases
    case 1
    with pos slots [OF j] low [OF 1] old [of j] show ?thesis by (simp add: nth_insert_at nds_def)
  next
    case 2
    with new pos show ?thesis by (simp add: nth_insert_at nds_def)
  next
    case 3
    with pos j slots [OF j] moved [OF 3 j] old [of "j - 1"] show ?thesis by (simp add: nth_insert_at nds_def)
  qed
qed

lemma insert_into_leaf_page_ok:
  assumes rep: "leaf_rep p cells nx" and fits: "cell_cost (key, row) + cells_cost cells \<le> leaf_capacity"
  shows "\<exists>p'. insert_into_leaf_page key row p = Inr p' \<and>
    leaf_rep p' (insert_at (cell_pos key cells) (key, row) cells) nx"
proof -
  let ?n = "length cells" and ?pos = "cell_pos key cells" and ?nds = "new_start cells row"
  note nds = new_start_bounds [OF fits]
  have len: "length p = 4096" using rep by (simp add: leaf_rep_def layout)
  define S where "S i = (SOME s. slot_is p i s)" for i
  have S: "slot_is p i (S i)" if "i < ?n" for i
    using rep that unfolding S_def leaf_rep_def cell_rep_def by (metis someI)
  obtain p1 where p1: "shift_slots p ?pos ?n = Inr p1" "agree_outside (slot_offset (Suc ?pos)) (slot_offset (Suc ?n)) p p1"
      "\<And>j. ?pos < j \<Longrightarrow> j \<le> ?n \<Longrightarrow> slot_is p1 j (S (j - 1))"
    using shift_slots_ok [of ?n p S ?pos] S nds(1,4) cell_pos_le [of key cells] len by (auto simp: slot_offset_simps)
  have len1: "length p1 = 4096" using p1(2) len by (simp add: agree_length)
  have moved: "slice p1 (slot_offset j) 4 = slice p (slot_offset (j - 1)) 4" if "?pos < j" "j \<le> ?n" for j
    using p1(3) [OF that] S [of "j - 1"] that by (simp add: slot_is_def)
  define q where "q = with_cell p1 ?n ?pos ?nds key row"
  note ps = with_cell_slices [where n = ?n and key = key, OF len1 nds(3,4), folded q_def]
  have "slice q 0 1 = slice p 0 1" "slice q 5 4 = slice p 5 4"
    using ps(6,7) agree_slice [OF p1(2), of 0 1] agree_slice [OF p1(2), of 5 4] len len1 nds
    by (simp_all add: slot_offset_simps)
  moreover have "PAGE_SIZE - cells_bytes (insert_at ?pos (key, row) cells) = ?nds"
    by (simp add: PAGE_SIZE_def new_start_def)
  ultimately have "leaf_rep q (insert_at ?pos (key, row) cells) nx"
    unfolding leaf_rep_def
    using ps(1-3) rep fits nds len1 with_cell_cells [OF rep fits p1(2) moved q_def]
    by (simp add: leaf_rep_def PAGE_SIZE_def less_Suc_eq_le slot_offset_simps)
  with insert_into_leaf_page_run [OF rep fits p1(1,2)] show ?thesis by (simp add: q_def)
qed

section \<open>Writing a whole leaf\<close>

text \<open>Writes to the header leave every cell in place.\<close>

lemma cell_rep_header:
  assumes "cell_rep p ds i c" "agree_outside 0 11 p q" "11 \<le> ds" "slot_offset i + 4 \<le> length p" "length p = PAGE_SIZE"
  shows "cell_rep q ds i c"
proof (rule cell_rep_agree [OF assms(1)])
  show "slice q (slot_offset i) 4 = slice p (slot_offset i) 4"
    using agree_slice [OF assms(2), of "slot_offset i" 4] assms(4) by (simp add: slot_offset_simps)
  show "slice q off n = slice p off n" if "ds \<le> off" "off + n \<le> PAGE_SIZE" for off n
    using agree_slice [OF assms(2), of off n] that assms(3,5) by simp
qed simp

lemma init_leaf_ok:
  assumes "length p = PAGE_SIZE"
  shows "\<exists>p'. init_leaf p = Inr p' \<and> leaf_rep p' [] 0"
proof -
  have len: "length p = 4096" using assms by (simp add: layout)
  let ?p = "patch (patch (patch (patch p 0 [1]) 1 (u32_le 0)) 5 (u32_le 0)) 9 (u16_le 4096)"
  have upd: "p[0 := 1] = patch p 0 [1]"
    using len by (cases p) (auto simp: patch_def)
  have "init_leaf p = Inr ?p"
    using len upd by (simp add: init_leaf_def layout leaf_set_num_cells_def leaf_set_next_leaf_def
        leaf_set_data_start_def write_u32_patch write_u16_patch)
  moreover have "leaf_rep ?p [] 0"
    using len by (simp add: leaf_rep_def layout leaf_capacity_def slice_patch_other slice_patch_same)
  ultimately show ?thesis by blast
qed

lemma leaf_set_next_leaf_ok:
  assumes "leaf_rep p cells nx"
  shows "\<exists>p'. leaf_set_next_leaf p v = Inr p' \<and> leaf_rep p' cells v"
proof -
  have len: "length p = 4096" using assms by (simp add: leaf_rep_def layout)
  let ?p = "patch p 5 (u32_le v)"
  have ag: "agree_outside 0 11 p ?p" using len by (intro agree_patch) auto
  have "cell_rep ?p (PAGE_SIZE - cells_bytes cells) i (cells ! i)" if "i < length cells" for i
    by (rule cell_rep_header [OF _ ag])
      (use assms that len capacity_bounds(1) [OF leaf_rep_cost [OF assms]] in
        \<open>auto simp: leaf_rep_def layout slot_offset_simps\<close>)
  then have "leaf_rep ?p cells v"
    using assms len by (simp add: leaf_rep_def layout slice_patch_other slice_patch_same)
  moreover have "leaf_set_next_leaf p v = Inr ?p"
    using len by (simp add: leaf_set_next_leaf_def layout write_u32_patch)
  ultimately show ?thesis by blast
qed

text \<open>The cells written so far by \<open>write_leaf_cells\<close>: their slots and bytes are in place.\<close>

definition cells_written :: "page \<Rightarrow> cell list \<Rightarrow> bool" where
  "cells_written p ws \<longleftrightarrow> length p = PAGE_SIZE \<and>
     (\<forall>i < length ws. cell_rep p (PAGE_SIZE - cells_bytes ws) i (ws ! i))"

lemma write_cell_ok:
  assumes w: "cells_written p ws" and fits: "cells_cost (ws @ [(key, row)]) \<le> leaf_capacity"
  defines "ds \<equiv> PAGE_SIZE - cells_bytes (ws @ [(key, row)])"
  shows "\<exists>q r. write_i64 p ds key = Inr q \<and> put_slice q (ds + KEY_SIZE) row = Inr r \<and>
    (\<exists>p'. write_slot r (length ws) (of_nat ds) (of_nat (KEY_SIZE + length row)) = Inr p' \<and>
      cells_written p' (ws @ [(key, row)]) \<and> agree_outside 11 PAGE_SIZE p p')"
proof -
  let ?n = "length ws" and ?cs = "8 + length row" and ?C = "i64_le key @ row"
  define L where "L = u16_le (of_nat ds) @ u16_le (of_nat ?cs)"
  have len: "length p = 4096" and lenL: "length L = 4" using w by (auto simp: cells_written_def layout L_def)
  have b: "11 + 4 * (?n + 1) \<le> ds" "ds + ?cs = 4096 - cells_bytes ws" "ds + ?cs \<le> 4096"
    using capacity_bounds(1) [OF fits] by (simp_all add: ds_def layout)
  have so: "11 \<le> slot_offset ?n" "slot_offset ?n + 4 \<le> ds"
    using b(1) by (simp_all add: slot_offset_simps)
  define p' where "p' = patch (patch p ds ?C) (slot_offset ?n) L"
  have q1: "write_i64 p ds key = Inr (patch p ds (i64_le key))"
    using len b by (simp add: write_i64_patch)
  have q2: "put_slice (patch p ds (i64_le key)) (ds + KEY_SIZE) row = Inr (patch p ds ?C)"
    using len b patch_patch [of ds "i64_le key" row p] by (simp add: layout)
  have q3: "write_slot (patch p ds ?C) ?n (of_nat ds) (of_nat (KEY_SIZE + length row)) = Inr p'"
    using len b so by (simp add: write_slot_patch p'_def L_def layout del: of_nat_add)
  have len': "length p' = 4096" using len b so lenL by (simp add: p'_def)
  have slot: "slice p' (slot_offset ?n) 4 = L" and cell: "slice p' ds ?cs = ?C"
    using len b so lenL by (simp_all add: p'_def slice_patch_other slice_patch_same)
  have new: "cell_rep p' ds ?n (key, row)"
    using b slot cell unfolding cell_rep_def slot_is_def
    by (intro exI [of _ ds]) (simp add: layout L_def del: of_nat_add)
  have old: "cell_rep p' ds i (ws ! i)" if i: "i < ?n" for i
  proof (rule cell_rep_agree [where i = i and ds = "PAGE_SIZE - cells_bytes ws"])
    show "cell_rep p (PAGE_SIZE - cells_bytes ws) i (ws ! i)"
      using w i by (simp add: cells_written_def)
    show "slice p' (slot_offset i) 4 = slice p (slot_offset i) 4"
      using i len b so lenL by (simp add: p'_def slot_offset_simps slice_patch_other)
    show "slice p' off m = slice p off m" if "PAGE_SIZE - cells_bytes ws \<le> off" "off + m \<le> PAGE_SIZE" for off m
      using that len b so lenL by (simp add: p'_def layout slice_patch_other)
  qed (simp add: ds_def)
  have "cells_written p' (ws @ [(key, row)])"
    unfolding cells_written_def ds_def [symmetric]
    using len' new old by (auto simp: layout nth_append less_Suc_eq)
  moreover have "agree_outside 11 PAGE_SIZE p p'"
    unfolding p'_def using len b so lenL
    by (intro agree_trans [OF agree_patch agree_patch]) (auto simp: layout)
  ultimately show ?thesis using q1 q2 q3 by auto
qed

lemma write_cells_from_ok:
  assumes "cells_written p ws" "cells_cost (ws @ cells) \<le> leaf_capacity"
  shows "\<exists>p'. write_cells_from p (length ws) (PAGE_SIZE - cells_bytes ws) cells
        = Inr (p', PAGE_SIZE - cells_bytes (ws @ cells)) \<and>
    cells_written p' (ws @ cells) \<and> agree_outside 11 PAGE_SIZE p p'"
  using assms
proof (induction cells arbitrary: p ws)
  case (Cons c cells)
  obtain key row where c: "c = (key, row)" by force
  let ?ds = "PAGE_SIZE - cells_bytes (ws @ [c])"
  have fits: "cells_cost (ws @ [c]) \<le> leaf_capacity" using Cons.prems(2) by simp
  obtain q r p1 where w: "write_i64 p ?ds key = Inr q" "put_slice q (?ds + KEY_SIZE) row = Inr r"
      "write_slot r (length ws) (of_nat ?ds) (of_nat (KEY_SIZE + length row)) = Inr p1"
      "cells_written p1 (ws @ [c])" "agree_outside 11 PAGE_SIZE p p1"
    using write_cell_ok [OF Cons.prems(1), of key row] fits c by blast
  have sub: "checked_sub (PAGE_SIZE - cells_bytes ws) (KEY_SIZE + length row) = Inr ?ds"
    using capacity_bounds(1) [OF fits] c by (simp add: layout)
  obtain p' where p': "write_cells_from p1 (length (ws @ [c])) ?ds cells
        = Inr (p', PAGE_SIZE - cells_bytes ((ws @ [c]) @ cells))"
      "cells_written p' ((ws @ [c]) @ cells)" "agree_outside 11 PAGE_SIZE p1 p'"
    using Cons.IH [OF w(4)] Cons.prems(2) by auto
  have "write_cells_from p (length ws) (PAGE_SIZE - cells_bytes ws) (c # cells)
      = Inr (p', PAGE_SIZE - cells_bytes (ws @ c # cells))"
    using w(1-3) sub p'(1) by (simp add: c Let_def del: of_nat_add)
  with p' agree_trans [OF w(5) p'(3)] show ?case by auto
qed simp

lemma write_leaf_cells_ok:
  assumes "length p = PAGE_SIZE" "cells_cost cells \<le> leaf_capacity"
  shows "\<exists>p'. write_leaf_cells cells p = Inr p' \<and> leaf_rep p' cells 0"
proof -
  obtain p0 where p0: "init_leaf p = Inr p0" "leaf_rep p0 [] 0"
    using init_leaf_ok [OF assms(1)] by blast
  then have w0: "cells_written p0 []" by (simp add: cells_written_def leaf_rep_def)
  let ?ds = "PAGE_SIZE - cells_bytes cells"
  obtain p1 where p1: "write_cells_from p0 0 PAGE_SIZE cells = Inr (p1, ?ds)"
      "cells_written p1 cells" "agree_outside 11 PAGE_SIZE p0 p1"
    using write_cells_from_ok [OF w0, of cells] assms(2) by auto
  have len: "length p0 = 4096" "length p1 = 4096"
    using p0(2) p1(2) by (simp_all add: leaf_rep_def cells_written_def layout)
  let ?p2 = "patch (patch p1 1 (u32_le (of_nat (length cells)))) 9 (u16_le (of_nat ?ds))"
  have run: "write_leaf_cells cells p = Inr ?p2"
    using p0(1) p1(1) len
    by (simp add: write_leaf_cells_def leaf_set_num_cells_def leaf_set_data_start_def
        write_u32_patch write_u16_patch LEAF_NUM_CELLS_OFFSET_def LEAF_DATA_START_OFFSET_def)
  have ag: "agree_outside 0 11 p1 ?p2"
    using len by (intro agree_trans [OF agree_patch agree_patch]) auto
  have "cell_rep ?p2 ?ds i (cells ! i)" if "i < length cells" for i
    by (rule cell_rep_header [OF _ ag])
      (use p1(2) that len capacity_bounds(1) [OF assms(2)] in
        \<open>auto simp: cells_written_def layout slot_offset_simps\<close>)
  moreover have "slice p1 0 1 = [NODE_TYPE_LEAF]" "slice p1 5 4 = u32_le 0"
    using p0(2) agree_slice [OF p1(3), of 0 1] agree_slice [OF p1(3), of 5 4] len
    by (simp_all add: leaf_rep_def)
  ultimately have "leaf_rep ?p2 cells 0"
    using len assms(2) by (simp add: leaf_rep_def PAGE_SIZE_def slice_patch_other slice_patch_same)
  with run show ?thesis by blast
qed

text \<open>When the bytes of the cells exceed the page, the subtraction that allots them panics.\<close>

lemma page_write_panic:
  "write_i64 p off v = Inl e \<Longrightarrow> e = Panic" "put_slice p off bs = Inl e \<Longrightarrow> e = Panic"
  "write_slot p i x y = Inl e \<Longrightarrow> e = Panic"
  by (auto simp: write_i64_def write_u16_def write_slot_def put_slice_def Let_def rbind_def split: if_splits sum.splits)

lemma write_cells_from_overflow:
  "ds < cells_bytes cells \<Longrightarrow> write_cells_from p i ds cells = Inl Panic"
proof (induction cells arbitrary: p i ds)
  case (Cons c cells)
  obtain key row where c: "c = (key, row)" by force
  show ?case
  proof (cases "8 + length row \<le> ds")
    case True
    then have rest: "write_cells_from q (Suc i) (ds - (8 + length row)) cells = Inl Panic" for q
      using Cons by (simp add: c)
    show ?thesis
      using True page_write_panic rest
      by (fastforce simp: c Let_def KEY_SIZE_def rbind_def split: sum.split)
  qed (use c in \<open>simp add: Let_def KEY_SIZE_def\<close>)
qed simp

lemma write_leaf_cells_overflow:
  assumes "length p = PAGE_SIZE" "PAGE_SIZE < cells_bytes cells"
  shows "write_leaf_cells cells p = Inl Panic"
  using init_leaf_ok [OF assms(1)] write_cells_from_overflow [OF assms(2)]
  by (auto simp: write_leaf_cells_def)

end
