(* ===== verification/Btree_Tree.thy ===== *)
theory Btree_Tree
  imports Btree_Leaf
begin

text \<open>
  The trees that \<open>src/btree.rs\<close> builds, without their pages: leaves and internal nodes with
  their page numbers. \<open>ains\<close> is what \<open>insert\<close> does to a tree, the choice of the leaf, the
  split points and the position of a new separator included; theory \<open>Btree\<close> shows that
  the code on pages implements it. No insertion loses or invents a cell; with distinct
  keys the leaves, from left to right, are the sorted list of the cells.
\<close>

section \<open>Splitting a list of cells\<close>

text \<open>The loop of \<open>split_leaf\<close> that fills the left half, and the two clamps after it.\<close>

fun split_loop :: "nat \<Rightarrow> nat \<Rightarrow> nat \<Rightarrow> cell list \<Rightarrow> nat" where
  "split_loop half left_bytes left_count [] = left_count"
| "split_loop half left_bytes left_count (c # cells) =
     (if half < left_bytes + cell_cost c \<and> 0 < left_count then left_count
      else split_loop half (left_bytes + cell_cost c) (left_count + 1) cells)"

definition split_point :: "cell list \<Rightarrow> nat" where
  "split_point all_cells =
     (let half = cells_cost all_cells div 2;
          lc = split_loop half 0 0 all_cells;
          lc = (if lc = 0 then 1 else lc) in
      if length all_cells \<le> lc then length all_cells - 1 else lc)"

text \<open>The sorted insertion of \<open>insert_into_leaf\<close> and \<open>split_leaf\<close>.\<close>

definition cell_insert :: "i64 \<Rightarrow> byte list \<Rightarrow> cell list \<Rightarrow> cell list" where
  "cell_insert key row cells =
     insert_at (prefix_len (\<lambda>c. sint (fst c) < sint key) cells) (key, row) cells"

lemma cell_insert_simps [simp]:
  "length (cell_insert key row cells) = Suc (length cells)"
  "mset (cell_insert key row cells) = add_mset (key, row) (mset cells)"
  "set (cell_insert key row cells) = insert (key, row) (set cells)"
  "cells_cost (cell_insert key row cells) = cell_cost (key, row) + cells_cost cells"
  by (simp_all add: cell_insert_def)

lemma cell_insert_nonempty [simp]: "cell_insert key row cells \<noteq> []"
  by (metis cell_insert_simps(1) list.size(3) nat.simps(3))

lemma split_loop_ge: "left_count \<le> split_loop half left_bytes left_count cells"
  by (induction half left_bytes left_count cells rule: split_loop.induct) (auto intro: le_trans [rotated])

lemma split_loop_le: "split_loop half left_bytes left_count cells \<le> left_count + length cells"
  by (induction half left_bytes left_count cells rule: split_loop.induct) auto

lemma split_point_bounds:
  assumes "2 \<le> length all_cells"
  shows "0 < split_point all_cells" "split_point all_cells < length all_cells"
  using assms by (auto simp: split_point_def Let_def)

text \<open>
  What the loop leaves on the left: at most half of the bytes unless it is a single cell, and
  adding the next cell would exceed the half.
\<close>

lemma split_loop_spec:
  assumes "split_loop half lb lc cells = lc + k" "lb \<le> half \<or> lc = 0 \<or> lc = 1"
  shows "k \<le> length cells \<and> (lb + cells_cost (take k cells) \<le> half \<or> lc + k \<le> 1) \<and>
    (k < length cells \<longrightarrow> 0 < lc + k \<longrightarrow> half < lb + cells_cost (take (Suc k) cells))"
  using assms
proof (induction half lb lc cells arbitrary: k rule: split_loop.induct)
  case (2 half lb lc c cells)
  show ?case
  proof (cases "half < lb + cell_cost c \<and> 0 < lc")
    case True
    then show ?thesis using 2 by auto
  next
    case False
    then have "lc + 1 \<le> split_loop half (lb + cell_cost c) (lc + 1) cells"
      by (intro split_loop_ge)
    with 2(2) False obtain k' where k': "k = Suc k'" by (cases k) auto
    with 2 False show ?thesis by auto
  qed
qed auto

text \<open>
  Both halves fit in a leaf when every cell costs at most 1362 bytes (a row of 1350 bytes),
  which is less than the limit that \<open>insert\<close> enforces.
\<close>

definition safe_cost :: nat where
  "safe_cost = 1362"

definition halves_fit :: "cell list \<Rightarrow> bool" where
  "halves_fit cells \<longleftrightarrow> 2 \<le> length cells \<and>
     cells_cost (take (split_point cells) cells) \<le> leaf_capacity \<and>
     cells_cost (drop (split_point cells) cells) \<le> leaf_capacity"

lemma cells_cost_take_drop: "cells_cost (take k cells) + cells_cost (drop k cells) = cells_cost cells"
  using cells_cost_simps(3) [of "take k cells" "drop k cells"] by simp

lemma halves_fit_safe:
  assumes small: "\<forall>c \<in> set cells. cell_cost c \<le> safe_cost"
    and full: "leaf_capacity < cells_cost cells" "cells_cost cells \<le> leaf_capacity + safe_cost"
  shows "halves_fit cells"
proof -
  have two: "2 \<le> length cells"
  proof (rule ccontr)
    assume "\<not> 2 \<le> length cells"
    then have "cells = [] \<or> (\<exists>c. cells = [c])" by (cases cells) (auto simp: not_le less_Suc_eq)
    with small full(1) show False by (auto simp: safe_cost_def leaf_capacity_def layout)
  qed
  let ?half = "cells_cost cells div 2"
  define k where "k = split_loop ?half 0 0 cells"
  have "0 < k"
    using two split_loop_ge [of "Suc 0"] unfolding k_def
    by (cases cells) (auto simp: Suc_le_eq)
  have spec: "k \<le> length cells" "cells_cost (take k cells) \<le> ?half \<or> k \<le> 1"
    "k < length cells \<Longrightarrow> ?half < cells_cost (take (Suc k) cells)"
    using split_loop_spec [of ?half 0 0 cells k] \<open>0 < k\<close> by (auto simp: k_def)
  have "k \<noteq> length cells"
    using spec(2) two full(1) by (auto simp: leaf_capacity_def layout)
  then have k: "k < length cells" "split_point cells = k"
    using spec(1) \<open>0 < k\<close> by (auto simp: split_point_def Let_def k_def [symmetric])
  have next1: "cells_cost (take (Suc k) cells) = cells_cost (take k cells) + cell_cost (cells ! k)"
    using k(1) by (simp add: take_Suc_conv_app_nth)
  have small_k: "cell_cost (cells ! k) \<le> safe_cost" using small k(1) by simp
  have left: "cells_cost (take k cells) \<le> ?half \<or> cells_cost (take k cells) \<le> safe_cost"
  proof (cases "k \<le> 1")
    case True
    then have "take k cells = [hd cells]" using \<open>0 < k\<close> two by (cases cells; cases k) auto
    then show ?thesis using small two by (cases cells) auto
  qed (use spec(2) in simp)
  have "?half < cells_cost (take k cells) + safe_cost"
    using spec(3) [OF k(1)] next1 small_k by simp
  then have "cells_cost (take k cells) \<le> leaf_capacity" "cells_cost (drop k cells) \<le> leaf_capacity"
    using left full cells_cost_take_drop [of k cells] by (auto simp: safe_cost_def leaf_capacity_def layout)
  with k(2) two show ?thesis by (simp add: halves_fit_def)
qed

text \<open>The left half always fits.\<close>

lemma left_half_fits:
  assumes "2 \<le> length cells" "\<forall>c \<in> set cells. cell_cost c \<le> leaf_capacity" "cells_cost cells \<le> 2 * leaf_capacity"
  shows "cells_cost (take (split_point cells) cells) \<le> leaf_capacity"
proof -
  let ?half = "cells_cost cells div 2"
  define k where "k = split_loop ?half 0 0 cells"
  have "0 < k"
    using assms(1) split_loop_ge [of "Suc 0"] unfolding k_def
    by (cases cells) (auto simp: Suc_le_eq)
  have spec: "k \<le> length cells" "cells_cost (take k cells) \<le> ?half \<or> k \<le> 1"
    using split_loop_spec [of ?half 0 0 cells k] by (auto simp: k_def)
  have p: "split_point cells = (if length cells \<le> k then length cells - 1 else k)"
    using \<open>0 < k\<close> by (simp add: split_point_def Let_def k_def [symmetric])
  have take_le: "cells_cost (take m cells) \<le> cells_cost (take k cells)" if "m \<le> k" for m
    using that cells_cost_take_drop [of m "take k cells"] by (simp add: min_absorb1)
  have k: "cells_cost (take k cells) \<le> leaf_capacity"
  proof (cases "k \<le> 1")
    case True
    then have "take k cells = [hd cells]" using \<open>0 < k\<close> assms(1) by (cases cells; cases k) auto
    then show ?thesis using assms(1,2) by (cases cells) auto
  qed (use spec(2) assms(3) in auto)
  show ?thesis using take_le [of "split_point cells"] k p spec(1) by auto
qed

section \<open>Trees\<close>

datatype bt = Lf u32 "cell list" | Nd u32 "bt list" "i64 list"

primrec bt_page :: "bt \<Rightarrow> u32" where
  "bt_page (Lf i cells) = i"
| "bt_page (Nd i cs ks) = i"

primrec leaves :: "bt \<Rightarrow> (u32 \<times> cell list) list" where
  "leaves (Lf i cells) = [(i, cells)]"
| "leaves (Nd i cs ks) = concat (map leaves cs)"

definition cells_of :: "bt \<Rightarrow> cell list" where
  "cells_of t = concat (map snd (leaves t))"

primrec pids :: "bt \<Rightarrow> u32 list" where
  "pids (Lf i cells) = [i]"
| "pids (Nd i cs ks) = i # concat (map pids cs)"

primrec inner_pids :: "bt \<Rightarrow> u32 list" where
  "inner_pids (Lf i cells) = []"
| "inner_pids (Nd i cs ks) = i # concat (map inner_pids cs)"

text \<open>The child that \<open>insert\<close> descends to.\<close>

definition child_index :: "i64 \<Rightarrow> i64 list \<Rightarrow> nat" where
  "child_index key ks = prefix_len (\<lambda>k. sint k < sint key) ks"

text \<open>The leaf that \<open>insert\<close> reaches, and the number of nodes on the way.\<close>

primrec leaf_at :: "i64 \<Rightarrow> bt \<Rightarrow> bt" where
  "leaf_at key (Lf i cells) = Lf i cells"
| "leaf_at key (Nd i cs ks) = map (leaf_at key) cs ! child_index key ks"

primrec depth_at :: "i64 \<Rightarrow> bt \<Rightarrow> nat" where
  "depth_at key (Lf i cells) = 1"
| "depth_at key (Nd i cs ks) = Suc (map (depth_at key) cs ! child_index key ks)"

text \<open>An insertion changes the tree in place or splits it into two trees and a separator.\<close>

datatype ires = Same bt | Split bt i64 bt

primrec result_trees :: "ires \<Rightarrow> bt list" where
  "result_trees (Same t) = [t]"
| "result_trees (Split l m r) = [l, r]"

text \<open>\<open>insert_into_internal\<close> and \<open>split_internal\<close>: the separator is placed by its key.\<close>

definition node_add :: "u32 \<Rightarrow> bt list \<Rightarrow> i64 list \<Rightarrow> i64 \<Rightarrow> bt \<Rightarrow> nat \<Rightarrow> ires \<times> nat" where
  "node_add i cs ks m right n =
     (let j = child_index m ks;
          cs' = insert_at (Suc j) right cs;
          ks' = insert_at j m ks in
      if length ks < internal_max_keys then (Same (Nd i cs' ks'), n)
      else let mid = (internal_max_keys + 1) div 2 in
        (Split (Nd i (take (Suc mid) cs') (take mid ks')) (ks' ! mid)
               (Nd (of_nat n) (drop (Suc mid) cs') (drop (Suc mid) ks')), Suc n))"

text \<open>\<open>n\<close> is the number of pages so far, hence the number of the next page.\<close>

primrec ains :: "i64 \<Rightarrow> byte list \<Rightarrow> nat \<Rightarrow> bt \<Rightarrow> ires \<times> nat" where
  "ains key row n (Lf i cells) =
     (let all_cells = cell_insert key row cells; lc = split_point all_cells in
      if cells_cost all_cells \<le> leaf_capacity then (Same (Lf i all_cells), n)
      else (Split (Lf i (take lc all_cells)) (fst (all_cells ! lc)) (Lf (of_nat n) (drop lc all_cells)), Suc n))"
| "ains key row n (Nd i cs ks) =
     (let idx = child_index key ks in
      case map (ains key row n) cs ! idx of
        (Same c, n') \<Rightarrow> (Same (Nd i (cs[idx := c]) ks), n')
      | (Split l m r, n') \<Rightarrow> node_add i (cs[idx := l]) ks m r n')"

definition ainsert :: "i64 \<Rightarrow> byte list \<Rightarrow> nat \<Rightarrow> bt \<Rightarrow> bt \<times> nat" where
  "ainsert key row n t =
     (case ains key row n t of
        (Same t', n') \<Rightarrow> (t', n')
      | (Split l m r, n') \<Rightarrow> (Nd (of_nat n') [l, r] [m], Suc n'))"

section \<open>Nothing is lost\<close>

primrec shape :: "bt \<Rightarrow> bool" where
  "shape (Lf i cells) = True"
| "shape (Nd i cs ks) \<longleftrightarrow> length cs = Suc (length ks) \<and> length ks \<le> internal_max_keys \<and> list_all shape cs"

definition result_leaves :: "ires \<Rightarrow> (u32 \<times> cell list) list" where
  "result_leaves r = concat (map leaves (result_trees r))"

definition result_pids :: "ires \<Rightarrow> u32 list" where
  "result_pids r = concat (map pids (result_trees r))"

lemma result_simps' [simp]:
  "result_leaves (Same t) = leaves t" "result_leaves (Split l m r) = leaves l @ leaves r"
  "result_pids (Same t) = pids t" "result_pids (Split l m r) = pids l @ pids r"
  by (simp_all add: result_leaves_def result_pids_def)

lemma child_index_le: "child_index key ks \<le> length ks"
  by (simp add: child_index_def prefix_len_le)

lemma child_index_less: "length cs = Suc (length ks) \<Longrightarrow> child_index key ks < length cs"
  by (simp add: child_index_def prefix_len_less)

lemma child_index_less_Suc [simp]: "child_index key ks < Suc (length ks)"
  by (simp add: child_index_def prefix_len_less)

lemma node_add_leaves:
  "mset (result_leaves (fst (node_add i cs ks m t n))) = mset (leaves t) + mset (concat (map leaves cs))"
proof -
  let ?cs = "insert_at (Suc (child_index m ks)) t cs"
  have "mset (result_leaves (fst (node_add i cs ks m t n))) = mset (concat (map leaves ?cs))"
    by (simp add: node_add_def Let_def flip: mset_append concat_append map_append)
  then show ?thesis by (simp add: mset_concat_insert_at)
qed

lemma node_add_pids:
  "mset (result_pids (fst (node_add i cs ks m t n))) =
     {#i#} + mset (pids t) + mset (concat (map pids cs)) + mset (map of_nat [n..<snd (node_add i cs ks m t n)])"
proof -
  let ?cs = "insert_at (Suc (child_index m ks)) t cs" and ?k = "Suc ((internal_max_keys + 1) div 2)"
  have "mset (concat (map pids (take ?k ?cs))) + mset (concat (map pids (drop ?k ?cs))) = mset (concat (map pids ?cs))"
    by (simp flip: mset_append concat_append map_append)
  then show ?thesis
    by (simp add: node_add_def Let_def mset_concat_insert_at)
qed

lemma node_add_shape:
  assumes "length cs = Suc (length ks)" "length ks \<le> internal_max_keys" "list_all shape cs" "shape t"
  shows "list_all shape (result_trees (fst (node_add i cs ks m t n)))"
proof -
  have all: "list_all shape (insert_at (Suc (child_index m ks)) t cs)"
    using assms(3,4) by (simp add: list_all_iff)
  then have "list_all shape (take k (insert_at (Suc (child_index m ks)) t cs))"
    "list_all shape (drop k (insert_at (Suc (child_index m ks)) t cs))" for k
    unfolding list_all_iff by (blast dest: in_set_takeD in_set_dropD)+
  with all assms(1,2) show ?thesis
    by (simp add: node_add_def Let_def layout_values)
qed

lemma node_add_count: "n \<le> snd (node_add i cs ks m t n)" "snd (node_add i cs ks m t n) \<le> Suc n"
  by (simp_all add: node_add_def Let_def)

lemma ains_Nd:
  assumes "length cs = Suc (length ks)" "ains key row n (cs ! child_index key ks) = (r, n')"
  shows "ains key row n (Nd i cs ks) = (case r of
      Same c \<Rightarrow> (Same (Nd i (cs[child_index key ks := c]) ks), n')
    | Split l m r \<Rightarrow> node_add i (cs[child_index key ks := l]) ks m r n')"
  using assms by (cases r) (simp_all add: Let_def)

declare ains.simps(2) [simp del]

text \<open>Induction along the descent of \<open>insert\<close>.\<close>

lemma descent_induct [consumes 1, case_names Lf Nd]:
  assumes "shape t"
    and "\<And>i cells. P (Lf i cells)"
    and "\<And>i cs ks. length cs = Suc (length ks) \<Longrightarrow> length ks \<le> internal_max_keys \<Longrightarrow> list_all shape cs \<Longrightarrow>
      shape (cs ! child_index key ks) \<Longrightarrow> P (cs ! child_index key ks) \<Longrightarrow> P (Nd i cs ks)"
  shows "P t"
  using assms(1)
proof (induction t)
  case (Nd i cs ks)
  then have "cs ! child_index key ks \<in> set cs" "shape (cs ! child_index key ks)"
    by (auto simp: list_all_length)
  with Nd assms(3) [of cs ks i] show ?case by simp
qed (rule assms(2))

lemma ains_shape: "shape t \<Longrightarrow> list_all shape (result_trees (fst (ains key row n t)))"
proof (induction t rule: descent_induct [where key = key])
  case (Nd i cs ks)
  let ?idx = "child_index key ks"
  obtain r n' where r: "ains key row n (cs ! ?idx) = (r, n')" by force
  have upd: "list_all shape (cs[?idx := c])" if "shape c" for c
    using Nd that unfolding list_all_iff by (blast dest: set_update_subset_insert [THEN subsetD])
  show ?case
    unfolding ains_Nd [OF Nd(1) r]
    using Nd r upd node_add_shape [of "cs[?idx := _]" ks] by (cases r) simp_all
qed (simp add: Let_def)

lemma ains_count:
  "shape t \<Longrightarrow> n \<le> snd (ains key row n t) \<and> snd (ains key row n t) \<le> n + depth_at key t"
proof (induction t rule: descent_induct [where key = key])
  case (Nd i cs ks)
  obtain r n' where r: "ains key row n (cs ! child_index key ks) = (r, n')" by force
  show ?case
    unfolding ains_Nd [OF Nd(1) r]
    using Nd r node_add_count [where n = n'] by (cases r) (auto intro: le_trans order_trans [OF node_add_count(2)])
qed (simp add: Let_def)

lemma leaf_at_Lf: "shape t \<Longrightarrow> \<exists>i cells. leaf_at key t = Lf i cells \<and> (i, cells) \<in> set (leaves t)"
proof (induction t rule: descent_induct [where key = key])
  case (Nd i cs ks)
  then show ?case by (auto intro!: bexI [of _ "cs ! child_index key ks"])
qed simp

text \<open>The leaves of the result are those of the tree with the reached leaf replaced.\<close>

lemma ains_leaves:
  "shape t \<Longrightarrow>
   mset (result_leaves (fst (ains key row n t))) + mset (leaves (leaf_at key t)) =
   mset (leaves t) + mset (result_leaves (fst (ains key row n (leaf_at key t))))"
proof (induction t rule: descent_induct [where key = key])
  case (Nd i cs ks)
  let ?idx = "child_index key ks"
  obtain r n' where r: "ains key row n (cs ! ?idx) = (r, n')" by force
  have upd: "mset (concat (map leaves (cs[?idx := c]))) + mset (leaves (cs ! ?idx)) = mset (leaves c) + mset (concat (map leaves cs))" for c
    using mset_concat_update [of ?idx cs leaves c] Nd(1) by simp
  have leaf: "leaf_at key (Nd i cs ks) = leaf_at key (cs ! ?idx)" using Nd(1) by simp
  show ?case
  proof (cases r)
    case (Same c)
    then show ?thesis
      unfolding ains_Nd [OF Nd(1) r] leaf
      using mset_exchange [OF upd [of c], of "{#}"] Nd(5) r by simp
  next
    case (Split l m t')
    then show ?thesis
      unfolding ains_Nd [OF Nd(1) r] leaf
      using mset_exchange [OF upd [of l], of "mset (leaves t')"] Nd(5) r
        node_add_leaves [of i "cs[?idx := l]" ks m t' n'] by simp
  qed
qed simp

lemma ains_pids:
  "shape t \<Longrightarrow>
   mset (result_pids (fst (ains key row n t))) = mset (pids t) + mset (map of_nat [n..<snd (ains key row n t)])"
proof (induction t rule: descent_induct [where key = key])
  case (Nd i cs ks)
  let ?idx = "child_index key ks"
  obtain r n' where r: "ains key row n (cs ! ?idx) = (r, n')" by force
  have upd: "mset (concat (map pids (cs[?idx := c]))) + mset (pids (cs ! ?idx)) = mset (pids c) + mset (concat (map pids cs))" for c
    using mset_concat_update [of ?idx cs pids c] Nd(1) by simp
  have n': "n \<le> n'" using ains_count [OF Nd(4), of n key row] r by simp
  show ?case
  proof (cases r)
    case (Same c)
    then show ?thesis
      unfolding ains_Nd [OF Nd(1) r]
      using mset_exchange [OF upd [of c], of "{#}" "{#}"] Nd(5) r by simp
  next
    case (Split l m t')
    let ?n'' = "snd (node_add i (cs[?idx := l]) ks m t' n')"
    have "mset (pids t') + mset (concat (map pids (cs[?idx := l]))) = mset (concat (map pids cs)) + mset (map of_nat [n..<n'])"
      using mset_exchange [OF upd [of l], of "mset (pids t')" "{#}"] Nd(5) r Split by simp
    moreover have "[n..<?n''] = [n..<n'] @ [n'..<?n'']"
      using n' node_add_count(1) by (metis le_trans le_Suc_ex upt_add_eq_append)
    ultimately show ?thesis
      unfolding ains_Nd [OF Nd(1) r]
      using Split node_add_pids [of i "cs[?idx := l]" ks m t' n'] by (simp del: mset_map mset_upt add: ac_simps)
  qed
qed (simp add: Let_def)

lemma leaves_pids: "fst ` set (leaves t) \<subseteq> set (pids t)"
  by (induction t) auto

lemma result_leaves_pids: "fst ` set (result_leaves r) \<subseteq> set (result_pids r)"
proof (cases r)
  case (Split l m t)
  then show ?thesis using leaves_pids [of l] leaves_pids [of t] by (simp add: image_Un le_supI1 le_supI2)
qed (simp add: leaves_pids)

lemma ains_page: "shape t \<Longrightarrow> bt_page (hd (result_trees (fst (ains key row n t)))) = bt_page t"
proof (induction t rule: descent_induct [where key = key])
  case (Nd i cs ks)
  obtain r n' where r: "ains key row n (cs ! child_index key ks) = (r, n')" by force
  show ?case
    unfolding ains_Nd [OF Nd(1) r] by (cases r) (simp_all add: node_add_def Let_def)
qed (simp add: Let_def)

text \<open>The pages of a result: those of the tree and the new ones.\<close>

lemma ains_pids_set:
  assumes "shape t" "ains key row n t = (r, n')"
  shows "set (result_pids r) = set (pids t) \<union> of_nat ` {n..<n'}"
proof -
  have "set_mset (mset (result_pids r)) = set_mset (mset (pids t) + mset (map of_nat [n..<n']))"
    using ains_pids [OF assms(1), of key row n] assms(2) by simp
  then show ?thesis by simp
qed

lemma repl_pids:
  assumes "shape t"
  shows "fst ` set (result_leaves (fst (ains key row n (leaf_at key t)))) \<subseteq>
    set (pids t) \<union> set (result_pids (fst (ains key row n t)))"
proof
  fix p assume "p \<in> fst ` set (result_leaves (fst (ains key row n (leaf_at key t))))"
  then obtain b where b: "p = fst b" "b \<in># mset (result_leaves (fst (ains key row n (leaf_at key t))))" by auto
  obtain i cells where lf: "leaf_at key t = Lf i cells" "(i, cells) \<in> set (leaves t)"
    using leaf_at_Lf [OF assms] by blast
  have "b \<in># mset (result_leaves (fst (ains key row n t))) + mset (leaves (leaf_at key t))"
    unfolding ains_leaves [OF assms] using b(2) by simp
  then have "b \<in> set (result_leaves (fst (ains key row n t))) \<or> b \<in> set (leaves t)"
    using lf by auto
  then show "p \<in> set (pids t) \<union> set (result_pids (fst (ains key row n t)))"
    using leaves_pids [of t] result_leaves_pids b(1) by blast
qed

section \<open>Replacing one leaf of a chain\<close>

definition splice :: "u32 \<Rightarrow> (u32 \<times> cell list) list \<Rightarrow> (u32 \<times> cell list) list \<Rightarrow> (u32 \<times> cell list) list" where
  "splice i repl L = concat (map (\<lambda>b. if fst b = i then repl else [b]) L)"

lemma splice_simps [simp]:
  "splice i repl [] = []"
  "splice i repl (b # L) = (if fst b = i then repl else [b]) @ splice i repl L"
  "splice i repl (L @ L') = splice i repl L @ splice i repl L'"
  by (simp_all add: splice_def)

lemma splice_notin: "i \<notin> fst ` set L \<Longrightarrow> splice i repl L = L"
  by (induction L) auto

lemma splice_at:
  assumes "distinct (map fst L)" "(i, c) \<in> set L"
  obtains A B where "L = A @ (i, c) # B" "splice i repl L = A @ repl @ B" "i \<notin> fst ` set A" "i \<notin> fst ` set B"
proof -
  obtain A B where L: "L = A @ (i, c) # B"
    using assms(2) by (meson split_list)
  then have "i \<notin> fst ` set A" "i \<notin> fst ` set B"
    using assms(1) by (auto simp: disjoint_iff)
  with L that show thesis by (simp add: splice_notin)
qed

lemma mset_splice:
  assumes "distinct (map fst L)" "(i, c) \<in> set L"
  shows "mset (splice i repl L) + {#(i, c)#} = mset L + mset repl"
  by (rule splice_at [OF assms, of repl]) simp

lemma splice_pids: "fst ` set (splice i repl L) \<subseteq> fst ` set L \<union> fst ` set repl"
  unfolding splice_def by (auto split: if_splits)

section \<open>How many pages a tree takes\<close>

text \<open>Every internal node has at least two children.\<close>

primrec fat :: "bt \<Rightarrow> bool" where
  "fat (Lf i cells) = True"
| "fat (Nd i cs ks) \<longleftrightarrow> ks \<noteq> [] \<and> list_all fat cs"

lemma fat_pids: "shape t \<Longrightarrow> fat t \<Longrightarrow> length (pids t) + 1 \<le> 2 * length (leaves t)"
proof (induction t)
  case (Nd i cs ks)
  have "\<forall>c \<in> set cs. length (pids c) + 1 \<le> 2 * length (leaves c)"
    using Nd by (auto simp: list_all_iff)
  then have "length (concat (map pids cs)) + length cs \<le> 2 * length (concat (map leaves cs))"
    by (induction cs) auto
  moreover have "2 \<le> length cs" using Nd.prems by (cases ks) auto
  ultimately show ?case by simp
qed simp

lemma node_add_fat:
  assumes "length ks \<le> internal_max_keys" "list_all fat cs" "fat t"
  shows "list_all fat (result_trees (fst (node_add i cs ks m t n)))"
proof -
  have all: "list_all fat (insert_at (Suc (child_index m ks)) t cs)"
    using assms(2,3) by (simp add: list_all_iff)
  then have "list_all fat (take k (insert_at (Suc (child_index m ks)) t cs))"
    "list_all fat (drop k (insert_at (Suc (child_index m ks)) t cs))" for k
    unfolding list_all_iff by (blast dest: in_set_takeD in_set_dropD)+
  moreover have "insert_at j m ks \<noteq> []" for j by (simp add: insert_at_def)
  ultimately show ?thesis
    using assms(1) all by (simp add: node_add_def Let_def layout_values)
qed

lemma ains_fat: "shape t \<Longrightarrow> fat t \<Longrightarrow> list_all fat (result_trees (fst (ains key row n t)))"
proof (induction t rule: descent_induct [where key = key])
  case (Nd i cs ks)
  let ?idx = "child_index key ks"
  obtain r n' where r: "ains key row n (cs ! ?idx) = (r, n')" by force
  have upd: "list_all fat (cs[?idx := c])" if "fat c" for c
    using Nd.prems that unfolding fat.simps list_all_iff by (blast dest: set_update_subset_insert [THEN subsetD])
  have "fat (cs ! ?idx)" using Nd.prems Nd(1) by (simp add: list_all_length)
  then show ?case
    unfolding ains_Nd [OF Nd(1) r]
    using Nd r upd node_add_fat [of ks "cs[?idx := _]"] by (cases r) simp_all
qed (simp add: Let_def)

text \<open>No leaf of a result is empty, when none was before or the tree was a single leaf.\<close>

definition full_leaves :: "(u32 \<times> cell list) list \<Rightarrow> bool" where
  "full_leaves L \<longleftrightarrow> (\<forall>b \<in> set L. snd b \<noteq> [])"

lemma full_repl:
  assumes "shape t" "cell_cost (key, row) \<le> leaf_capacity"
  shows "full_leaves (result_leaves (fst (ains key row n (leaf_at key t))))"
proof -
  obtain i cells where lf: "leaf_at key t = Lf i cells" using leaf_at_Lf [OF assms(1)] by blast
  let ?all = "cell_insert key row cells"
  have "2 \<le> length ?all" if "\<not> cells_cost ?all \<le> leaf_capacity"
    using that assms(2) by (cases cells) auto
  then have "0 < split_point ?all \<and> split_point ?all < length ?all" if "\<not> cells_cost ?all \<le> leaf_capacity"
    using that split_point_bounds [of ?all] by blast
  then show ?thesis by (auto simp: lf Let_def full_leaves_def)
qed

lemma ains_full:
  assumes "shape t" "cell_cost (key, row) \<le> leaf_capacity" "full_leaves (leaves t)"
  shows "full_leaves (result_leaves (fst (ains key row n t)))"
proof -
  have "b \<in> set (leaves t) \<or> b \<in> set (result_leaves (fst (ains key row n (leaf_at key t))))"
    if "b \<in> set (result_leaves (fst (ains key row n t)))" for b
  proof -
    have "b \<in># mset (result_leaves (fst (ains key row n t))) + mset (leaves (leaf_at key t))" using that by simp
    then show ?thesis unfolding ains_leaves [OF assms(1)] by auto
  qed
  with assms(3) full_repl [OF assms(1,2), of n] show ?thesis by (auto simp: full_leaves_def)
qed

lemma full_leaves_length: "full_leaves L \<Longrightarrow> length L \<le> length (concat (map snd L))"
proof (induction L)
  case (Cons b L)
  then show ?case by (cases "snd b") (auto simp: full_leaves_def)
qed simp

end
