(* ===== verification/Btree_Order.thy ===== *)
theory Btree_Order
  imports Btree_Tree
begin

text \<open>
  Insertion of a key that is not in the tree. \<open>ordered t\<close>: the cells are strictly sorted from
  left to right and every separator is the first key of the subtree to its right.
  \<open>ains\<close> keeps the tree ordered, performs the sorted insertion on its cells, and replaces
  the reached leaf in place in the sequence of leaves.
\<close>

section \<open>Sorted cells\<close>

definition cells_sorted :: "cell list \<Rightarrow> bool" where
  "cells_sorted cells \<longleftrightarrow> sorted_wrt (\<lambda>a b. sint (fst a) < sint (fst b)) cells"

lemma cells_sorted_simps [simp]:
  "cells_sorted []"
  "cells_sorted (c # cells) \<longleftrightarrow> (\<forall>d \<in> set cells. sint (fst c) < sint (fst d)) \<and> cells_sorted cells"
  "cells_sorted (xs @ ys) \<longleftrightarrow>
     cells_sorted xs \<and> cells_sorted ys \<and> (\<forall>x \<in> set xs. \<forall>y \<in> set ys. sint (fst x) < sint (fst y))"
  by (auto simp: cells_sorted_def sorted_wrt_append)

lemma cell_insert_Nil [simp]: "cell_insert key row [] = [(key, row)]"
  by (simp add: cell_insert_def insert_at_def)

lemma cell_insert_Cons:
  "cell_insert key row (c # cells) =
     (if sint (fst c) < sint key then c # cell_insert key row cells else (key, row) # c # cells)"
  by (simp add: cell_insert_def insert_at_prefix_len_Cons insert_at_def)

lemma cells_sorted_insert:
  "cells_sorted cells \<Longrightarrow> key \<notin> fst ` set cells \<Longrightarrow> cells_sorted (cell_insert key row cells)"
proof (induction cells)
  case (Cons c cells)
  have "sint (fst c) \<noteq> sint key" using Cons.prems(2) by (auto dest: signed_word_eqI)
  with Cons show ?case by (auto simp: cell_insert_Cons)
qed simp

text \<open>Inserting into a concatenation touches one part only.\<close>

lemma cell_insert_skip:
  "\<forall>a \<in> set xs. sint (fst a) < sint key \<Longrightarrow> cell_insert key row (xs @ ys) = xs @ cell_insert key row ys"
  by (induction xs) (auto simp: cell_insert_Cons)

lemma cell_insert_before:
  "(ys \<noteq> [] \<Longrightarrow> \<not> sint (fst (hd ys)) < sint key) \<Longrightarrow> cell_insert key row (xs @ ys) = cell_insert key row xs @ ys"
proof (induction xs)
  case Nil
  then show ?case by (cases ys) (auto simp: cell_insert_Cons)
next
  case (Cons x xs)
  then show ?case by (auto simp: cell_insert_Cons)
qed

lemma hd_cell_insert:
  "cells \<noteq> [] \<Longrightarrow> sint (fst (hd cells)) < sint key \<Longrightarrow> hd (cell_insert key row cells) = hd cells"
  by (cases cells) (auto simp: cell_insert_Cons)

section \<open>Ordered trees\<close>

lemma cells_of_simps [simp]:
  "cells_of (Lf i cells) = cells"
  "cells_of (Nd i cs ks) = concat (map cells_of cs)"
proof -
  show "cells_of (Nd i cs ks) = concat (map cells_of cs)"
    by (induction cs) (simp_all add: cells_of_def)
qed (simp add: cells_of_def)

definition first_key :: "bt \<Rightarrow> i64" where
  "first_key t = fst (hd (cells_of t))"

primrec separated :: "bt \<Rightarrow> bool" where
  "separated (Lf i cells) = True"
| "separated (Nd i cs ks) \<longleftrightarrow> ks = map first_key (tl cs) \<and> list_all separated cs \<and> (\<forall>c \<in> set cs. cells_of c \<noteq> [])"

definition ordered :: "bt \<Rightarrow> bool" where
  "ordered t \<longleftrightarrow> separated t \<and> cells_sorted (cells_of t)"

text \<open>The position of a key among the first keys of the children.\<close>

lemma child_index_first_keys:
  assumes "\<And>a. a \<in> set (tl (xs @ [c])) \<Longrightarrow> sint (first_key a) < sint key"
    and "ys \<noteq> [] \<Longrightarrow> \<not> sint (first_key (hd ys)) < sint key"
  shows "child_index key (map first_key (tl (xs @ c # ys))) = length xs"
  unfolding child_index_def
proof (rule prefix_len_eqI)
  have tl: "tl (xs @ c # ys) = tl (xs @ [c]) @ ys" and len: "length (tl (xs @ [c])) = length xs"
    by (cases xs; simp)+
  show "length xs \<le> length (map first_key (tl (xs @ c # ys)))" by simp
  show "sint (map first_key (tl (xs @ c # ys)) ! j) < sint key" if "j < length xs" for j
    using assms(1) [of "tl (xs @ [c]) ! j"] that unfolding tl by (simp add: nth_append len)
  show "\<not> sint (map first_key (tl (xs @ c # ys)) ! length xs) < sint key"
    if "length xs < length (map first_key (tl (xs @ c # ys)))"
    using assms(2) that unfolding tl by (cases ys) (simp_all add: nth_append len)
qed

lemma sorted_first_keys:
  assumes "cells_sorted (concat (map cells_of (xs @ c # ys)))" "\<forall>a \<in> set (xs @ c # ys). cells_of a \<noteq> []"
  shows "\<And>a. a \<in> set xs \<Longrightarrow> sint (first_key a) < sint (first_key c)"
    "ys \<noteq> [] \<Longrightarrow> sint (first_key c) < sint (first_key (hd ys))"
proof -
  have hd: "hd (cells_of a) \<in> set (cells_of a)" if "a \<in> set (xs @ c # ys)" for a
    using assms(2) that by (metis hd_in_set)
  show "sint (first_key a) < sint (first_key c)" if "a \<in> set xs" for a
    using assms(1) that hd [of a] hd [of c] by (fastforce simp: first_key_def)
  show "sint (first_key c) < sint (first_key (hd ys))" if "ys \<noteq> []"
    using assms(1) that hd [of "hd ys"] hd [of c] by (cases ys) (fastforce simp: first_key_def)+
qed

text \<open>The child the descent chooses: all cells before it are smaller, all after it are not.\<close>

lemma descent_split:
  assumes "length cs = Suc (length ks)" "separated (Nd i cs ks)" "cells_sorted (cells_of (Nd i cs ks))"
  obtains xs c ys where "cs = xs @ c # ys" "length xs = child_index key ks"
    "\<forall>a \<in> set (concat (map cells_of xs)). sint (fst a) < sint key"
    "concat (map cells_of ys) \<noteq> [] \<Longrightarrow> \<not> sint (fst (hd (concat (map cells_of ys)))) < sint key"
    "xs \<noteq> [] \<Longrightarrow> sint (first_key c) < sint key"
proof -
  let ?idx = "child_index key ks"
  have idx: "?idx < length cs" using assms(1) by simp
  define xs c ys where "xs = take ?idx cs" and "c = cs ! ?idx" and "ys = drop (Suc ?idx) cs"
  have cs: "cs = xs @ c # ys" and len: "length xs = ?idx"
    using idx by (simp_all add: xs_def c_def ys_def id_take_nth_drop [symmetric])
  have ks: "ks = map first_key (tl cs)" and ne: "\<forall>a \<in> set (xs @ c # ys). cells_of a \<noteq> []"
    and sorted: "cells_sorted (concat (map cells_of (xs @ c # ys)))"
    using assms(2,3) by (auto simp: cs)
  have at: "ks ! j = first_key (cs ! Suc j)" if "j < length ks" for j
    using that ks by (simp add: nth_tl)
  have c: "sint (first_key c) < sint key" if "xs \<noteq> []"
  proof -
    have "?idx - 1 < ?idx" using that len by (cases xs) auto
    then have "sint (ks ! (?idx - 1)) < sint key"
      unfolding child_index_def by (rule prefix_len_before)
    moreover have "Suc (?idx - 1) = ?idx" using that len by (cases xs) auto
    ultimately show ?thesis
      using at [of "?idx - 1"] idx assms(1) by (simp add: c_def)
  qed
  have "sint (fst a) < sint key" if a: "a \<in> set (concat (map cells_of xs))" for a
  proof -
    have "sint (fst a) < sint (fst (hd (cells_of c)))"
      using sorted a ne by (auto simp: hd_in_set)
    moreover have "xs \<noteq> []" using a by auto
    ultimately show ?thesis using c by (simp add: first_key_def)
  qed
  moreover have "\<not> sint (fst (hd (concat (map cells_of ys)))) < sint key" if nonempty: "concat (map cells_of ys) \<noteq> []"
  proof -
    obtain y ys' where ys: "ys = y # ys'" using nonempty by (cases ys) auto
    then have "cells_of y \<noteq> []" and y: "y = cs ! Suc ?idx" and lt: "?idx < length ks"
      using ne assms(1) cs len by (auto simp: nth_append)
    moreover have "\<not> sint (ks ! ?idx) < sint key"
      using lt unfolding child_index_def by (rule prefix_len_at)
    ultimately show ?thesis
      using at [OF lt] by (simp add: ys first_key_def)
  qed
  ultimately show thesis using that cs len c by blast
qed

section \<open>Adding a child\<close>

primrec good_split :: "ires \<Rightarrow> bool" where
  "good_split (Same t) = True"
| "good_split (Split l m r) \<longleftrightarrow> cells_of l \<noteq> [] \<and> cells_of r \<noteq> [] \<and> m = first_key r"

definition result_cells :: "ires \<Rightarrow> cell list" where
  "result_cells r = concat (map cells_of (result_trees r))"

lemma result_cells_simps [simp]:
  "result_cells (Same t) = cells_of t" "result_cells (Split l m r) = cells_of l @ cells_of r"
  by (simp_all add: result_cells_def)

lemma first_key_Nd: "cs \<noteq> [] \<Longrightarrow> cells_of (hd cs) \<noteq> [] \<Longrightarrow> first_key (Nd i cs ks) = first_key (hd cs)"
  by (cases cs) (simp_all add: first_key_def)

text \<open>Cutting a node in two at a separator.\<close>

lemma cut_node:
  assumes "ks = map first_key (tl cs)" "list_all separated cs" "\<forall>c \<in> set cs. cells_of c \<noteq> []" "Suc k < length cs"
  shows "separated (Nd i (take (Suc k) cs) (take k ks))" "separated (Nd j (drop (Suc k) cs) (drop (Suc k) ks))"
    "cells_of (Nd i (take (Suc k) cs) ks1) \<noteq> []" "cells_of (Nd j (drop (Suc k) cs) ks2) \<noteq> []"
    "ks ! k = first_key (Nd j (drop (Suc k) cs) ks2)"
proof -
  have all: "list_all separated (take (Suc k) cs)" "list_all separated (drop (Suc k) cs)"
    "\<forall>c \<in> set (take (Suc k) cs). cells_of c \<noteq> []" "\<forall>c \<in> set (drop (Suc k) cs). cells_of c \<noteq> []"
    using assms(2,3) unfolding list_all_iff by (blast dest: in_set_takeD in_set_dropD)+
  have "take k (tl cs) = tl (take (Suc k) cs)" "drop (Suc k) (tl cs) = tl (drop (Suc k) cs)"
    by (cases cs; simp add: drop_Suc tl_drop)+
  then show "separated (Nd i (take (Suc k) cs) (take k ks))" "separated (Nd j (drop (Suc k) cs) (drop (Suc k) ks))"
    using all assms(1) by (simp_all add: take_map drop_map)
  obtain c cs' where cs: "cs = c # cs'" using assms(4) by (cases cs) auto
  obtain d ds where d: "drop (Suc k) cs = d # ds" using assms(4) by (cases "drop (Suc k) cs") auto
  show "cells_of (Nd i (take (Suc k) cs) ks1) \<noteq> []" "cells_of (Nd j (drop (Suc k) cs) ks2) \<noteq> []"
    using all(4) d assms(3) cs by auto
  have "ks ! k = first_key (cs ! Suc k)" using assms(1,4) by (simp add: nth_tl)
  also have "cs ! Suc k = hd (drop (Suc k) cs)" using assms(4) by (simp add: hd_drop_conv_nth)
  finally show "ks ! k = first_key (Nd j (drop (Suc k) cs) ks2)"
    using d all(4) by (simp add: first_key_def)
qed

lemma node_add_ordered:
  assumes cs: "cs = xs @ l # ys" and ks: "ks = map first_key (tl cs)" "length ks \<le> internal_max_keys"
    and sep: "list_all separated (t # cs)" "\<forall>c \<in> set (t # cs). cells_of c \<noteq> []"
    and sorted: "cells_sorted (concat (map cells_of (xs @ l # t # ys)))"
    and r_def: "r = fst (node_add i cs ks (first_key t) t n)"
  shows "result_cells r = concat (map cells_of (xs @ l # t # ys))"
    "result_leaves r = concat (map leaves (xs @ l # t # ys))"
    "list_all separated (result_trees r)" "good_split r"
proof -
  let ?cs = "xs @ l # t # ys" and ?k = "(internal_max_keys + 1) div 2"
  have before: "sint (first_key a) < sint (first_key t)" if "a \<in> set (tl (xs @ [l]))" for a
  proof -
    have "a \<in> set (xs @ [l])" using that by (cases xs) auto
    then show ?thesis using sorted_first_keys(1) [of "xs @ [l]" t ys a] sorted sep cs by auto
  qed
  have "\<not> sint (first_key (hd ys)) < sint (first_key t)" if "ys \<noteq> []"
    using sorted_first_keys(2) [of "xs @ [l]" t ys] sorted sep cs that by auto
  then have j: "child_index (first_key t) ks = length xs"
    unfolding ks(1) cs by (intro child_index_first_keys before)
  have tl: "tl (xs @ l # ys') = tl (xs @ [l]) @ ys'" "length (tl (xs @ [l])) = length xs" for ys'
    by (cases xs; simp)+
  have ks': "insert_at (length xs) (first_key t) ks = map first_key (tl ?cs)"
    unfolding ks(1) cs tl(1) [of ys] tl(1) [of "t # ys"] using insert_at_length_append [of "map first_key (tl (xs @ [l]))"]
    by (simp add: tl(2))
  have cs': "insert_at (Suc (length xs)) t cs = ?cs"
    unfolding cs by (rule insert_at_Suc_append)
  have sep': "list_all separated ?cs" "\<forall>c \<in> set ?cs. cells_of c \<noteq> []"
    using sep cs by auto
  define ks1 where "ks1 = map first_key (tl ?cs)"
  define cs1 where "cs1 = ?cs"
  have r: "r = (if length ks < internal_max_keys then Same (Nd i cs1 ks1)
      else Split (Nd i (take (Suc ?k) cs1) (take ?k ks1)) (ks1 ! ?k) (Nd (of_nat n) (drop (Suc ?k) cs1) (drop (Suc ?k) ks1)))"
    unfolding r_def node_add_def Let_def j ks' cs' cs1_def ks1_def by simp
  have len: "Suc ?k < length cs1" if "\<not> length ks < internal_max_keys"
    using that ks cs by (simp add: cs1_def layout_values)
  note cut = cut_node [of ks1 cs1 ?k, OF _ sep' [folded cs1_def] len, OF ks1_def [folded cs1_def]]
  show "result_cells r = concat (map cells_of ?cs)" "result_leaves r = concat (map leaves ?cs)"
    unfolding r cs1_def [symmetric] by (simp_all add: concat_map_split)
  show "list_all separated (result_trees r)" "good_split r"
    using cut sep' by (auto simp: r ks1_def cs1_def [symmetric] simp del: cells_of_simps)
qed

section \<open>Inserting a new key\<close>

lemma first_key_update:
  assumes "xs \<noteq> [] \<Longrightarrow> first_key c' = first_key c"
  shows "map first_key (tl (xs @ c' # ys)) = map first_key (tl (xs @ c # ys))"
  using assms by (cases xs) auto

lemma first_key_insert:
  assumes "cells_of c \<noteq> []" "sint (first_key c) < sint key" "cells_of c' \<noteq> []"
    and "cells_of c' @ ds = cell_insert key row (cells_of c)"
  shows "first_key c' = first_key c"
proof -
  have "hd (cells_of c') = hd (cells_of c' @ ds)" using assms(3) by simp
  also have "\<dots> = hd (cells_of c)" using assms by (simp add: first_key_def hd_cell_insert)
  finally show ?thesis by (simp add: first_key_def)
qed

definition inserted :: "i64 \<Rightarrow> byte list \<Rightarrow> bt \<Rightarrow> ires \<Rightarrow> (u32 \<times> cell list) list \<Rightarrow> bool" where
  "inserted key row t r repl \<longleftrightarrow>
     result_cells r = cell_insert key row (cells_of t) \<and> list_all separated (result_trees r) \<and> good_split r \<and>
     result_leaves r = splice (bt_page (leaf_at key t)) repl (leaves t)"

lemma leaf_inserted:
  assumes "cell_cost (key, row) \<le> leaf_capacity"
  shows "inserted key row (Lf i cells) (fst (ains key row n (Lf i cells)))
    (result_leaves (fst (ains key row n (Lf i cells))))"
proof (cases "cells_cost (cell_insert key row cells) \<le> leaf_capacity")
  case True
  then show ?thesis by (simp add: inserted_def Let_def)
next
  case False
  let ?all = "cell_insert key row cells"
  have "cells \<noteq> []" using False assms by auto
  then have two: "2 \<le> length ?all" by (cases cells) auto
  have lc: "0 < split_point ?all" "split_point ?all < length ?all"
    using split_point_bounds [OF two] by auto
  have "first_key (Lf (of_nat n) (drop (split_point ?all) ?all)) = fst (?all ! split_point ?all)"
    using lc(2) by (simp add: first_key_def hd_drop_conv_nth)
  then show ?thesis
    using False lc by (simp add: inserted_def Let_def del: cell_insert_simps(1))
qed

lemma separated_children:
  assumes "separated (Nd i (xs @ c # ys) ks)" "cells_sorted (cells_of (Nd i (xs @ c # ys) ks))"
    and "key \<notin> fst ` set (cells_of (Nd i (xs @ c # ys) ks))" "distinct (map fst (leaves (Nd i (xs @ c # ys) ks)))"
  shows "separated c" "cells_sorted (cells_of c)" "key \<notin> fst ` set (cells_of c)" "distinct (map fst (leaves c))" "cells_of c \<noteq> []"
  using assms by auto

text \<open>What a child became, and where, makes what the node becomes.\<close>

lemma inserted_ascend:
  assumes nd: "length cs = Suc (length ks)" "length ks \<le> internal_max_keys" and cs: "cs = xs @ c # ys" "child_index key ks = length xs"
    and node: "separated (Nd i cs ks)" "cells_sorted (cells_of (Nd i cs ks))" "key \<notin> fst ` set (cells_of (Nd i cs ks))"
    and r: "ains key row n c = (r, n')" and child: "inserted key row c r repl"
    and leaf: "bt_page (leaf_at key c) = j" "leaf_at key (Nd i cs ks) = leaf_at key c"
    and mid: "xs \<noteq> [] \<Longrightarrow> sint (first_key c) < sint key"
    and cells: "concat (map cells_of xs) @ cell_insert key row (cells_of c) @ concat (map cells_of ys) = cell_insert key row (cells_of (Nd i cs ks))"
    and lvs: "concat (map leaves xs) @ splice j repl (leaves c) @ concat (map leaves ys) = splice j repl (leaves (Nd i cs ks))"
  shows "inserted key row (Nd i cs ks) (fst (ains key row n (Nd i cs ks))) repl"
proof -
  have upd: "cs[child_index key ks := d] = xs @ d # ys" for d by (simp add: cs)
  have r': "ains key row n (cs ! child_index key ks) = (r, n')" using r by (simp add: cs)
  have seps: "list_all separated xs" "list_all separated ys" "\<forall>a \<in> set xs \<union> set ys. cells_of a \<noteq> []" "cells_of c \<noteq> []"
    and ks: "ks = map first_key (tl (xs @ c # ys))"
    using node(1) by (auto simp: cs)
  note first = first_key_insert [OF seps(4) mid]
  show ?thesis
  proof (cases r)
    case (Same c')
    have c': "cells_of c' = cell_insert key row (cells_of c)" "separated c'" "leaves c' = splice j repl (leaves c)"
      using child Same leaf(1) by (simp_all add: inserted_def)
    have "first_key c' = first_key c" if "xs \<noteq> []"
      by (rule first [OF that, of _ "[]"]) (simp_all add: c')
    then show ?thesis
      unfolding ains_Nd [OF nd(1) r'] upd inserted_def leaf
      using Same c' cells lvs seps ks first_key_update [of xs c' c ys] by simp
  next
    case (Split l m t')
    have s: "cells_of l @ cells_of t' = cell_insert key row (cells_of c)" "separated l" "separated t'"
      "cells_of l \<noteq> []" "cells_of t' \<noteq> []" "m = first_key t'" "leaves l @ leaves t' = splice j repl (leaves c)"
      using child Split leaf(1) by (simp_all add: inserted_def)
    have ks': "ks = map first_key (tl (xs @ l # ys))"
      using ks first_key_update [of xs l c ys] first [OF _ s(4,1)] by simp
    have all: "concat (map cells_of (xs @ l # t' # ys)) = cell_insert key row (cells_of (Nd i cs ks))"
      using cells by (simp flip: s(1))
    have sorted: "cells_sorted (concat (map cells_of (xs @ l # t' # ys)))"
      unfolding all using node(2,3) by (rule cells_sorted_insert)
    have lvs': "concat (map leaves (xs @ l # t' # ys)) = splice j repl (leaves (Nd i cs ks))"
      using lvs by (simp flip: s(7))
    show ?thesis
      unfolding ains_Nd [OF nd(1) r'] upd inserted_def leaf
      using Split node_add_ordered [OF refl ks' nd(2) _ _ sorted refl, of i n'] s seps all lvs' by simp
  qed
qed

lemma ains_inserted:
  assumes "shape t"
  shows "separated t \<Longrightarrow> cells_sorted (cells_of t) \<Longrightarrow> key \<notin> fst ` set (cells_of t) \<Longrightarrow>
    distinct (map fst (leaves t)) \<Longrightarrow> cell_cost (key, row) \<le> leaf_capacity \<Longrightarrow>
    inserted key row t (fst (ains key row n t)) (result_leaves (fst (ains key row n (leaf_at key t))))"
  using assms
proof (induction t rule: descent_induct [where key = key])
  case (Lf i cells)
  then show ?case using leaf_inserted by simp
next
  case (Nd i cs ks)
  obtain xs c ys where cs: "cs = xs @ c # ys" and idx: "length xs = child_index key ks"
    and low: "\<forall>a \<in> set (concat (map cells_of xs)). sint (fst a) < sint key"
    and high: "concat (map cells_of ys) \<noteq> [] \<Longrightarrow> \<not> sint (fst (hd (concat (map cells_of ys)))) < sint key"
    and mid: "xs \<noteq> [] \<Longrightarrow> sint (first_key c) < sint key"
    using descent_split [OF Nd(1,6,7)] by blast
  have c: "cs ! child_index key ks = c" by (simp add: cs flip: idx)
  note child = separated_children [OF Nd(6-9) [unfolded cs]]
  obtain r n' where r: "ains key row n c = (r, n')" by force
  have IH: "inserted key row c r (result_leaves (fst (ains key row n (leaf_at key c))))"
    using Nd(5) r child Nd(10) by (simp add: c)
  have leaf: "leaf_at key (Nd i cs ks) = leaf_at key c" using Nd(1) c by simp
  obtain j d where lf: "leaf_at key c = Lf j d" "(j, d) \<in> set (leaves c)"
    using leaf_at_Lf Nd(4) c by blast
  have disj: "j \<notin> fst ` set (concat (map leaves xs))" "j \<notin> fst ` set (concat (map leaves ys))"
    using Nd(9) imageI [OF lf(2), of fst] unfolding cs leaves.simps by (auto simp del: set_concat)
  show ?case unfolding leaf
  proof (rule inserted_ascend [OF Nd(1,2) cs idx [symmetric] Nd(6-8) r IH _ leaf mid])
    show "bt_page (leaf_at key c) = j" by (simp add: lf)
    show "concat (map cells_of xs) @ cell_insert key row (cells_of c) @ concat (map cells_of ys) = cell_insert key row (cells_of (Nd i cs ks))"
      using cell_insert_skip [OF low] cell_insert_before [OF high] by (simp add: cs)
    show "concat (map leaves xs) @ splice j repl (leaves c) @ concat (map leaves ys) = splice j repl (leaves (Nd i cs ks))" for repl
      using disj by (simp add: cs splice_notin)
  qed
qed

end
