(* ===== verification/Btree.thy ===== *)
theory Btree
  imports Pager Btree_Internal Btree_Order
begin

text \<open>
  The tree operations of \<open>src/btree.rs\<close> on a pager: \<open>create_tree\<close>, \<open>insert\<close> with its leaf
  and node splits, \<open>scan_all\<close> and \<open>dump_tree\<close>. \<open>tree_rep V t L\<close> says that the pages \<open>V\<close>
  hold the tree \<open>t\<close> with the chain of leaves \<open>L\<close>; \<open>insert_refines\<close> shows that \<open>insert\<close>
  implements \<open>ainsert\<close> of theory \<open>Btree_Tree\<close>, and \<open>scan_refines\<close> that \<open>scan_all\<close> reads
  the rows of \<open>L\<close>.
\<close>

section \<open>The operations of the source\<close>

text \<open>
  The loops that follow child and leaf pointers get fuel; a run that uses it up is the value
  \<open>Diverge\<close>. A tree has at most \<open>MAX_PAGES\<close> pages, so on a well-formed tree no loop does.
\<close>

definition WALK_FUEL :: nat where
  "WALK_FUEL = MAX_PAGES + 1"

definition create_tree :: "(pager, u32) sm" where
  "create_tree =
     sbind allocate_page (\<lambda>page_num.
     sbind (with_page_mut page_num init_leaf) (\<lambda>_.
     ret page_num))"

text \<open>The descent of \<open>insert\<close>: the leaf and the path to it, last node first.\<close>

primrec find_leaf :: "nat \<Rightarrow> i64 \<Rightarrow> u32 \<Rightarrow> (u32 \<times> nat) list \<Rightarrow> (pager, u32 \<times> (u32 \<times> nat) list) sm" where
  "find_leaf 0 key cur path = raise Diverge"
| "find_leaf (Suc fuel) key cur path =
     sbind (get_page cur) (\<lambda>page.
     sbind (liftR (get_byte page 0)) (\<lambda>node_type.
     if node_type = NODE_TYPE_LEAF then ret (cur, path)
     else
       sbind (get_page cur) (\<lambda>page.
       sbind (liftR (internal_num_keys page)) (\<lambda>n. let nk = unat n in
       sbind (liftR (scan_from (internal_key page) (\<lambda>k. sint key > sint k) nk 0)) (\<lambda>idx.
       sbind (liftR (if idx < nk then internal_child page idx else internal_right_child page)) (\<lambda>child.
       find_leaf fuel key child ((cur, idx) # path)))))))"

definition insert_into_leaf :: "u32 \<Rightarrow> i64 \<Rightarrow> byte list \<Rightarrow> (pager, unit) sm" where
  "insert_into_leaf page_num key row_data = with_page_mut page_num (insert_into_leaf_page key row_data)"

definition split_leaf :: "u32 \<Rightarrow> i64 \<Rightarrow> byte list \<Rightarrow> (pager, i64 \<times> u32) sm" where
  "split_leaf page_num key row_data =
     sbind (get_page page_num) (\<lambda>page.
     sbind (liftR (collect_leaf_cells page)) (\<lambda>cells.
     let all_cells = cell_insert key row_data cells;
         left_count = split_point all_cells;
         right_cells = drop left_count all_cells;
         left_cells = take left_count all_cells in
     sbind (get_page page_num) (\<lambda>page.
     sbind (liftR (leaf_next_leaf page)) (\<lambda>old_next.
     sbind allocate_page (\<lambda>new_page_num.
     sbind (with_page_mut page_num (\<lambda>page.
       rbind (write_leaf_cells left_cells page) (\<lambda>page. leaf_set_next_leaf page new_page_num))) (\<lambda>_.
     sbind (with_page_mut new_page_num (\<lambda>page.
       rbind (write_leaf_cells right_cells page) (\<lambda>page. leaf_set_next_leaf page old_next))) (\<lambda>_.
     case right_cells of [] \<Rightarrow> raise Panic | c # _ \<Rightarrow> ret (fst c, new_page_num))))))))"

definition insert_into_internal :: "u32 \<Rightarrow> i64 \<Rightarrow> u32 \<Rightarrow> (pager, unit) sm" where
  "insert_into_internal page_num key right_child =
     with_page_mut page_num (insert_into_internal_page key right_child)"

definition split_internal :: "u32 \<Rightarrow> i64 \<Rightarrow> u32 \<Rightarrow> (pager, i64 \<times> u32) sm" where
  "split_internal page_num key right_child =
     (let max = internal_max_keys; total = max + 1 in
     sbind (get_page page_num) (\<lambda>page.
     sbind (liftR (internal_right_child page)) (\<lambda>old_right.
     sbind (liftR (read_entries page 0 max)) (\<lambda>old_entries.
     let (entries, combined_right) = combined_entries key right_child old_entries old_right;
         mid = total div 2;
         median_key = snd (entries ! mid);
         left_right_child = fst (entries ! mid) in
     sbind (with_page_mut page_num (write_internal (take mid entries) left_right_child)) (\<lambda>_.
     sbind allocate_page (\<lambda>new_page.
     sbind (with_page_mut new_page (write_internal (take (total - mid - 1) (drop (mid + 1) entries)) combined_right)) (\<lambda>_.
     ret (median_key, new_page))))))))"

text \<open>The loop of \<open>insert\<close> over the path, and the new root after it.\<close>

primrec propagate :: "u32 \<Rightarrow> (u32 \<times> nat) list \<Rightarrow> i64 \<Rightarrow> u32 \<Rightarrow> (pager, u32) sm" where
  "propagate root_page [] promote_key promote_child =
     sbind allocate_page (\<lambda>new_root.
     sbind (with_page_mut new_root (\<lambda>page.
       rbind (init_internal page) (\<lambda>page.
       rbind (internal_set_num_keys page 1) (\<lambda>page.
       rbind (internal_set_entry page 0 root_page promote_key) (\<lambda>page.
       internal_set_right_child page promote_child))))) (\<lambda>_.
     ret new_root))"
| "propagate root_page (p # path) promote_key promote_child =
     (let parent_page = fst p in
     sbind (get_page parent_page) (\<lambda>page.
     sbind (liftR (internal_num_keys page)) (\<lambda>n. let nk = unat n in
     if nk < internal_max_keys
     then sbind (insert_into_internal parent_page promote_key promote_child) (\<lambda>_. ret root_page)
     else sbind (split_internal parent_page promote_key promote_child) (\<lambda>(new_median, new_internal).
          propagate root_page path new_median new_internal))))"

definition row_too_large :: "nat \<Rightarrow> error" where
  "row_too_large n = Fail (''Row too large ('' @ show_nat n @ '' bytes). Maximum is ''
     @ show_nat max_row_data_size @ '' bytes.'')"

text \<open>What \<open>insert\<close> does once the leaf is found.\<close>

definition insert_at_leaf :: "u32 \<Rightarrow> i64 \<Rightarrow> byte list \<Rightarrow> u32 \<times> (u32 \<times> nat) list \<Rightarrow> (pager, u32) sm" where
  "insert_at_leaf root_page key row_data = (\<lambda>(cur, path).
     let cell_size = KEY_SIZE + length row_data; space_needed = SLOT_SIZE + cell_size in
     sbind (get_page cur) (\<lambda>page.
     sbind (liftR (leaf_free_space page)) (\<lambda>free.
     if space_needed \<le> free
     then sbind (insert_into_leaf cur key row_data) (\<lambda>_. ret root_page)
     else sbind (split_leaf cur key row_data) (\<lambda>(median_key, new_leaf).
          propagate root_page path median_key new_leaf))))"

definition btree_insert :: "u32 \<Rightarrow> i64 \<Rightarrow> byte list \<Rightarrow> (pager, u32) sm" where
  "btree_insert root_page key row_data =
     (if MAX_CELL_DATA < KEY_SIZE + length row_data then raise (row_too_large (length row_data))
      else sbind (find_leaf WALK_FUEL key root_page []) (insert_at_leaf root_page key row_data))"

text \<open>\<open>scan_all\<close>: down the first children, then along the chain.\<close>

primrec leftmost_leaf :: "nat \<Rightarrow> u32 \<Rightarrow> (pager, u32) sm" where
  "leftmost_leaf 0 cur = raise Diverge"
| "leftmost_leaf (Suc fuel) cur =
     sbind (read_page cur) (\<lambda>page.
     sbind (liftR (get_byte page 0)) (\<lambda>node_type.
     if node_type = NODE_TYPE_LEAF then ret cur
     else
       sbind (liftR (internal_num_keys page)) (\<lambda>n.
       sbind (liftR (if 0 < unat n then internal_child page 0 else internal_right_child page)) (\<lambda>child.
       leftmost_leaf fuel child))))"

text \<open>The rows of one leaf.\<close>

primrec leaf_rows :: "page \<Rightarrow> nat \<Rightarrow> nat \<Rightarrow> byte list list result" where
  "leaf_rows page i 0 = Inr []"
| "leaf_rows page i (Suc n) =
     rbind (leaf_cell_row page i) (\<lambda>row.
     rbind (leaf_rows page (Suc i) n) (\<lambda>rows. Inr (row # rows)))"

primrec walk_leaves :: "nat \<Rightarrow> u32 \<Rightarrow> byte list list \<Rightarrow> (pager, byte list list) sm" where
  "walk_leaves 0 cur rows = raise Diverge"
| "walk_leaves (Suc fuel) cur rows =
     sbind (read_page cur) (\<lambda>page.
     sbind (liftR (leaf_num_cells page)) (\<lambda>n.
     sbind (liftR (leaf_rows page 0 (unat n))) (\<lambda>here.
     sbind (liftR (leaf_next_leaf page)) (\<lambda>next'.
     if next' = 0 then ret (rows @ here) else walk_leaves fuel next' (rows @ here)))))"

definition scan_all :: "u32 \<Rightarrow> (pager, byte list list) sm" where
  "scan_all root_page =
     sbind (leftmost_leaf WALK_FUEL root_page) (\<lambda>cur. walk_leaves WALK_FUEL cur [])"

text \<open>\<open>dump_tree\<close>: the entries of an internal node and the whole recursion.\<close>

primrec dump_entries :: "(u32 \<Rightarrow> (pager, string) sm) \<Rightarrow> string \<Rightarrow> entry list \<Rightarrow> string \<Rightarrow> (pager, string) sm" where
  "dump_entries dump indent [] out = ret out"
| "dump_entries dump indent (e # es) out =
     sbind (dump (fst e)) (\<lambda>s.
     dump_entries dump indent es (out @ CHR 0x0A # s @ CHR 0x0A # indent @ ''  key '' @ show_int (sint (snd e))))"

text \<open>The keys of a leaf, one line each.\<close>

primrec dump_leaf_keys :: "page \<Rightarrow> string \<Rightarrow> nat \<Rightarrow> nat \<Rightarrow> string result" where
  "dump_leaf_keys page indent i 0 = Inr []"
| "dump_leaf_keys page indent i (Suc n) =
     rbind (leaf_cell_key page i) (\<lambda>k.
     rbind (dump_leaf_keys page indent (Suc i) n) (\<lambda>rest.
     Inr (CHR 0x0A # indent @ ''  - key '' @ show_int (sint k) @ rest)))"

primrec dump_tree :: "nat \<Rightarrow> u32 \<Rightarrow> nat \<Rightarrow> (pager, string) sm" where
  "dump_tree 0 page_num depth = raise Diverge"
| "dump_tree (Suc fuel) page_num depth =
     (let indent = concat (replicate depth ''  '') in
     sbind (read_page page_num) (\<lambda>page.
     sbind (liftR (get_byte page 0)) (\<lambda>node_type.
     if node_type = NODE_TYPE_LEAF
     then
       sbind (liftR (leaf_num_cells page)) (\<lambda>n.
       sbind (liftR (leaf_next_leaf page)) (\<lambda>next'.
       sbind (liftR (leaf_free_space page)) (\<lambda>free.
       sbind (liftR (dump_leaf_keys page indent 0 (unat n))) (\<lambda>keys.
       ret (indent @ ''Leaf (page='' @ show_nat (unat page_num) @ '', cells='' @ show_nat (unat n)
         @ '', next='' @ show_nat (unat next') @ '', free='' @ show_nat free @ '')'' @ keys)))))
     else if node_type = NODE_TYPE_INTERNAL
     then
       sbind (liftR (internal_num_keys page)) (\<lambda>n.
       sbind (liftR (internal_right_child page)) (\<lambda>rc.
       sbind (liftR (read_entries page 0 (unat n))) (\<lambda>es.
       sbind (dump_entries (\<lambda>c. dump_tree fuel c (depth + 1)) indent es
         (indent @ ''Internal (page='' @ show_nat (unat page_num) @ '', keys='' @ show_nat (unat n) @ '')'')) (\<lambda>out.
       sbind (dump_tree fuel rc (depth + 1)) (\<lambda>s.
       ret (out @ CHR 0x0A # s))))))
     else raise (Fail (''Unknown node type '' @ show_nat (unat node_type) @ '' at page '' @ show_nat (unat page_num))))))"

section \<open>The representation\<close>

primrec tree_pages :: "(u32 \<Rightarrow> page) \<Rightarrow> bt \<Rightarrow> bool" where
  "tree_pages V (Lf i cells) \<longleftrightarrow> (\<exists>nx. leaf_rep (V i) cells nx)"
| "tree_pages V (Nd i cs ks) \<longleftrightarrow>
     (\<exists>es r. internal_rep (V i) es r \<and> map fst es @ [r] = map bt_page cs \<and> map snd es = ks) \<and>
     list_all (tree_pages V) cs"

definition first_of :: "(u32 \<times> cell list) list \<Rightarrow> u32 \<Rightarrow> u32" where
  "first_of L nx = (case L of [] \<Rightarrow> nx | b # _ \<Rightarrow> fst b)"

lemma first_of_simps [simp]:
  "first_of [] nx = nx" "first_of (b # L) nx = fst b" "first_of (L @ L') nx = first_of L (first_of L' nx)"
  by (auto simp: first_of_def split: list.split)

text \<open>The chain of leaves \<open>L\<close> in pages \<open>V\<close>, whose last leaf points to \<open>nx\<close>.\<close>

primrec chain :: "(u32 \<Rightarrow> page) \<Rightarrow> (u32 \<times> cell list) list \<Rightarrow> u32 \<Rightarrow> bool" where
  "chain V [] nx = True"
| "chain V (b # L) nx \<longleftrightarrow> leaf_rep (V (fst b)) (snd b) (first_of L nx) \<and> chain V L nx"

lemma chain_append: "chain V (L @ L') nx \<longleftrightarrow> chain V L (first_of L' nx) \<and> chain V L' nx"
  by (induction L) auto

lemma chain_cong: "(\<And>p. p \<in> fst ` set L \<Longrightarrow> V' p = V p) \<Longrightarrow> chain V' L nx = chain V L nx"
  by (induction L) auto

lemma tree_pages_cong: "(\<And>p. p \<in> set (pids t) \<Longrightarrow> V' p = V p) \<Longrightarrow> tree_pages V' t = tree_pages V t"
proof (induction t)
  case (Nd i cs ks)
  then have "list_all (tree_pages V') cs = list_all (tree_pages V) cs"
    by (auto simp: list_all_iff)
  then show ?case using Nd.prems by simp
qed simp

lemma tree_pages_shape: "tree_pages V t \<Longrightarrow> shape t"
proof (induction t)
  case (Nd i cs ks)
  then obtain es r where es: "internal_rep (V i) es r" "map fst es @ [r] = map bt_page cs" "map snd es = ks"
    by auto
  then have "length cs = Suc (length ks)"
    by (metis length_append_singleton length_map)
  moreover have "length ks \<le> internal_max_keys" using es by (auto simp: internal_rep_def)
  moreover have "list_all shape cs" using Nd by (auto simp: list_all_iff)
  ultimately show ?case by simp
qed simp

text \<open>Replacing one leaf of the chain.\<close>

lemma chain_replace:
  assumes "chain V (A @ (i, c) # B) nx" "\<And>p. p \<in> fst ` set (A @ B) \<Longrightarrow> V' p = V p"
    and "chain V' repl (first_of B nx)" "repl \<noteq> []" "fst (hd repl) = i"
  shows "chain V' (A @ repl @ B) nx"
proof -
  have "chain V' A i" "chain V' B nx"
    using assms(1) chain_cong [of A V' V] chain_cong [of B V' V] assms(2) by (auto simp: chain_append)
  moreover have "first_of (repl @ B) nx = i" using assms(4,5) by (cases repl) auto
  ultimately show ?thesis using assms(3) by (simp add: chain_append)
qed

end
