(* ===== verification/Btree_Refine.thy ===== *)
theory Btree_Refine
  imports Btree
begin

text \<open>
  \<open>btree_insert\<close> implements \<open>ainsert\<close>. The proof follows the descent: the continuation of
  \<open>find_leaf\<close> at a subtree is either the return of \<open>insert\<close> or \<open>propagate\<close> on the rest of
  the path, and \<open>insert_post\<close> says what the pages hold at that point.
\<close>

section \<open>The state after a subtree is done\<close>

definition continue :: "ires \<Rightarrow> u32 \<Rightarrow> (u32 \<times> nat) list \<Rightarrow> (u32 \<Rightarrow> pager \<Rightarrow> bool) \<Rightarrow> pager \<Rightarrow> bool" where
  "continue r root path Q s =
     (case r of Same t \<Rightarrow> Q root s | Split l m t \<Rightarrow> ok (propagate root path m (bt_page t)) s Q)"

definition insert_post ::
  "(u32 \<Rightarrow> page) \<Rightarrow> nat \<Rightarrow> (u32 \<times> cell list) list \<Rightarrow> i64 \<Rightarrow> byte list \<Rightarrow> bt \<Rightarrow> (u32 \<Rightarrow> page) \<Rightarrow> bool" where
  "insert_post V n L key row t V' \<longleftrightarrow>
     (\<forall>p. p \<notin> set (pids t) \<longrightarrow> unat p < n \<longrightarrow> V' p = V p) \<and>
     list_all (tree_pages V') (result_trees (fst (ains key row n t))) \<and>
     chain V' (splice (bt_page (leaf_at key t)) (result_leaves (fst (ains key row n (leaf_at key t)))) L) 0"

definition leaf_fits :: "i64 \<Rightarrow> byte list \<Rightarrow> bt \<Rightarrow> bool" where
  "leaf_fits key row t = (case t of Lf i cells \<Rightarrow>
     cells_cost (cell_insert key row cells) \<le> leaf_capacity \<or> halves_fit (cell_insert key row cells)
   | Nd i cs ks \<Rightarrow> False)"

lemma write_half_ok:
  assumes "length p = PAGE_SIZE" "cells_cost cells \<le> leaf_capacity"
  shows "\<exists>p'. rbind (write_leaf_cells cells p) (\<lambda>p. leaf_set_next_leaf p nx) = Inr p' \<and> leaf_rep p' cells nx"
proof -
  obtain q where q: "write_leaf_cells cells p = Inr q" "leaf_rep q cells 0"
    using write_leaf_cells_ok [OF assms] by blast
  then show ?thesis using leaf_set_next_leaf_ok [of q cells 0 nx] by auto
qed

text \<open>\<open>split_leaf\<close> replaces the leaf by its two halves.\<close>

lemma split_leaf_ok:
  assumes st: "pg.st pg0 s V n" "n < MAX_PAGES" and i: "unat i < n" "leaf_rep (V i) cells nx"
    and fit: "halves_fit (cell_insert key row cells)"
    and Q: "\<And>s' p q. pg.st pg0 s' (V(i := p, of_nat n := q)) (Suc n) \<Longrightarrow>
      leaf_rep p (take (split_point (cell_insert key row cells)) (cell_insert key row cells)) (of_nat n) \<Longrightarrow>
      leaf_rep q (drop (split_point (cell_insert key row cells)) (cell_insert key row cells)) nx \<Longrightarrow>
      Q (fst (cell_insert key row cells ! split_point (cell_insert key row cells)), of_nat n) s'"
  shows "ok (split_leaf i key row) s Q"
proof -
  define all_cells lc where "all_cells = cell_insert key row cells" and "lc = split_point all_cells"
  have i': "unat i < MAX_PAGES" using st i by simp
  have lc: "lc < length all_cells" "cells_cost (take lc all_cells) \<le> leaf_capacity" "cells_cost (drop lc all_cells) \<le> leaf_capacity"
    using fit split_point_bounds(2) [of all_cells] by (simp_all add: halves_fit_def all_cells_def lc_def)
  obtain c rest where right: "drop lc all_cells = c # rest" using lc(1) by (cases "drop lc all_cells") auto
  then have c: "all_cells ! lc = c" using lc(1) by (metis Cons_nth_drop_Suc list.inject)
  obtain p where p: "rbind (write_leaf_cells (take lc all_cells) (V i)) (\<lambda>p. leaf_set_next_leaf p (of_nat n)) = Inr p"
      "leaf_rep p (take lc all_cells) (of_nat n)"
    using write_half_ok [OF pg.st_length [OF st(1)] lc(2)] by blast
  obtain q where q: "rbind (write_leaf_cells (c # rest) (V (of_nat n))) (\<lambda>p. leaf_set_next_leaf p nx) = Inr q"
      "leaf_rep q (c # rest) nx"
    using write_half_ok [OF pg.st_length [OF st(1)] lc(3)] right by auto
  let ?Q = "\<lambda>r s'. r = (fst c, of_nat n) \<and> pg.st pg0 s' (V(i := p, of_nat n := q)) (Suc n)"
  have "ok (split_leaf i key row) s ?Q"
    unfolding split_leaf_def ok_simps
  proof (rule pg.rd_ok [OF st(1) i'], simp only: collect_leaf_cells_ok [OF i(2)] ok_simps Let_def
      all_cells_def [symmetric] lc_def [symmetric], rule pg.rd_ok [OF _ i'], assumption,
      simp only: leaf_rep_next [OF i(2)] ok_simps right list.case)
    fix s1 assume s1: "pg.st pg0 s1 V n"
    show "ok allocate_page s1 (\<lambda>j s'. ok (with_page_mut i (\<lambda>page. rbind (write_leaf_cells (take lc all_cells) page)
        (\<lambda>page. leaf_set_next_leaf page j))) s' (\<lambda>_ s'. ok (with_page_mut j (\<lambda>page.
        rbind (write_leaf_cells (c # rest) page) (\<lambda>page. leaf_set_next_leaf page nx))) s' (\<lambda>_. ?Q (fst c, j))))"
      by (rule pg.split_pages_ok [where V = V and i = i and h = "\<lambda>j. (fst c, j)" and Q = ?Q and p = p and q = q
            and f = "\<lambda>j page. rbind (write_leaf_cells (take lc all_cells) page) (\<lambda>page. leaf_set_next_leaf page j)"
            and g = "\<lambda>page. rbind (write_leaf_cells (c # rest) page) (\<lambda>page. leaf_set_next_leaf page nx)",
            unfolded ok_simps, OF s1 st(2) i(1) p(1) leaf_rep_length [OF p(2)] q(1) leaf_rep_length [OF q(2)]]) simp
  qed
  then show ?thesis
    by (rule ok_mono) (use Q [of _ p q] p q right c in \<open>auto simp: all_cells_def lc_def\<close>)
qed

text \<open>The leaf that the descent reached has room or not.\<close>

lemma insert_at_leaf_read:
  assumes st: "pg.st pg0 s V n" "unat i < MAX_PAGES" and leaf: "leaf_rep (V i) cells nx"
    and branches: "\<And>s1. pg.st pg0 s1 V n \<Longrightarrow> cells_cost (cell_insert key row cells) \<le> leaf_capacity \<Longrightarrow>
        ok (insert_into_leaf i key row) s1 (\<lambda>_ s'. Q root s')"
      "\<And>s1. pg.st pg0 s1 V n \<Longrightarrow> \<not> cells_cost (cell_insert key row cells) \<le> leaf_capacity \<Longrightarrow>
        ok (split_leaf i key row) s1 (\<lambda>x s'. ok (propagate root path (fst x) (snd x)) s' Q)"
  shows "ok (insert_at_leaf root key row (i, path)) s Q"
proof -
  let ?all = "cell_insert key row cells"
  have free: "leaf_free_space (V i) = Inr (leaf_capacity - cells_cost cells)"
    by (rule leaf_rep_free [OF leaf])
  have room: "SLOT_SIZE + (KEY_SIZE + length row) \<le> leaf_capacity - cells_cost cells \<longleftrightarrow> cells_cost ?all \<le> leaf_capacity"
    using leaf_rep_cost [OF leaf] by (auto simp: cell_cost_def)
  have "ok (if cells_cost ?all \<le> leaf_capacity
      then sbind (insert_into_leaf i key row) (\<lambda>_. ret root)
      else sbind (split_leaf i key row) (\<lambda>(m, j). propagate root path m j)) s1 Q" if "pg.st pg0 s1 V n" for s1
    using branches [OF that] by (simp add: ok_bind ok_ret case_prod_beta)
  note next_step = this
  show ?thesis
    unfolding insert_at_leaf_def prod.case Let_def ok_bind [of "get_page i"]
    by (rule pg.rd_ok [OF st]) (simp only: free ok_bind [of "liftR _"] ok_liftR room next_step)
qed

lemma leaf_in_chain:
  assumes L: "chain V L 0" "(i, cells) \<in> set L" "distinct (map fst L)" "\<forall>p \<in> fst ` set L. unat p < n"
    and n: "unat (of_nat n :: u32) = n"
  obtains A B where "L = A @ (i, cells) # B" "splice i repl L = A @ repl @ B" "leaf_rep (V i) cells (first_of B 0)"
    "\<forall>p \<in> fst ` set (A @ B). p \<noteq> i \<and> p \<noteq> of_nat n"
proof -
  obtain A B where AB: "L = A @ (i, cells) # B" "splice i repl L = A @ repl @ B" "i \<notin> fst ` set A" "i \<notin> fst ` set B"
    by (rule splice_at [OF L(3,2)])
  have "p \<noteq> i \<and> p \<noteq> of_nat n" if p: "p \<in> fst ` set (A @ B)" for p
  proof -
    have "unat p < n" using L(4) p unfolding AB(1) by auto
    then show ?thesis using AB(3,4) p n by auto
  qed
  moreover have "leaf_rep (V i) cells (first_of B 0)" using L(1) AB(1) by (simp add: chain_append)
  ultimately show ?thesis using AB(1,2) by (intro that) blast+
qed

lemma insert_at_leaf_ok:
  assumes st: "pg.st pg0 s V n" "n < MAX_PAGES \<or> cells_cost (cell_insert key row cells) \<le> leaf_capacity" "n \<le> MAX_PAGES"
    and L: "chain V L 0" "(i, cells) \<in> set L" "distinct (map fst L)" "\<forall>p \<in> fst ` set L. unat p < n"
    and fits: "leaf_fits key row (Lf i cells)"
    and Q: "\<And>s' V'. pg.st pg0 s' V' (snd (ains key row n (Lf i cells))) \<Longrightarrow> insert_post V n L key row (Lf i cells) V' \<Longrightarrow>
      continue (fst (ains key row n (Lf i cells))) root path Q s'"
  shows "ok (insert_at_leaf root key row (i, path)) s Q"
proof -
  let ?all = "cell_insert key row cells" and ?t = "Lf i cells"
  have i: "unat i < n" using L(2,4) by force
  then have i': "unat i < MAX_PAGES" using st(3) by simp
  define r n' where "r = fst (ains key row n ?t)" and "n' = snd (ains key row n ?t)"
  have un: "unat (of_nat n :: u32) = n"
    using st(3) by (simp add: unat_of_nat_u32 MAX_PAGES_def)
  obtain A B where AB: "L = A @ (i, cells) # B" "splice i (result_leaves r) L = A @ result_leaves r @ B"
    and leaf: "leaf_rep (V i) cells (first_of B 0)" and others: "\<forall>p \<in> fst ` set (A @ B). p \<noteq> i \<and> p \<noteq> of_nat n"
    by (rule leaf_in_chain [OF L un])
  note new_chain = chain_replace [OF L(1) [unfolded AB(1)]]
  note post = insert_post_def leaf_at.simps bt_page.simps r_def [symmetric] AB(2)
  note Q' = Q [folded r_def n'_def]
  show ?thesis
  proof (rule insert_at_leaf_read [OF st(1) i' leaf])
    fix s1 assume s1: "pg.st pg0 s1 V n" and room: "cells_cost ?all \<le> leaf_capacity"
    then have r: "r = Same (Lf i ?all)" "n' = n" by (simp_all add: r_def n'_def Let_def)
    obtain p where p: "insert_into_leaf_page key row (V i) = Inr p" "leaf_rep p ?all (first_of B 0)"
      using insert_into_leaf_page_ok [OF leaf] room by (auto simp: cell_insert_def cell_pos_def)
    have "chain (V(i := p)) (A @ result_leaves r @ B) 0"
      by (rule new_chain) (use p others in \<open>auto simp: r\<close>)
    then have "insert_post V n L key row ?t (V(i := p))"
      unfolding post using p(2) by (auto simp: r)
    then show "ok (insert_into_leaf i key row) s1 (\<lambda>_ s'. Q root s')"
      unfolding insert_into_leaf_def
      by (intro pg.upd_ok [where f = "insert_into_leaf_page key row" and V = V and i = i, OF s1 i i' p(1) leaf_rep_length [OF p(2)]])
        (use Q' r in \<open>simp add: continue_def\<close>)
  next
    fix s1 assume s1: "pg.st pg0 s1 V n" and full: "\<not> cells_cost ?all \<le> leaf_capacity"
    let ?lc = "split_point ?all"
    have fit: "halves_fit ?all" and n: "n < MAX_PAGES" using fits st(2) full by (auto simp: leaf_fits_def)
    have r: "r = Split (Lf i (take ?lc ?all)) (fst (?all ! ?lc)) (Lf (of_nat n) (drop ?lc ?all))" "n' = Suc n"
      using full by (simp_all add: r_def n'_def Let_def del: cell_insert_simps)
    have ne: "of_nat n \<noteq> i" using i un by auto
    show "ok (split_leaf i key row) s1 (\<lambda>x s'. ok (propagate root path (fst x) (snd x)) s' Q)"
    proof (rule split_leaf_ok [OF s1 n i leaf fit], unfold fst_conv snd_conv)
      fix s' p q
      assume s': "pg.st pg0 s' (V(i := p, of_nat n := q)) (Suc n)"
        and p: "leaf_rep p (take ?lc ?all) (of_nat n)" and q: "leaf_rep q (drop ?lc ?all) (first_of B 0)"
      have "chain (V(i := p, of_nat n := q)) (A @ result_leaves r @ B) 0"
        by (rule new_chain) (use p q others ne in \<open>auto simp: r\<close>)
      then have "insert_post V n L key row ?t (V(i := p, of_nat n := q))"
        unfolding post using p q ne un by (auto simp: r(1))
      then show "ok (propagate root path (fst (?all ! ?lc)) (of_nat n)) s' Q"
        using Q' [OF s' [folded r(2)]] by (simp add: continue_def r(1))
    qed
  qed
qed

section \<open>Internal nodes\<close>

text \<open>The vector operations of \<open>split_internal\<close> as insertions into the keys and the children.\<close>

lemma combined_insert_at:
  assumes "combined_entries m rc es r = (es', r')"
  defines "j \<equiv> child_index m (map snd es)"
  shows "map snd es' = insert_at j m (map snd es)"
    and "map fst es' @ [r'] = insert_at (Suc j) rc (map fst es @ [r])"
proof -
  have j: "j = prefix_len (\<lambda>e. sint (snd e) < sint m) es"
    unfolding j_def child_index_def by (induction es) auto
  then have le: "j \<le> length es" by (simp add: prefix_len_le)
  have len: "length es' = Suc (length es)" by (rule combined_length [OF assms(1)])
  note nth = combined_nth [OF assms(1), folded j]
  show "map snd es' = insert_at j m (map snd es)"
  proof (rule nth_equalityI)
    fix k assume "k < length (map snd es')"
    then show "map snd es' ! k = insert_at j m (map snd es) ! k"
      using len le nth(1) [of k] by (auto simp: nth_insert_at)
  qed (simp add: len)
  show "map fst es' @ [r'] = insert_at (Suc j) rc (map fst es @ [r])"
  proof (rule nth_equalityI)
    fix k assume "k < length (map fst es' @ [r'])"
    then have "k \<le> Suc (length es)" using len by simp
    then show "(map fst es' @ [r']) ! k = insert_at (Suc j) rc (map fst es @ [r]) ! k"
      using len le nth(1) [of k] nth(2) [of 0]
      by (cases "k = j") (auto simp: nth_insert_at nth_append less_Suc_eq)
  qed (simp add: len)
qed

lemma split_internal_ok:
  assumes st: "pg.st pg0 s V n" "n < MAX_PAGES" and i: "unat i < n" "internal_rep (V i) es r"
    and full: "length es = internal_max_keys" and comb: "combined_entries m rc es r = (es', r')"
    and Q: "\<And>s' p q. pg.st pg0 s' (V(i := p, of_nat n := q)) (Suc n) \<Longrightarrow>
      internal_rep p (take 170 es') (fst (es' ! 170)) \<Longrightarrow> internal_rep q (drop 171 es') r' \<Longrightarrow>
      Q (snd (es' ! 170), of_nat n) s'"
  shows "ok (split_internal i m rc) s Q"
proof -
  have i': "unat i < MAX_PAGES" using st i by simp
  have un: "unat (of_nat n :: u32) = n" using pg.unat_page [OF st(2)] .
  have len: "length es' = 341" using combined_length [OF comb] full by (simp add: layout_values)
  obtain p where p: "write_internal (take 170 es') (fst (es' ! 170)) (V i) = Inr p"
      "internal_rep p (take 170 es') (fst (es' ! 170))"
    using write_internal_ok [OF pg.st_length [OF st(1), of i], of "take 170 es'" "fst (es' ! 170)"] len
    by (auto simp: layout_values)
  obtain q where q: "write_internal (drop 171 es') r' (V (of_nat n)) = Inr q" "internal_rep q (drop 171 es') r'"
    using write_internal_ok [OF pg.st_length [OF st(1), of "of_nat n"], of "drop 171 es'" r'] len
    by (auto simp: layout_values)
  have read: "read_entries (V i) 0 340 = Inr es"
    using read_entries_ok [OF i(2)] full by (simp add: layout_values)
  have take: "take 170 (drop 171 es') = drop 171 es'" using len by simp
  show ?thesis
    unfolding split_internal_def Let_def ok_bind layout_values
  proof (rule pg.rd_ok [OF st(1) i'], simp add: ok_simps internal_rep_right [OF i(2)] read comb take)
    fix s1 assume s1: "pg.st pg0 s1 V n"
    show "ok (with_page_mut i (write_internal (take 170 es') (fst (es' ! 170)))) s1
      (\<lambda>_ s'. ok allocate_page s' (\<lambda>j s'. ok (with_page_mut j (write_internal (drop 171 es') r')) s'
        (\<lambda>_. Q (snd (es' ! 170), j))))"
    proof (rule pg.upd_ok [where f = "write_internal (take 170 es') (fst (es' ! 170))" and V = V and i = i,
          OF s1 i(1) i' p(1) internal_rep_length [OF p(2)]], rule pg.alloc_ok [OF _ st(2)], assumption)
      fix s2 s3 assume s3: "pg.st pg0 s3 (V(i := p)) (Suc n)"
      have w: "write_internal (drop 171 es') r' ((V(i := p)) (of_nat n)) = Inr q"
        using q(1) i(1) un by auto
      show "ok (with_page_mut (of_nat n) (write_internal (drop 171 es') r')) s3 (\<lambda>_. Q (snd (es' ! 170), of_nat n))"
        by (rule pg.upd_ok [where f = "write_internal (drop 171 es') r'" and V = "V(i := p)" and i = "of_nat n",
            OF s3 _ _ w internal_rep_length [OF q(2)]]) (use un st(2) Q p q in auto)
    qed
  qed
qed

lemma child_pages:
  assumes "list_all (tree_pages V) cs" "\<And>c p. c \<in> set cs \<Longrightarrow> p \<in> set (pids c) \<Longrightarrow> V' p = V p"
  shows "list_all (tree_pages V') cs"
  using assms tree_pages_cong unfolding list_all_iff by blast

lemma tree_pages_Nd:
  "internal_rep (V i) es r \<Longrightarrow> map fst es @ [r] = map bt_page cs \<Longrightarrow> map snd es = ks \<Longrightarrow>
   list_all (tree_pages V) cs \<Longrightarrow> tree_pages V (Nd i cs ks)"
  unfolding tree_pages.simps by blast

text \<open>The halves of a full node.\<close>

lemma split_node_pages:
  assumes len: "length es = 341" and cs: "map fst es @ [r] = map bt_page cs" and kids: "list_all (tree_pages V) cs"
    and p: "internal_rep (V i) (take 170 es) (fst (es ! 170))" and q: "internal_rep (V j) (drop 171 es) r"
  shows "tree_pages V (Nd i (take 171 cs) (take 170 (map snd es)))" "tree_pages V (Nd j (drop 171 cs) (drop 171 (map snd es)))"
proof -
  have half: "list_all (tree_pages V) (take 171 cs)" "list_all (tree_pages V) (drop 171 cs)"
    using kids unfolding list_all_iff by (blast dest: in_set_takeD in_set_dropD)+
  have "map fst (take 170 es) @ [fst (es ! 170)] = take 171 (map fst es @ [r])"
    using len take_Suc_conv_app_nth [of 170 es] by (simp add: take_map)
  then show "tree_pages V (Nd i (take 171 cs) (take 170 (map snd es)))"
    using tree_pages_Nd [where ks = "map snd (take 170 es)", OF p _ refl half(1)] unfolding cs by (simp add: take_map)
  have "map fst (drop 171 es) @ [r] = drop 171 (map fst es @ [r])"
    using len by (simp add: drop_map)
  then show "tree_pages V (Nd j (drop 171 cs) (drop 171 (map snd es)))"
    using tree_pages_Nd [where ks = "map snd (drop 171 es)", OF q _ refl half(2)] unfolding cs by (simp add: drop_map)
qed

text \<open>One step of the loop over the path: the node is read, then has room or not.\<close>

lemma propagate_read:
  assumes st: "pg.st pg0 s V n" "unat i < MAX_PAGES" and i: "internal_rep (V i) es r"
    and branches: "\<And>s1. pg.st pg0 s1 V n \<Longrightarrow> length es < internal_max_keys \<Longrightarrow> ok (insert_into_internal i m c) s1 (\<lambda>_ s'. Q root s')"
      "\<And>s1. pg.st pg0 s1 V n \<Longrightarrow> \<not> length es < internal_max_keys \<Longrightarrow>
        ok (split_internal i m c) s1 (\<lambda>x s'. ok (propagate root path (fst x) (snd x)) s' Q)"
  shows "ok (propagate root ((i, idx) # path) m c) s Q"
proof -
  have "ok (if length es < internal_max_keys
      then sbind (insert_into_internal i m c) (\<lambda>_. ret root)
      else sbind (split_internal i m c) (\<lambda>(m, j). propagate root path m j)) s1 Q" if "pg.st pg0 s1 V n" for s1
    using branches [OF that] by (simp add: ok_bind ok_ret case_prod_beta)
  note next_step = this
  show ?thesis
    unfolding propagate.simps Let_def ok_bind [of "get_page i"] fst_conv
    by (rule pg.rd_ok [OF st])
      (simp only: ok_bind [of "liftR _"] ok_liftR internal_rep_num [OF i] next_step)
qed

lemma propagate_ok:
  assumes st: "pg.st pg0 s V n" "n \<le> MAX_PAGES" "length ks < internal_max_keys \<or> n < MAX_PAGES"
    and i: "unat i < n" "internal_rep (V i) es r" "map fst es @ [r] = map bt_page cs" "map snd es = ks"
    and kids: "list_all (tree_pages V) (t # cs)"
      "\<And>c p. c \<in> set (t # cs) \<Longrightarrow> p \<in> set (pids c) \<Longrightarrow> p \<noteq> i \<and> unat p < n"
    and Q: "\<And>s' V'. pg.st pg0 s' V' (snd (node_add i cs ks m t n)) \<Longrightarrow>
      (\<And>p. p \<noteq> i \<Longrightarrow> unat p < n \<Longrightarrow> V' p = V p) \<Longrightarrow>
      list_all (tree_pages V') (result_trees (fst (node_add i cs ks m t n))) \<Longrightarrow>
      continue (fst (node_add i cs ks m t n)) root path Q s'"
  shows "ok (propagate root ((i, idx) # path) m (bt_page t)) s Q"
proof -
  obtain es' r' where comb: "combined_entries m (bt_page t) es r = (es', r')" by force
  define j cs' ks' where "j = child_index m ks" and "cs' = insert_at (Suc j) t cs" and "ks' = insert_at j m ks"
  have ks': "map snd es' = ks'" and cs': "map fst es' @ [r'] = map bt_page cs'"
    using combined_insert_at [OF comb] i(3,4) by (simp_all add: j_def cs'_def ks'_def map_insert_at)
  have i': "unat i < MAX_PAGES" using st i by simp
  have nk: "length ks = length es" "length es \<le> internal_max_keys"
    using i(2,4) by (auto simp: internal_rep_def)
  have kids': "list_all (tree_pages V) cs'" "\<And>c p. c \<in> set cs' \<Longrightarrow> p \<in> set (pids c) \<Longrightarrow> p \<noteq> i \<and> unat p < n"
    using kids by (auto simp: cs'_def list_all_iff)
  have keep: "list_all (tree_pages V') cs'" if "\<And>p. p \<noteq> i \<Longrightarrow> unat p < n \<Longrightarrow> V' p = V p" for V'
    by (rule child_pages [OF kids'(1)]) (use kids'(2) that in blast)
  note add = node_add_def [of i cs ks m t n, unfolded Let_def, folded j_def, folded cs'_def ks'_def]
  show ?thesis
  proof (rule propagate_read [OF st(1) i' i(2)])
    fix s1 assume s1: "pg.st pg0 s1 V n" and room: "length es < internal_max_keys"
    then have a: "node_add i cs ks m t n = (Same (Nd i cs' ks'), n)" using nk by (simp add: add)
    obtain p where p: "insert_into_internal_page m (bt_page t) (V i) = Inr p" "internal_rep p es' r'"
      using insert_into_internal_page_ok [OF i(2) room comb] by blast
    have "tree_pages (V(i := p)) (Nd i cs' ks')"
      using p(2) ks' cs' keep [of "V(i := p)"] by auto
    then have "Q root s'" if "pg.st pg0 s' (V(i := p)) n" for s'
      using Q [of s' "V(i := p)"] that by (simp add: a continue_def)
    then show "ok (insert_into_internal i m (bt_page t)) s1 (\<lambda>_ s'. Q root s')"
      unfolding insert_into_internal_def
      by (intro pg.upd_ok [where f = "insert_into_internal_page m (bt_page t)" and V = V and i = i,
            OF s1 i(1) i' p(1) internal_rep_length [OF p(2)]])
  next
    fix s1 assume s1: "pg.st pg0 s1 V n" and "\<not> length es < internal_max_keys"
    then have full: "length es = internal_max_keys" and n: "n < MAX_PAGES" using nk st(3) by auto
    then have un: "unat (of_nat n :: u32) = n" by (rule_tac pg.unat_page)
    let ?l = "Nd i (take 171 cs') (take 170 ks')" and ?r = "Nd (of_nat n) (drop 171 cs') (drop 171 ks')"
    have a: "node_add i cs ks m t n = (Split ?l (ks' ! 170) ?r, Suc n)"
      using full nk by (simp add: add layout_values)
    have len: "length es' = 341" using combined_length [OF comb] full by (simp add: layout_values)
    have key: "snd (es' ! 170) = ks' ! 170" using len by (simp flip: ks')
    show "ok (split_internal i m (bt_page t)) s1 (\<lambda>x s'. ok (propagate root path (fst x) (snd x)) s' Q)"
    proof (rule split_internal_ok [OF s1 n i(1,2) full comb], unfold fst_conv snd_conv)
      fix s' p q
      let ?V = "V(i := p, of_nat n := q)"
      assume s': "pg.st pg0 s' ?V (Suc n)"
        and p: "internal_rep p (take 170 es') (fst (es' ! 170))" and q: "internal_rep q (drop 171 es') r'"
      have frame: "?V x = V x" if "x \<noteq> i" "unat x < n" for x using that un by auto
      have "i \<noteq> of_nat n" using i(1) un by auto
      then have "tree_pages ?V ?l" "tree_pages ?V ?r"
        using split_node_pages [OF len cs' keep [of ?V], of i "of_nat n"] frame p q by (simp_all add: ks')
      then show "ok (propagate root path (snd (es' ! 170)) (of_nat n)) s' Q"
        using Q [of s' ?V] s' frame by (simp add: a continue_def key)
    qed
  qed
qed

section \<open>The descent\<close>

text \<open>A subtree of a well-formed tree, with the chain of all leaves.\<close>

definition subtree_ok :: "(u32 \<Rightarrow> page) \<Rightarrow> nat \<Rightarrow> (u32 \<times> cell list) list \<Rightarrow> bt \<Rightarrow> bool" where
  "subtree_ok V n L t \<longleftrightarrow>
     tree_pages V t \<and> chain V L 0 \<and> set (leaves t) \<subseteq> set L \<and> distinct (map fst L) \<and>
     (\<forall>p \<in> fst ` set L. unat p < n) \<and> set (inner_pids t) \<inter> fst ` set L = {} \<and>
     distinct (pids t) \<and> (\<forall>p \<in> set (pids t). unat p < n)"

lemma distinct_concat_nth:
  assumes "distinct (concat (map f cs))" "k < length cs" "j < length cs" "k \<noteq> j"
  shows "set (f (cs ! k)) \<inter> set (f (cs ! j)) = {}"
proof -
  have *: "set (f (cs ! a)) \<inter> set (f (cs ! b)) = {}" if "a < b" "b < length cs" for a b
  proof -
    have "cs = take b cs @ cs ! b # drop (Suc b) cs"
      using that(2) by (rule id_take_nth_drop)
    then have "distinct (concat (map f (take b cs)) @ f (cs ! b) @ concat (map f (drop (Suc b) cs)))"
      using assms(1) by (metis concat.simps(2) concat_append list.simps(9) map_append)
    then have "set (concat (map f (take b cs))) \<inter> set (f (cs ! b)) = {}"
      by (simp only: distinct_append) (simp only: set_append, blast)
    moreover have "cs ! a \<in> set (take b cs)"
      using that by (auto simp: in_set_conv_nth intro!: exI [of _ a])
    then have "set (f (cs ! a)) \<subseteq> set (concat (map f (take b cs)))"
      by (simp only: set_concat set_map) blast
    ultimately show ?thesis by blast
  qed
  show ?thesis using * [of k j] * [of j k] assms by (cases "k < j") auto
qed

lemma subtree_ok_child:
  assumes ok: "subtree_ok V n L (Nd i cs ks)" and k: "k < length cs"
  shows "subtree_ok V n L (cs ! k)" "i \<notin> set (pids (cs ! k))" "i \<notin> fst ` set L" "unat i < n"
    "\<And>j. j < length cs \<Longrightarrow> j \<noteq> k \<Longrightarrow> set (pids (cs ! j)) \<inter> set (pids (cs ! k)) = {}"
proof -
  have "distinct (concat (map pids cs))" using ok by (simp add: subtree_ok_def)
  moreover from this have "distinct (pids (cs ! k))"
    using k by (simp add: distinct_concat_iff)
  moreover have "tree_pages V (cs ! k)" using ok k by (auto simp: subtree_ok_def list_all_length)
  moreover have mem: "cs ! k \<in> set cs" using k by simp
  moreover have "set (leaves (cs ! k)) \<subseteq> set L" "set (inner_pids (cs ! k)) \<inter> fst ` set L = {}"
    "\<forall>p \<in> set (pids (cs ! k)). unat p < n"
    using ok mem by (auto simp: subtree_ok_def)
  ultimately show "subtree_ok V n L (cs ! k)"
    using ok unfolding subtree_ok_def by blast
  show "i \<notin> set (pids (cs ! k))" "i \<notin> fst ` set L" "unat i < n"
    using ok k by (auto simp: subtree_ok_def disjoint_iff)
  show "set (pids (cs ! j)) \<inter> set (pids (cs ! k)) = {}" if "j < length cs" "j \<noteq> k" for j
    using distinct_concat_nth [of pids cs j k] ok k that by (simp add: subtree_ok_def)
qed

text \<open>The children of a node after the chosen one has been worked on.\<close>

lemma other_children:
  assumes ok: "subtree_ok V n L (Nd i cs ks)" and k: "k < length cs"
    and frame: "\<And>p. p \<notin> set (pids (cs ! k)) \<Longrightarrow> unat p < n \<Longrightarrow> V' p = V p"
    and new: "tree_pages V' c" "bt_page c = bt_page (cs ! k)"
  shows "list_all (tree_pages V') (cs[k := c])" "map bt_page (cs[k := c]) = map bt_page cs" "V' i = V i"
proof -
  note child = subtree_ok_child [OF ok]
  have "tree_pages V' (cs ! j)" if "j < length cs" "j \<noteq> k" for j
  proof -
    have "tree_pages V (cs ! j)" "\<forall>p \<in> set (pids (cs ! j)). unat p < n"
      using child(1) [OF that(1)] by (auto simp: subtree_ok_def)
    moreover have "set (pids (cs ! j)) \<inter> set (pids (cs ! k)) = {}" using child(5) [OF k that] .
    ultimately show ?thesis using tree_pages_cong [of "cs ! j" V' V] frame by (auto simp: disjoint_iff)
  qed
  then show "list_all (tree_pages V') (cs[k := c])"
    using new(1) k by (auto simp: list_all_length nth_list_update)
  show "map bt_page (cs[k := c]) = map bt_page cs"
    using new(2) k by (auto intro!: nth_equalityI simp: nth_list_update)
  show "V' i = V i" using frame child(2,4) [OF k] by blast
qed

text \<open>One step of the descent.\<close>

lemma find_leaf_step:
  assumes st: "pg.st pg0 s V n" "n \<le> MAX_PAGES" and ok: "subtree_ok V n L (Nd i cs ks)"
    and Q: "\<And>s'. pg.st pg0 s' V n \<Longrightarrow>
      ok (sbind (find_leaf fuel key (bt_page (cs ! child_index key ks)) ((i, child_index key ks) # path)) f) s' Q"
  shows "ok (sbind (find_leaf (Suc fuel) key i path) f) s Q"
proof -
  let ?k = "child_index key ks"
  obtain es r where es: "internal_rep (V i) es r" "map fst es @ [r] = map bt_page cs" "map snd es = ks"
    using ok by (auto simp: subtree_ok_def)
  have i: "unat i < MAX_PAGES" using ok st(2) by (simp add: subtree_ok_def)
  have len: "length cs = Suc (length es)" "length ks = length es"
    using es(2,3) by (metis length_append_singleton length_map)+
  have k: "prefix_len (\<lambda>e. sint (snd e) < sint key) es = ?k"
    unfolding child_index_def es(3) [symmetric] by (induction es) auto
  have le: "?k \<le> length es" using child_index_le [of key ks] len by simp
  have child: "(if ?k < length es then internal_child (V i) ?k else internal_right_child (V i)) = Inr (bt_page (cs ! ?k))"
  proof -
    have "(map fst es @ [r]) ! ?k = bt_page (cs ! ?k)"
      unfolding es(2) using le len by simp
    then show ?thesis
      using le internal_rep_entry(1) [OF es(1), of ?k] internal_rep_right [OF es(1)]
      by (auto simp: nth_append split: if_splits)
  qed
  have ne: "NODE_TYPE_INTERNAL \<noteq> NODE_TYPE_LEAF" by (simp add: layout)
  show ?thesis
    unfolding find_leaf.simps Let_def ok_bind
  proof (rule pg.rd_ok [OF st(1) i], simp only: ok_liftR internal_rep_type [OF es(1)] ne if_False ok_bind,
      rule pg.rd_ok [OF _ i], assumption, simp only: ok_liftR internal_rep_num [OF es(1)]
        internal_scan_ok [OF es(1), of "\<lambda>k. sint k < sint key"] k child)
    fix s' assume "pg.st pg0 s' V n"
    then show "ok (find_leaf fuel key (bt_page (cs ! ?k)) ((i, ?k) # path)) s' (\<lambda>x s'. ok (f x) s' Q)"
      using Q [of s'] by (simp only: ok_bind)
  qed
qed

text \<open>One step back: the chosen child is done, the node takes up its result.\<close>

lemma ains_child_count:
  assumes "length cs = Suc (length ks)" "ains key row n (cs ! child_index key ks) = (r, n')"
  shows "n' \<le> snd (ains key row n (Nd i cs ks))"
  using node_add_count(1) [where n = n'] by (cases r) (simp_all add: ains_Nd [OF assms])

lemma child_result_pids:
  assumes ok: "subtree_ok V n L (Nd i cs ks)" and k: "k < length cs" and shape: "shape (cs ! k)"
    and r: "ains key row n (cs ! k) = (r, n')" and n': "n' \<le> MAX_PAGES" and p: "p \<in> set (result_pids r)"
  shows "p \<noteq> i \<and> unat p < n'"
proof -
  note child = subtree_ok_child [OF ok k]
  have le: "n \<le> n'" using ains_count [OF shape, of n key row] r by simp
  consider "p \<in> set (pids (cs ! k))" | m where "p = of_nat m" "n \<le> m" "m < n'"
    using p ains_pids_set [OF shape r] by auto
  then show ?thesis
  proof cases
    case 1
    then have "unat p < n" using child(1) by (simp add: subtree_ok_def)
    then show ?thesis using 1 child(2) le by auto
  next
    case 2
    then show ?thesis using pg.unat_page [of m] n' child(4) by auto
  qed
qed

text \<open>Work on the node itself does not touch the leaves.\<close>

lemma child_chain_kept:
  assumes ok: "subtree_ok V n L (Nd i cs ks)" and k: "k < length cs" and shape: "shape (cs ! k)"
    and r: "ains key row n (cs ! k) = (r, n')" and n': "n' \<le> MAX_PAGES"
    and fr: "\<And>p. p \<noteq> i \<Longrightarrow> unat p < n' \<Longrightarrow> V'' p = V' p"
  defines "lvs \<equiv> splice (bt_page (leaf_at key (cs ! k))) (result_leaves (fst (ains key row n (leaf_at key (cs ! k))))) L"
  shows "chain V'' lvs 0 = chain V' lvs 0"
proof (rule chain_cong)
  fix p assume "p \<in> fst ` set lvs"
  then have "p \<in> fst ` set L \<or> p \<in> set (pids (cs ! k)) \<or> p \<in> set (result_pids r)"
    unfolding lvs_def
    using splice_pids [of "bt_page (leaf_at key (cs ! k))" _ L] repl_pids [OF shape, of key row n] r by auto
  moreover have "p \<in> fst ` set L \<Longrightarrow> p \<noteq> i \<and> unat p < n" "p \<in> set (pids (cs ! k)) \<Longrightarrow> p \<noteq> i \<and> unat p < n"
    using subtree_ok_child(1-3) [OF ok k] ok by (auto simp: subtree_ok_def)
  ultimately have "p \<noteq> i \<and> unat p < n'"
    using child_result_pids [OF ok k shape r n', of p] ains_count [OF shape, of n key row] r by fastforce
  then show "V'' p = V' p" using fr by blast
qed

lemma ascend_same:
  assumes shape: "shape (Nd i cs ks)" and ok: "subtree_ok V n L (Nd i cs ks)"
    and r: "ains key row n (cs ! child_index key ks) = (Same c, n')"
    and post: "insert_post V n L key row (cs ! child_index key ks) V'"
  shows "insert_post V n L key row (Nd i cs ks) V'"
proof -
  let ?k = "child_index key ks"
  have len: "length cs = Suc (length ks)" and k: "?k < length cs" and shape_c: "shape (cs ! ?k)"
    using shape by (auto simp: list_all_length)
  have c: "tree_pages V' c" "bt_page c = bt_page (cs ! ?k)"
    using post ains_page [OF shape_c, of key row n] r by (simp_all add: insert_post_def)
  have frame: "V' p = V p" if "p \<notin> set (pids (cs ! ?k))" "unat p < n" for p
    using post that by (simp add: insert_post_def)
  obtain es r0 where es: "internal_rep (V i) es r0" "map fst es @ [r0] = map bt_page cs" "map snd es = ks"
    using ok by (auto simp: subtree_ok_def)
  have "tree_pages V' (Nd i (cs[?k := c]) ks)"
    by (rule tree_pages_Nd) (use es other_children [OF ok k frame c] in simp_all)
  then show ?thesis
    using post k by (auto simp: insert_post_def ains_Nd [OF len r])
qed

lemma ascend_split:
  assumes shape: "shape (Nd i cs ks)" and ok: "subtree_ok V n L (Nd i cs ks)"
    and pages: "snd (ains key row n (Nd i cs ks)) \<le> MAX_PAGES"
    and r: "ains key row n (cs ! child_index key ks) = (Split l m t, n')"
    and st: "pg.st pg0 s' V' n'" and post: "insert_post V n L key row (cs ! child_index key ks) V'"
    and Q: "\<And>s' V'. pg.st pg0 s' V' (snd (ains key row n (Nd i cs ks))) \<Longrightarrow>
      insert_post V n L key row (Nd i cs ks) V' \<Longrightarrow> continue (fst (ains key row n (Nd i cs ks))) root path Q s'"
  shows "ok (propagate root ((i, child_index key ks) # path) m (bt_page t)) s' Q"
proof -
  let ?k = "child_index key ks" and ?cs = "cs[child_index key ks := l]"
  have len: "length cs = Suc (length ks)" and k: "?k < length cs" and shape_c: "shape (cs ! ?k)"
    using shape by (auto simp: list_all_length)
  have a: "ains key row n (Nd i cs ks) = node_add i ?cs ks m t n'" using ains_Nd [OF len r, of i] by simp
  have n': "n \<le> n'" "n' \<le> MAX_PAGES"
    using ains_count [OF shape_c, of n key row] ains_child_count [OF len r] pages r by (simp, meson le_trans)
  have l: "tree_pages V' l" "bt_page l = bt_page (cs ! ?k)" "tree_pages V' t"
    using post ains_page [OF shape_c, of key row n] r by (simp_all add: insert_post_def)
  have frame: "V' p = V p" if "p \<notin> set (pids (cs ! ?k))" "unat p < n" for p
    using post that by (simp add: insert_post_def)
  note kids = other_children [OF ok k frame l(1,2)]
  note new_pids = child_result_pids [OF ok k shape_c r n'(2)]
  obtain es r0 where es: "internal_rep (V i) es r0" "map fst es @ [r0] = map bt_page cs" "map snd es = ks"
    using ok by (auto simp: subtree_ok_def)
  show ?thesis
  proof (rule propagate_ok [OF st n'(2)])
    show "length ks < internal_max_keys \<or> n' < MAX_PAGES"
      using pages by (auto simp: a node_add_def Let_def split: if_splits)
    show "unat i < n'" using subtree_ok_child(4) [OF ok k] n'(1) by simp
    show "internal_rep (V' i) es r0" "map fst es @ [r0] = map bt_page ?cs" "map snd es = ks"
      using es kids by simp_all
    show "list_all (tree_pages V') (t # ?cs)" using kids(1) l(3) by simp
    show "p \<noteq> i \<and> unat p < n'" if "c \<in> set (t # ?cs)" "p \<in> set (pids c)" for c p
    proof -
      have "c = t \<or> c = l \<or> c \<in> set cs" using that(1) set_update_subset_insert [of cs ?k l] by auto
      moreover have "c \<in> set cs \<Longrightarrow> p \<noteq> i \<and> unat p < n" using ok that(2) by (auto simp: subtree_ok_def)
      ultimately show ?thesis using new_pids [of p] that(2) n'(1) by auto
    qed
  next
    fix s'' V''
    assume s'': "pg.st pg0 s'' V'' (snd (node_add i ?cs ks m t n'))" and fr: "\<And>p. p \<noteq> i \<Longrightarrow> unat p < n' \<Longrightarrow> V'' p = V' p"
      and tp: "list_all (tree_pages V'') (result_trees (fst (node_add i ?cs ks m t n')))"
    have "V'' p = V p" if "p \<notin> set (pids (Nd i cs ks))" "unat p < n" for p
      using that fr [of p] frame [of p] n'(1) k by auto
    then have "insert_post V n L key row (Nd i cs ks) V''"
      using post child_chain_kept [OF ok k shape_c r n'(2), of V'' V'] fr tp k by (auto simp: insert_post_def a)
    then show "continue (fst (node_add i ?cs ks m t n')) root path Q s''"
      using Q [of s'' V''] s'' by (simp add: a)
  qed
qed

lemma ascend_ok:
  assumes shape: "shape (Nd i cs ks)" and ok: "subtree_ok V n L (Nd i cs ks)"
    and pages: "snd (ains key row n (Nd i cs ks)) \<le> MAX_PAGES"
    and r: "ains key row n (cs ! child_index key ks) = (r, n')"
    and st: "pg.st pg0 s' V' n'" and post: "insert_post V n L key row (cs ! child_index key ks) V'"
    and Q: "\<And>s' V'. pg.st pg0 s' V' (snd (ains key row n (Nd i cs ks))) \<Longrightarrow>
      insert_post V n L key row (Nd i cs ks) V' \<Longrightarrow> continue (fst (ains key row n (Nd i cs ks))) root path Q s'"
  shows "continue r root ((i, child_index key ks) # path) Q s'"
proof (cases r)
  case (Same c)
  have "length cs = Suc (length ks)" using shape by simp
  from ains_Nd [OF this r, of i] Q [OF _ ascend_same [OF shape ok r [unfolded Same] post]] st
  show ?thesis by (simp add: Same continue_def)
next
  case (Split l m t)
  with ascend_split [OF shape ok pages r [unfolded Split] st post Q] show ?thesis by (simp add: continue_def)
qed

lemma descend_ok:
  assumes "shape t"
  shows "pg.st pg0 s V n \<Longrightarrow> subtree_ok V n L t \<Longrightarrow> snd (ains key row n t) \<le> MAX_PAGES \<Longrightarrow> depth_at key t \<le> fuel \<Longrightarrow>
    leaf_fits key row (leaf_at key t) \<Longrightarrow>
    (\<And>s' V'. pg.st pg0 s' V' (snd (ains key row n t)) \<Longrightarrow> insert_post V n L key row t V' \<Longrightarrow>
      continue (fst (ains key row n t)) root path Q s') \<Longrightarrow>
    ok (sbind (find_leaf fuel key (bt_page t) path) (insert_at_leaf root key row)) s Q"
  using assms
proof (induction t arbitrary: s fuel path rule: descent_induct [where key = key])
  case (Lf i cells)
  obtain fuel' where fuel: "fuel = Suc fuel'" using Lf.prems(4) by (cases fuel) auto
  have n: "n \<le> MAX_PAGES" "n < MAX_PAGES \<or> cells_cost (cell_insert key row cells) \<le> leaf_capacity"
    using Lf.prems(3) by (auto simp: Let_def split: if_splits)
  have i: "unat i < MAX_PAGES" and leaf: "\<exists>nx. leaf_rep (V i) cells nx"
    using Lf.prems(2) n(1) by (auto simp: subtree_ok_def)
  then have type: "get_byte (V i) 0 = Inr NODE_TYPE_LEAF" using leaf_rep_type by blast
  show ?case
    unfolding fuel find_leaf.simps bt_page.simps ok_bind
  proof (rule pg.rd_ok [OF Lf.prems(1) i], simp only: ok_liftR type if_True refl ok_ret)
    fix s1 assume s1: "pg.st pg0 s1 V n"
    show "ok (insert_at_leaf root key row (i, path)) s1 Q"
      by (rule insert_at_leaf_ok [OF s1 n(2,1), of L i])
        (use Lf.prems in \<open>auto simp: subtree_ok_def simp del: ains.simps\<close>)
  qed
next
  case (Nd i cs ks)
  let ?k = "child_index key ks"
  obtain fuel' where fuel: "fuel = Suc fuel'" using Nd.prems(4) by (cases fuel) auto
  have k: "?k < length cs" using Nd(1) by simp
  obtain r n' where r: "ains key row n (cs ! ?k) = (r, n')" by force
  have leaf: "leaf_at key (Nd i cs ks) = leaf_at key (cs ! ?k)" using k by simp
  note child = subtree_ok_child [OF Nd.prems(2) k]
  have count: "n \<le> snd (ains key row n (Nd i cs ks))"
    using ains_count [of "Nd i cs ks" n key row] Nd(1-3) by simp
  have n': "snd (ains key row n (cs ! ?k)) \<le> snd (ains key row n (Nd i cs ks))"
    using ains_child_count [OF Nd(1) r] r by simp
  have "ok (sbind (find_leaf fuel' key (bt_page (cs ! ?k)) ((i, ?k) # path)) (insert_at_leaf root key row)) s1 Q"
    if s1: "pg.st pg0 s1 V n" for s1
  proof (rule Nd.IH [OF s1 child(1)])
    show "snd (ains key row n (cs ! ?k)) \<le> MAX_PAGES" "depth_at key (cs ! ?k) \<le> fuel'"
      using Nd.prems(3,4) k fuel n' by simp_all
    show "leaf_fits key row (leaf_at key (cs ! ?k))" using Nd.prems(5) leaf by simp
    fix s' V'
    assume s': "pg.st pg0 s' V' (snd (ains key row n (cs ! ?k)))"
      and post: "insert_post V n L key row (cs ! ?k) V'"
    show "continue (fst (ains key row n (cs ! ?k))) root ((i, ?k) # path) Q s'"
      using ascend_ok [OF _ Nd.prems(2,3) r _ post] s' r Nd(1-3) Nd.prems(6) by simp
  qed
  then show ?case
    unfolding fuel bt_page.simps
    by (intro find_leaf_step [OF Nd.prems(1) _ Nd.prems(2)]) (use Nd.prems(3) count in auto)
qed

end
