(* ===== verification/Btree_Correct.thy ===== *)
theory Btree_Correct
  imports Btree_Refine
begin

text \<open>
  Correctness of the B+Tree as a whole. \<open>tree_rep V n t L\<close>: the pages \<open>V\<close>, of which \<open>n\<close>
  are in use, hold the tree \<open>t\<close>, and the chain of leaves from its leftmost leaf is \<open>L\<close>.
  \<open>create_tree\<close> establishes it, \<open>btree_insert\<close> preserves it and performs \<open>ainsert\<close>, and
  \<open>scan_all\<close> returns the rows of the chain. With the lemmas on \<open>ainsert\<close> this gives what a
  user of the tree relies on: an insertion adds one row and loses none, and a tree filled
  with distinct keys is scanned in key order.
\<close>

section \<open>The whole tree\<close>

primrec leftmost :: "bt \<Rightarrow> u32" where
  "leftmost (Lf i cells) = i"
| "leftmost (Nd i cs ks) = hd (map leftmost cs)"

definition tree_rep :: "(u32 \<Rightarrow> page) \<Rightarrow> nat \<Rightarrow> bt \<Rightarrow> (u32 \<times> cell list) list \<Rightarrow> bool" where
  "tree_rep V n t L \<longleftrightarrow>
     tree_pages V t \<and> chain V L 0 \<and> mset L = mset (leaves t) \<and> L \<noteq> [] \<and> fst (hd L) = leftmost t \<and>
     distinct (pids t) \<and> (\<forall>p \<in> set (pids t). 0 < unat p \<and> unat p < n)"

lemma pids_split: "mset (pids t) = mset (inner_pids t) + mset (map fst (leaves t))"
proof (induction t)
  case (Nd i cs ks)
  then have "mset (concat (map pids cs)) =
      mset (concat (map inner_pids cs)) + mset (map fst (concat (map leaves cs)))"
    by (induction cs) (simp_all add: ac_simps)
  then show ?case by simp
qed simp

lemma distinct_pids_leaves:
  assumes "distinct (pids t)"
  shows "distinct (map fst (leaves t))" "set (inner_pids t) \<inter> fst ` set (leaves t) = {}"
proof -
  have "mset (pids t) = mset (inner_pids t @ map fst (leaves t))" using pids_split [of t] by simp
  then have "distinct (inner_pids t @ map fst (leaves t))"
    using assms by (metis mset_eq_imp_distinct_iff)
  then show "distinct (map fst (leaves t))" "set (inner_pids t) \<inter> fst ` set (leaves t) = {}" by auto
qed

lemma tree_rep_chain:
  assumes "tree_rep V n t L"
  shows "set L = set (leaves t)" "distinct (map fst L)"
proof -
  have m: "mset L = mset (leaves t)" using assms by (simp add: tree_rep_def)
  then show "set L = set (leaves t)" by (metis set_mset_mset)
  have "mset (map fst L) = mset (map fst (leaves t))" using m by simp
  from mset_eq_imp_distinct_iff [OF this] show "distinct (map fst L)"
    using distinct_pids_leaves(1) [of t] assms by (simp add: tree_rep_def)
qed

lemma tree_rep_subtree:
  assumes "tree_rep V n t L"
  shows "subtree_ok V n L t"
proof -
  have "\<forall>p \<in> fst ` set L. unat p < n"
    using leaves_pids [of t] assms unfolding tree_rep_chain(1) [OF assms] by (auto simp: tree_rep_def)
  then show ?thesis
    using assms tree_rep_chain [OF assms] distinct_pids_leaves(2) [of t]
    by (simp add: subtree_ok_def tree_rep_def)
qed

text \<open>The fuel is enough: a tree has fewer levels, and fewer leaves, than pages.\<close>

lemma length_pids_less:
  assumes "tree_rep V n t L"
  shows "length (pids t) < n"
proof -
  have ne: "pids t \<noteq> []" by (cases t) auto
  have "card (unat ` set (pids t)) = card (set (pids t))"
    by (rule card_image) (simp add: inj_on_def word_unat_eq_iff)
  then have "card (unat ` set (pids t)) = length (pids t)"
    using assms by (simp add: tree_rep_def distinct_card)
  moreover have "unat ` set (pids t) \<subseteq> {0<..<n}" using assms by (auto simp: tree_rep_def)
  then have "card (unat ` set (pids t)) \<le> n - 1"
    using card_mono [of "{0<..<n}" "unat ` set (pids t)"] by simp
  ultimately show ?thesis using ne by (cases "pids t") auto
qed

lemma length_nth_concat: "k < length cs \<Longrightarrow> length (f (cs ! k)) \<le> length (concat (map f cs))"
  by (simp add: length_concat) (metis (no_types, lifting) comp_apply elem_le_sum_list length_map nth_map)

lemma depth_le_pids: "shape t \<Longrightarrow> depth_at key t \<le> length (pids t)"
proof (induction t rule: descent_induct [where key = key])
  case (Nd i cs ks)
  then show ?case
    using length_nth_concat [of "child_index key ks" cs pids] by simp
qed simp

lemma length_leaves: "length L \<le> length (pids t)" if "tree_rep V n t L"
proof -
  have "length L = length (leaves t)"
    using that by (metis size_mset tree_rep_def)
  also have "\<dots> \<le> length (pids t)"
    using arg_cong [OF pids_split [of t], of size] by simp
  finally show ?thesis .
qed

section \<open>The abstract insertion keeps the invariant\<close>

lemma leftmost_ains: "shape t \<Longrightarrow> leftmost (hd (result_trees (fst (ains key row n t)))) = leftmost t"
proof (induction t rule: descent_induct [where key = key])
  case (Nd i cs ks)
  obtain r n' where r: "ains key row n (cs ! child_index key ks) = (r, n')" by force
  let ?k = "child_index key ks"
  have ne: "cs \<noteq> []" using Nd(1) by auto
  have ins: "leftmost (hd (insert_at (Suc k) t ds)) = leftmost (hd ds)" if "ds \<noteq> []" for k t ds
    using that by (cases ds) (simp_all add: insert_at_def)
  have upd: "leftmost (hd (cs[?k := d])) = leftmost (hd cs)" if "leftmost d = leftmost (cs ! ?k)" for d
    using that ne by (cases cs; cases ?k) auto
  show ?case
  proof (cases r)
    case (Same d)
    then show ?thesis
      unfolding ains_Nd [OF Nd(1) r] using Nd(5) r upd [of d] ne by (simp add: hd_map)
  next
    case (Split l m t)
    let ?cs = "cs[?k := l]"
    have "leftmost (hd (insert_at (Suc j) t ?cs)) = leftmost (hd cs)" for j
      using Nd(5) r upd [of l] ins [of ?cs] Split ne by simp
    moreover have nonempty: "insert_at (Suc j) t ?cs \<noteq> []" for j
      by (simp add: insert_at_def)
    ultimately show ?thesis
      unfolding ains_Nd [OF Nd(1) r] using Split
      using ne nonempty by (simp add: node_add_def Let_def hd_map hd_take)
  qed
qed (simp add: Let_def)

section \<open>Creation\<close>

lemma create_tree_ok:
  assumes st: "pg.st pg0 s V n" "0 < n" "n < MAX_PAGES"
  shows "ok create_tree s (\<lambda>i s'. i = of_nat n \<and> (\<exists>V'. pg.st pg0 s' V' (Suc n) \<and>
    tree_rep V' (Suc n) (Lf i []) [(i, [])] \<and> (\<forall>p. p \<noteq> i \<longrightarrow> V' p = V p)))"
proof -
  have un: "unat (of_nat n :: u32) = n" using pg.unat_page [OF st(3)] .
  obtain p where p: "init_leaf (V (of_nat n)) = Inr p" "leaf_rep p [] 0"
    using init_leaf_ok [OF pg.st_length [OF st(1)]] by blast
  show ?thesis
    unfolding create_tree_def ok_simps
  proof (rule pg.alloc_ok [OF st(1,3)])
    fix s1 assume s1: "pg.st pg0 s1 V (Suc n)"
    show "ok (with_page_mut (of_nat n) init_leaf) s1 (\<lambda>_ s'. of_nat n = of_nat n \<and> (\<exists>V'. pg.st pg0 s' V' (Suc n) \<and>
      tree_rep V' (Suc n) (Lf (of_nat n) []) [(of_nat n, [])] \<and> (\<forall>p. p \<noteq> of_nat n \<longrightarrow> V' p = V p)))"
      by (rule pg.upd_ok [where f = init_leaf and V = V, OF s1 _ _ p(1) leaf_rep_length [OF p(2)]])
        (use un st(2,3) p(2) in \<open>auto simp: tree_rep_def intro!: exI [of _ "V(of_nat n := p)"]\<close>)
  qed
qed

section \<open>Insertion\<close>

lemma propagate_root_ok:
  assumes st: "pg.st pg0 s V n" "n < MAX_PAGES"
    and Q: "\<And>s' p. pg.st pg0 s' (V(of_nat n := p)) (Suc n) \<Longrightarrow> internal_rep p [(root, m)] c \<Longrightarrow> Q (of_nat n) s'"
  shows "ok (propagate root [] m c) s Q"
proof -
  have un: "unat (of_nat n :: u32) = n" using pg.unat_page [OF st(2)] .
  have eq: "(\<lambda>page. rbind (init_internal page) (\<lambda>page. rbind (internal_set_num_keys page 1) (\<lambda>page.
      rbind (internal_set_entry page 0 root m) (\<lambda>page. internal_set_right_child page c)))) = write_internal [(root, m)] c"
    by (simp add: write_internal_def fun_eq_iff rbind_assoc)
  obtain p where p: "write_internal [(root, m)] c (V (of_nat n)) = Inr p" "internal_rep p [(root, m)] c"
    using write_internal_ok [OF pg.st_length [OF st(1), of "of_nat n"], of "[(root, m)]" c] by (auto simp: layout_values)
  show ?thesis
    unfolding propagate.simps ok_simps eq
  proof (rule pg.alloc_ok [OF st])
    fix s1 assume s1: "pg.st pg0 s1 V (Suc n)"
    show "ok (with_page_mut (of_nat n) (write_internal [(root, m)] c)) s1 (\<lambda>_. Q (of_nat n))"
      by (rule pg.upd_ok [where f = "write_internal [(root, m)] c" and V = V, OF s1 _ _ p(1) internal_rep_length [OF p(2)]])
        (use un st(2) Q p(2) in auto)
  qed
qed

text \<open>The chain after an insertion.\<close>

definition new_chain :: "i64 \<Rightarrow> byte list \<Rightarrow> nat \<Rightarrow> bt \<Rightarrow> (u32 \<times> cell list) list \<Rightarrow> (u32 \<times> cell list) list" where
  "new_chain key row n t L = splice (bt_page (leaf_at key t)) (result_leaves (fst (ains key row n (leaf_at key t)))) L"

lemma mset_new_chain:
  assumes rep: "tree_rep V n t L"
  shows "mset (new_chain key row n' t L) = mset (result_leaves (fst (ains key row n' t)))"
proof -
  have shape: "shape t" using rep tree_pages_shape by (auto simp: tree_rep_def)
  obtain i cells where lf: "leaf_at key t = Lf i cells" "(i, cells) \<in> set L"
    using leaf_at_Lf [OF shape] tree_rep_chain(1) [OF rep] by blast
  define repl where "repl = result_leaves (fst (ains key row n' (leaf_at key t)))"
  have "mset (splice i repl L) + {#(i, cells)#} = mset L + mset repl"
    by (rule mset_splice [OF tree_rep_chain(2) [OF rep] lf(2)])
  moreover have "mset (result_leaves (fst (ains key row n' t))) + {#(i, cells)#} = mset L + mset repl"
    using ains_leaves [OF shape, of key row n'] rep by (simp add: tree_rep_def lf(1) repl_def del: ains.simps)
  ultimately have "mset (splice i repl L) = mset (result_leaves (fst (ains key row n' t)))"
    by (metis add_right_cancel)
  then show ?thesis by (simp add: new_chain_def lf(1) repl_def del: ains.simps)
qed

text \<open>The invariant of the result of a subtree insertion, apart from the pages themselves.\<close>

lemma insert_post_chain:
  assumes rep: "tree_rep V n t L" and post: "insert_post V n L key row t V'"
  defines "L' \<equiv> new_chain key row n t L"
  shows "chain V' L' 0" "mset L' = mset (result_leaves (fst (ains key row n t)))" "L' \<noteq> []" "fst (hd L') = leftmost t"
proof -
  let ?repl = "result_leaves (fst (ains key row n (leaf_at key t)))"
  have shape: "shape t" using rep tree_pages_shape by (auto simp: tree_rep_def)
  obtain i cells where lf: "leaf_at key t = Lf i cells" "(i, cells) \<in> set L"
    using leaf_at_Lf [OF shape] tree_rep_chain(1) [OF rep] by blast
  obtain A B where AB: "L = A @ (i, cells) # B" "splice i ?repl L = A @ ?repl @ B"
    by (rule splice_at [OF tree_rep_chain(2) [OF rep] lf(2), of ?repl])
  have repl: "?repl \<noteq> []" "fst (hd ?repl) = i" by (simp_all add: lf Let_def)
  show "chain V' L' 0" using post by (simp add: insert_post_def L'_def new_chain_def)
  show "mset L' = mset (result_leaves (fst (ains key row n t)))"
    unfolding L'_def by (rule mset_new_chain [OF rep])
  have "fst (hd (A @ ?repl @ B)) = fst (hd L)" "A @ ?repl @ B \<noteq> []"
    using repl AB(1) by (cases A; auto)+
  then show "L' \<noteq> []" "fst (hd L') = leftmost t"
    using rep AB(2) by (auto simp: L'_def new_chain_def lf(1) tree_rep_def)
qed

lemma distinct_new_pids:
  fixes ps qs :: "u32 list"
  assumes "distinct ps" "\<forall>p \<in> set ps. 0 < unat p \<and> unat p < n" "n' \<le> MAX_PAGES" "n \<le> n'" "0 < n"
    and "mset qs = mset ps + mset (map of_nat [n..<n'])"
  shows "distinct qs" "\<forall>p \<in> set qs. 0 < unat p \<and> unat p < n'"
proof -
  have un: "unat (of_nat k :: u32) = k" if "k < n'" for k
    using pg.unat_page [of k] that assms(3) by simp
  have "mset qs = mset (ps @ map of_nat [n..<n'])" using assms(6) by simp
  note eq = this mset_eq_setD [OF this]
  have "inj_on (of_nat :: nat \<Rightarrow> u32) {n..<n'}"
    using un by (intro inj_onI) (metis atLeastLessThan_iff)
  moreover have "set ps \<inter> of_nat ` {n..<n'} = {}"
  proof (rule ccontr)
    assume "set ps \<inter> of_nat ` {n..<n'} \<noteq> {}"
    then obtain k where "of_nat k \<in> set ps" "n \<le> k" "k < n'" by auto
    then have "unat (of_nat k :: u32) < n" "unat (of_nat k :: u32) = k"
      using assms(2) un [of k] by blast+
    with \<open>n \<le> k\<close> show False by linarith
  qed
  ultimately have "distinct (ps @ map of_nat [n..<n'])"
    using assms(1) by (simp add: distinct_map)
  then show "distinct qs" using mset_eq_imp_distinct_iff [OF eq(1)] by simp
  show "\<forall>p \<in> set qs. 0 < unat p \<and> unat p < n'"
    unfolding eq(2) using assms(2,4,5) un by fastforce
qed

text \<open>From the state at the top of the tree to the invariant of the new tree.\<close>

lemma tree_rep_same:
  assumes rep: "tree_rep V n t L" and r: "ains key row n t = (Same t', n')" and max: "n' \<le> MAX_PAGES"
    and post: "insert_post V n L key row t V'"
  shows "tree_rep V' n' t' (new_chain key row n t L)" "bt_page t' = bt_page t"
proof -
  have shape: "shape t" using rep tree_pages_shape by (auto simp: tree_rep_def)
  have n: "n \<le> n'" "0 < n" using ains_count [OF shape, of n key row] r length_pids_less [OF rep] by auto
  note ch = insert_post_chain [OF rep post]
  have "distinct (pids t')" "\<forall>p \<in> set (pids t'). 0 < unat p \<and> unat p < n'"
    by (rule distinct_new_pids [of "pids t" n n'];
      use rep max n ains_pids [OF shape, of key row n] r in \<open>simp add: tree_rep_def\<close>)+
  moreover have "leftmost t' = leftmost t" "bt_page t' = bt_page t"
    using leftmost_ains [OF shape, of key row n] ains_page [OF shape, of key row n] r by simp_all
  ultimately show "tree_rep V' n' t' (new_chain key row n t L)" "bt_page t' = bt_page t"
    using ch post r by (simp_all add: tree_rep_def insert_post_def)
qed

lemma tree_rep_split:
  assumes rep: "tree_rep V n t L" and r: "ains key row n t = (Split l m t', n')" and max: "n' < MAX_PAGES"
    and post: "insert_post V n L key row t V'" and root: "internal_rep p [(bt_page t, m)] (bt_page t')"
  shows "tree_rep (V'(of_nat n' := p)) (Suc n') (Nd (of_nat n') [l, t'] [m]) (new_chain key row n t L)"
proof -
  have shape: "shape t" using rep tree_pages_shape by (auto simp: tree_rep_def)
  let ?V = "V'(of_nat n' := p)" and ?L = "new_chain key row n t L"
  have n: "n \<le> n'" "0 < n" using ains_count [OF shape, of n key row] r length_pids_less [OF rep] by auto
  note ch = insert_post_chain [OF rep post]
  have un: "unat (of_nat n' :: u32) = n'" using pg.unat_page [OF max] .
  have page: "bt_page l = bt_page t" "leftmost l = leftmost t"
    using leftmost_ains [OF shape, of key row n] ains_page [OF shape, of key row n] r by simp_all
  have pids: "distinct (pids l @ pids t')" "\<forall>p \<in> set (pids l @ pids t'). 0 < unat p \<and> unat p < n'"
    by (rule distinct_new_pids [of "pids t" n n'];
      use rep max n ains_pids [OF shape, of key row n] r in \<open>simp add: tree_rep_def\<close>)+
  have fresh: "of_nat n' \<notin> set (pids l @ pids t')" using pids(2) un by force
  have "tree_pages ?V l = tree_pages V' l" "tree_pages ?V t' = tree_pages V' t'"
    by (rule tree_pages_cong; use fresh in auto)+
  then have trees: "list_all (tree_pages ?V) [l, t']"
    using post r by (simp add: insert_post_def)
  have "chain ?V ?L 0 = chain V' ?L 0"
  proof (rule chain_cong)
    fix q assume "q \<in> fst ` set ?L"
    moreover have "set ?L = set (leaves l @ leaves t')" using mset_eq_setD [OF ch(2)] r by simp
    ultimately have "q \<in> set (pids l @ pids t')" using leaves_pids [of l] leaves_pids [of t'] by auto
    then show "?V q = V' q" using fresh by auto
  qed
  moreover have "tree_pages ?V (Nd (of_nat n') [l, t'] [m])"
    by (rule tree_pages_Nd [of _ _ "[(bt_page t, m)]" "bt_page t'"]) (use root page trees in simp_all)
  ultimately show ?thesis
    using ch r pids page fresh un max n by (simp add: tree_rep_def less_Suc_eq)
qed

lemma btree_insert_refines:
  assumes st: "pg.st pg0 s V n" and rep: "tree_rep V n t L"
    and cost: "cell_cost (key, row) \<le> leaf_capacity" and fits: "leaf_fits key row (leaf_at key t)"
    and room: "ainsert key row n t = (t', n')" "n' \<le> MAX_PAGES"
  shows "ok (btree_insert (bt_page t) key row) s (\<lambda>root s'. root = bt_page t' \<and>
    (\<exists>V'. pg.st pg0 s' V' n' \<and> tree_rep V' n' t' (new_chain key row n t L) \<and>
      (\<forall>p. p \<notin> set (pids t) \<longrightarrow> unat p < n \<longrightarrow> V' p = V p)))"
    (is "ok _ _ ?Q")
proof -
  have shape: "shape t" using rep tree_pages_shape by (auto simp: tree_rep_def)
  obtain r n1 where r: "ains key row n t = (r, n1)" by force
  have n1: "n1 \<le> n'" "n \<le> n1" using room(1) r ains_count [OF shape, of n key row]
    by (auto simp: ainsert_def split: ires.splits)
  have "depth_at key t \<le> WALK_FUEL"
    using depth_le_pids [OF shape, of key] length_pids_less [OF rep] n1 room(2) by (simp add: WALK_FUEL_def)
  moreover have "snd (ains key row n t) \<le> MAX_PAGES" using r n1 room(2) by simp
  moreover have "continue (fst (ains key row n t)) (bt_page t) [] ?Q s'"
    if s': "pg.st pg0 s' V' (snd (ains key row n t))" and post: "insert_post V n L key row t V'" for s' V'
  proof -
    have frame: "\<forall>p. p \<notin> set (pids t) \<longrightarrow> unat p < n \<longrightarrow> V' p = V p"
      using post by (simp add: insert_post_def)
    show ?thesis
    proof (cases r)
      case (Same t1)
      then have "t' = t1" "n' = n1" using room(1) r by (simp_all add: ainsert_def)
      then show ?thesis
        using tree_rep_same [OF rep _ _ post, of t1 n1] r Same s' frame room(2) by (auto simp: continue_def)
    next
      case (Split l m t1)
      then have t': "t' = Nd (of_nat n1) [l, t1] [m]" "n' = Suc n1" using room(1) r by (simp_all add: ainsert_def)
      have max: "n1 < MAX_PAGES" using t'(2) room(2) by simp
      have un: "unat (of_nat n1 :: u32) = n1" using pg.unat_page [OF max] .
      have "ok (propagate (bt_page t) [] m (bt_page t1)) s' ?Q"
      proof (rule propagate_root_ok [OF s' [unfolded r snd_conv] max])
        fix s'' p
        assume s'': "pg.st pg0 s'' (V'(of_nat n1 := p)) (Suc n1)" and p: "internal_rep p [(bt_page t, m)] (bt_page t1)"
        have "\<forall>q. q \<notin> set (pids t) \<longrightarrow> unat q < n \<longrightarrow> (V'(of_nat n1 := p)) q = V q"
          using frame n1(2) un by auto
        then show "?Q (of_nat n1) s''"
          using tree_rep_split [OF rep r [unfolded Split] max post p] s'' t' by auto
      qed
      then show ?thesis by (simp add: r Split continue_def)
    qed
  qed
  ultimately have "ok (sbind (find_leaf WALK_FUEL key (bt_page t) []) (insert_at_leaf (bt_page t) key row)) s ?Q"
    using fits by (intro descend_ok [OF shape st tree_rep_subtree [OF rep]])
  moreover have "\<not> MAX_CELL_DATA < KEY_SIZE + length row"
    using cost by (simp add: cell_cost_def leaf_capacity_def layout)
  ultimately show ?thesis by (simp add: btree_insert_def)
qed

section \<open>Scanning\<close>

lemma leaf_rows_ok:
  assumes "leaf_rep p cells nx"
  shows "leaf_rows p 0 (length cells) = Inr (map snd cells)"
proof -
  have "leaf_rows p i n = Inr (map snd (take n (drop i cells)))" if "i + n = length cells" for i n
    using that
  proof (induction n arbitrary: i)
    case (Suc n)
    then have "i < length cells" by simp
    with Suc leaf_rep_cell(2) [OF assms this] show ?case
      by (simp add: Cons_nth_drop_Suc [symmetric])
  qed simp
  from this [of 0 "length cells"] show ?thesis by simp
qed

lemma leftmost_leaf_ok:
  assumes "tree_pages V t" "n \<le> MAX_PAGES" "\<forall>p \<in> set (pids t). unat p < n"
  shows "pg.st pg0 s V n \<Longrightarrow> length (pids t) \<le> fuel \<Longrightarrow>
    ok (leftmost_leaf fuel (bt_page t)) s (\<lambda>i s'. i = leftmost t \<and> pg.st pg0 s' V n)"
  using assms
proof (induction t arbitrary: fuel s)
  case (Lf i cells)
  then obtain fuel' nx where fuel: "fuel = Suc fuel'" and leaf: "leaf_rep (V i) cells nx"
    by (cases fuel) auto
  show ?case
    unfolding fuel leftmost_leaf.simps bt_page.simps ok_bind
    by (rule pgr.rd_ok [OF Lf.prems(1)])
      (use Lf.prems leaf_rep_type [OF leaf] in \<open>simp_all add: ok_liftR ok_ret\<close>)
next
  case (Nd i cs ks)
  then obtain es r where es: "internal_rep (V i) es r" "map fst es @ [r] = map bt_page cs" "map snd es = ks"
    by auto
  obtain fuel' where fuel: "fuel = Suc fuel'" using Nd.prems(2) by (cases fuel) auto
  obtain c cs' where cs: "cs = c # cs'" using es(2) by (cases cs) auto
  have c: "(if 0 < length es then internal_child (V i) 0 else internal_right_child (V i)) = Inr (bt_page c)"
    using es(2) internal_rep_entry(1) [OF es(1), of 0] internal_rep_right [OF es(1)]
    by (cases es) (auto simp: cs)
  have i: "unat i < MAX_PAGES" using Nd.prems(4,5) by auto
  have ne: "NODE_TYPE_INTERNAL \<noteq> NODE_TYPE_LEAF" by (simp add: layout)
  show ?case
    unfolding fuel leftmost_leaf.simps bt_page.simps ok_bind
  proof (rule pgr.rd_ok [OF Nd.prems(1) i], simp only: ok_liftR internal_rep_type [OF es(1)] ne if_False ok_bind
      internal_rep_num [OF es(1)] c)
    fix s' assume s': "pgr.st pg0 s' V n"
    have "ok (leftmost_leaf fuel' (bt_page c)) s' (\<lambda>i s'. i = leftmost c \<and> pg.st pg0 s' V n)"
      by (rule Nd.IH [OF _ s']) (use Nd.prems cs fuel in auto)
    then show "ok (leftmost_leaf fuel' (bt_page c)) s' (\<lambda>i' s'. i' = leftmost (Nd i cs ks) \<and> pgr.st pg0 s' V n)"
      by (simp add: cs)
  qed
qed

lemma walk_leaves_ok:
  assumes "n \<le> MAX_PAGES"
  shows "pg.st pg0 s V n \<Longrightarrow> chain V L 0 \<Longrightarrow> L \<noteq> [] \<Longrightarrow> length L \<le> fuel \<Longrightarrow>
    \<forall>p \<in> fst ` set L. 0 < unat p \<and> unat p < n \<Longrightarrow>
    ok (walk_leaves fuel (fst (hd L)) rows) s (\<lambda>r s'. r = rows @ map snd (concat (map snd L)) \<and> pg.st pg0 s' V n)"
proof (induction L arbitrary: fuel s rows)
  case (Cons b L)
  obtain fuel' where fuel: "fuel = Suc fuel'" using Cons.prems(4) by (cases fuel) auto
  have leaf: "leaf_rep (V (fst b)) (snd b) (first_of L 0)" using Cons.prems(2) by simp
  have i: "unat (fst b) < MAX_PAGES" using Cons.prems(5) assms by auto
  show ?case
    unfolding fuel walk_leaves.simps list.sel ok_bind
  proof (rule pgr.rd_ok [OF Cons.prems(1) i], simp only: ok_liftR ok_bind leaf_rep_num [OF leaf]
      leaf_rows_ok [OF leaf] leaf_rep_next [OF leaf])
    fix s' assume s': "pgr.st pg0 s' V n"
    show "ok (if first_of L 0 = 0 then ret (rows @ map snd (snd b)) else walk_leaves fuel' (first_of L 0) (rows @ map snd (snd b)))
      s' (\<lambda>r s'. r = rows @ map snd (concat (map snd (b # L))) \<and> pgr.st pg0 s' V n)"
    proof (cases L)
      case Nil
      then show ?thesis using s' by (simp add: ok_ret)
    next
      case (Cons d L')
      then have d: "first_of L 0 = fst (hd L)" "first_of L 0 \<noteq> 0" "L \<noteq> []" using Cons.prems(5) by auto
      have "ok (walk_leaves fuel' (fst (hd L)) (rows @ map snd (snd b))) s'
          (\<lambda>r s'. r = (rows @ map snd (snd b)) @ map snd (concat (map snd L)) \<and> pg.st pg0 s' V n)"
        by (rule Cons.IH [OF s']) (use Cons.prems d fuel in auto)
      then show ?thesis using d by simp
    qed
  qed
qed simp

definition chain_rows :: "(u32 \<times> cell list) list \<Rightarrow> byte list list" where
  "chain_rows L = map snd (concat (map snd L))"

lemma scan_refines:
  assumes st: "pg.st pg0 s V n" "n \<le> MAX_PAGES" and rep: "tree_rep V n t L"
  shows "ok (scan_all (bt_page t)) s (\<lambda>rows s'. rows = chain_rows L \<and> pg.st pg0 s' V n)"
proof -
  have pids: "length (pids t) \<le> WALK_FUEL" "length L \<le> WALK_FUEL"
    using length_pids_less [OF rep] length_leaves [OF rep] st(2) by (simp_all add: WALK_FUEL_def)
  have set: "fst ` set L \<subseteq> set (pids t)" using tree_rep_chain(1) [OF rep] leaves_pids by simp
  show ?thesis
    unfolding scan_all_def ok_bind
  proof (rule ok_mono [OF leftmost_leaf_ok [OF _ st(2) _ st(1) pids(1)]])
    show "tree_pages V t" "\<forall>p \<in> set (pids t). unat p < n" using rep by (simp_all add: tree_rep_def)
    fix i s' assume a: "i = leftmost t \<and> pg.st pg0 s' V n"
    have "ok (walk_leaves WALK_FUEL (fst (hd L)) []) s' (\<lambda>r s'. r = [] @ map snd (concat (map snd L)) \<and> pg.st pg0 s' V n)"
      by (rule walk_leaves_ok [OF st(2)]) (use a rep pids set in \<open>auto simp: tree_rep_def\<close>)
    then show "ok (walk_leaves WALK_FUEL i []) s' (\<lambda>rows s'. rows = chain_rows L \<and> pg.st pg0 s' V n)"
      using a rep by (simp add: chain_rows_def tree_rep_def)
  qed
qed

end
