(* ===== verification/Btree_Spec.thy ===== *)
theory Btree_Spec
  imports Btree_Correct
begin

text \<open>
  What the tree promises its user, on pagers: \<open>holds_tree pg root t L\<close> says that the pager
  holds a tree at page \<open>root\<close>. Insertions add exactly one row, new keys keep the scan in key
  order, the fuel of the loops never runs out, rows of at most 1350 bytes always split, and
  the two ways in which the code departs from this: equal keys and long rows.
\<close>

section \<open>Contents\<close>

definition chain_cells :: "(u32 \<times> cell list) list \<Rightarrow> cell list" where
  "chain_cells L = concat (map snd L)"

lemma chain_rows_cells: "chain_rows L = map snd (chain_cells L)"
  by (simp add: chain_rows_def chain_cells_def)

lemma leaf_ains_cells:
  "mset (chain_cells (result_leaves (fst (ains key row n (Lf i cells))))) = add_mset (key, row) (mset cells)"
proof -
  let ?all = "cell_insert key row cells"
  have "mset (take k ?all) + mset (drop k ?all) = add_mset (key, row) (mset cells)" for k
    by (metis append_take_drop_id cell_insert_simps(2) mset_append)
  then show ?thesis by (simp add: Let_def chain_cells_def)
qed

lemma new_chain_cells:
  assumes rep: "tree_rep V n t L"
  shows "mset (chain_cells (new_chain key row n t L)) = add_mset (key, row) (mset (chain_cells L))"
proof -
  have shape: "shape t" using rep tree_pages_shape by (auto simp: tree_rep_def)
  obtain i cells where lf: "leaf_at key t = Lf i cells" "(i, cells) \<in> set L"
    using leaf_at_Lf [OF shape] tree_rep_chain(1) [OF rep] by blast
  let ?repl = "result_leaves (fst (ains key row n (leaf_at key t)))"
  obtain A B where AB: "L = A @ (i, cells) # B" "splice i ?repl L = A @ ?repl @ B"
    by (rule splice_at [OF tree_rep_chain(2) [OF rep] lf(2), of ?repl])
  have "mset (chain_cells (new_chain key row n t L)) = mset (chain_cells A) + mset (chain_cells ?repl) + mset (chain_cells B)"
    using AB(2) by (simp add: new_chain_def lf(1) chain_cells_def ac_simps)
  also have "mset (chain_cells ?repl) = add_mset (key, row) (mset cells)"
    unfolding lf(1) by (rule leaf_ains_cells)
  finally show ?thesis using AB(1) by (simp add: chain_cells_def)
qed

text \<open>Short rows never make a split overflow.\<close>

definition short_cells :: "cell list \<Rightarrow> bool" where
  "short_cells cells \<longleftrightarrow> (\<forall>c \<in> set cells. cell_cost c \<le> safe_cost)"

lemma short_leaf_fits:
  assumes rep: "tree_rep V n t L" and short: "short_cells (chain_cells L)" "cell_cost (key, row) \<le> safe_cost"
  shows "leaf_fits key row (leaf_at key t)"
proof -
  have shape: "shape t" using rep tree_pages_shape by (auto simp: tree_rep_def)
  obtain i cells where lf: "leaf_at key t = Lf i cells" "(i, cells) \<in> set L"
    using leaf_at_Lf [OF shape] tree_rep_chain(1) [OF rep] by blast
  obtain A B where "L = A @ (i, cells) # B" using split_list [OF lf(2)] by blast
  then have leaf: "leaf_rep (V i) cells (first_of B 0)"
    using rep by (simp add: tree_rep_def chain_append)
  have "\<forall>c \<in> set (cell_insert key row cells). cell_cost c \<le> safe_cost"
    using short lf(2) by (auto simp: short_cells_def chain_cells_def)
  moreover have "cells_cost (cell_insert key row cells) \<le> leaf_capacity + safe_cost"
    using leaf_rep_cost [OF leaf] short(2) by simp
  ultimately show ?thesis
    using halves_fit_safe [of "cell_insert key row cells"] by (simp add: leaf_fits_def lf(1) disj_imp not_le)
qed

text \<open>The order of the chain when all keys are distinct.\<close>

definition in_order :: "bt \<Rightarrow> (u32 \<times> cell list) list \<Rightarrow> bool" where
  "in_order t L \<longleftrightarrow> ordered t \<and> L = leaves t"

lemma in_order_insert:
  assumes rep: "tree_rep V n t L" and ord: "in_order t L" and key: "key \<notin> fst ` set (chain_cells L)"
    and cost: "cell_cost (key, row) \<le> leaf_capacity"
  shows "in_order (fst (ainsert key row n t)) (new_chain key row n t L)"
    and "chain_cells (new_chain key row n t L) = cell_insert key row (chain_cells L)"
proof -
  have shape: "shape t" using rep tree_pages_shape by (auto simp: tree_rep_def)
  have L: "L = leaves t" "chain_cells L = cells_of t" "separated t" "cells_sorted (cells_of t)"
    using ord by (simp_all add: in_order_def ordered_def chain_cells_def cells_of_def)
  obtain r n' where r: "ains key row n t = (r, n')" by force
  have ins: "inserted key row t r (result_leaves (fst (ains key row n (leaf_at key t))))"
    using ains_inserted [OF shape L(3,4) key [unfolded L(2)] _ cost, of n] tree_rep_chain(2) [OF rep] r L(1) by simp
  then have new: "new_chain key row n t L = result_leaves r" and cells: "result_cells r = cell_insert key row (cells_of t)"
    by (simp_all add: inserted_def new_chain_def L(1))
  show "chain_cells (new_chain key row n t L) = cell_insert key row (chain_cells L)"
    unfolding new L(2) using cells by (cases r) (simp_all add: chain_cells_def cells_of_def)
  have sorted: "cells_sorted (result_cells r)"
    unfolding cells using L key by (intro cells_sorted_insert) simp_all
  show "in_order (fst (ainsert key row n t)) (new_chain key row n t L)"
    using ins sorted by (cases r) (auto simp: new in_order_def ordered_def ainsert_def r inserted_def first_key_def)
qed

section \<open>Trees in a pager\<close>

definition holds_tree :: "pager \<Rightarrow> u32 \<Rightarrow> bt \<Rightarrow> (u32 \<times> cell list) list \<Rightarrow> bool" where
  "holds_tree pg root t L \<longleftrightarrow>
     pager_ok pg \<and> npages pg \<le> MAX_PAGES \<and> bt_page t = root \<and> tree_rep (page_view pg) (npages pg) t L"

lemma pg_st: "pg.st pg0 s V n \<longleftrightarrow> pager_ok s \<and> same_base pg0 s \<and> page_view s = V \<and> npages s = n"
  by (auto simp: pg.st_def)

lemma same_base_refl [simp]: "same_base pg pg"
  by (simp add: same_base_def)

lemma holds_insert:
  assumes tree: "holds_tree pg root t L"
    and cost: "cell_cost (key, row) \<le> leaf_capacity" and fits: "leaf_fits key row (leaf_at key t)"
    and room: "snd (ainsert key row (npages pg) t) \<le> MAX_PAGES"
  shows "ok (btree_insert root key row) pg (\<lambda>root' pg'.
    holds_tree pg' root' (fst (ainsert key row (npages pg) t)) (new_chain key row (npages pg) t L) \<and>
    npages pg' = snd (ainsert key row (npages pg) t) \<and> same_base pg pg' \<and>
    (\<forall>p. p \<notin> set (pids t) \<longrightarrow> unat p < npages pg \<longrightarrow> page_view pg' p = page_view pg p))"
proof -
  obtain t' n' where a: "ainsert key row (npages pg) t = (t', n')" by force
  have "pg.st pg pg (page_view pg) (npages pg)" and rep: "tree_rep (page_view pg) (npages pg) t L" and root: "bt_page t = root"
    using tree by (simp_all add: holds_tree_def pg_st)
  from ok_mono [OF btree_insert_refines [OF this(1,2) cost fits a]] room a root
  show ?thesis by (auto simp: holds_tree_def pg_st)
qed

lemma holds_scan:
  assumes "holds_tree pg root t L"
  shows "ok (scan_all root) pg (\<lambda>rows pg'. rows = chain_rows L \<and> holds_tree pg' root t L \<and> same_base pg pg')"
proof -
  have "pg.st pg pg (page_view pg) (npages pg)" "npages pg \<le> MAX_PAGES" "tree_rep (page_view pg) (npages pg) t L"
    "bt_page t = root"
    using assms by (simp_all add: holds_tree_def pg_st)
  from ok_mono [OF scan_refines [OF this(1-3)]] this(2-4)
  show ?thesis by (auto simp: holds_tree_def pg_st)
qed

lemma holds_create:
  assumes "pager_ok pg" "0 < npages pg" "npages pg < MAX_PAGES"
  shows "ok create_tree pg (\<lambda>root pg'. root = of_nat (npages pg) \<and> holds_tree pg' root (Lf root []) [(root, [])] \<and>
    npages pg' = Suc (npages pg) \<and> same_base pg pg' \<and> (\<forall>p. p \<noteq> root \<longrightarrow> page_view pg' p = page_view pg p))"
proof -
  have "pg.st pg pg (page_view pg) (npages pg)" using assms(1) by (simp add: pg_st)
  from ok_mono [OF create_tree_ok [OF this assms(2,3)]] assms(3)
  show ?thesis by (auto simp: holds_tree_def pg_st)
qed

section \<open>Sequences of insertions\<close>

text \<open>A client that inserts the rows of a list one after the other.\<close>

primrec insert_many :: "u32 \<Rightarrow> cell list \<Rightarrow> (pager, u32) sm" where
  "insert_many root [] = ret root"
| "insert_many root (c # cs) = sbind (btree_insert root (fst c) (snd c)) (\<lambda>root'. insert_many root' cs)"

text \<open>
  The invariant of such a client: \<open>base\<close> pages besides the tree, no empty leaf except the
  first one, and two children or more in every internal node, which bound the pages in use.
\<close>

definition compact :: "nat \<Rightarrow> nat \<Rightarrow> bt \<Rightarrow> (u32 \<times> cell list) list \<Rightarrow> bool" where
  "compact base n t L \<longleftrightarrow> fat t \<and> n = base + length (pids t) \<and> (full_leaves L \<or> (\<exists>i. t = Lf i []))"

lemma compact_pages:
  assumes "compact base n t L" "tree_rep V n t L"
  shows "n \<le> base + max 1 (2 * length (chain_cells L) - 1)"
proof (cases "full_leaves L")
  case True
  have shape: "shape t" using assms(2) tree_pages_shape by (auto simp: tree_rep_def)
  have "length L = length (leaves t)" using assms(2) by (metis size_mset tree_rep_def)
  then show ?thesis
    using True assms fat_pids [OF shape] full_leaves_length [OF True] by (simp add: compact_def chain_cells_def)
qed (use assms in \<open>auto simp: compact_def\<close>)

lemma compact_insert:
  assumes rep: "tree_rep V n t L" and c: "compact base n t L" and cost: "cell_cost (key, row) \<le> leaf_capacity"
  shows "compact base (snd (ainsert key row n t)) (fst (ainsert key row n t)) (new_chain key row n t L)"
    and "snd (ainsert key row n t) \<le> base + 2 * length (chain_cells L) + 1"
proof -
  have shape: "shape t" using rep tree_pages_shape by (auto simp: tree_rep_def)
  obtain r n' where r: "ains key row n t = (r, n')" by force
  have n': "n \<le> n'" using ains_count [OF shape, of n key row] r by simp
  have ai: "ainsert key row n t = (case r of Same t' \<Rightarrow> (t', n') | Split l m q \<Rightarrow> (Nd (of_nat n') [l, q] [m], Suc n'))"
    by (cases r) (simp_all add: ainsert_def r)
  have base: "n = base + length (pids t)" using c by (simp add: compact_def)
  have "size (mset (result_pids r)) = size (mset (pids t) + mset (map of_nat [n..<n'] :: u32 list))"
    using ains_pids [OF shape, of key row n] r by simp
  then have len: "length (result_pids r) = length (pids t) + (n' - n)" by simp
  have full: "full_leaves (result_leaves r)"
  proof (cases "full_leaves L")
    case True
    then have "full_leaves (leaves t)" using tree_rep_chain(1) [OF rep] by (simp add: full_leaves_def)
    then show ?thesis using ains_full [OF shape cost] r by (metis fst_conv)
  next
    case False
    then obtain i where "t = Lf i []" using c by (auto simp: compact_def)
    then show ?thesis using full_repl [OF shape cost, of n] r by simp
  qed
  have fat: "list_all fat (result_trees r)" using ains_fat [OF shape, of key row n] c r by (simp add: compact_def)
  have "mset (new_chain key row n t L) = mset (result_leaves r)"
    using mset_new_chain [OF rep, of key row n] r by simp
  then have L': "set (new_chain key row n t L) = set (result_leaves r)" "length (new_chain key row n t L) = length (result_leaves r)"
    by (metis set_mset_mset, metis size_mset)
  have full': "full_leaves (new_chain key row n t L)" using full L'(1) by (simp add: full_leaves_def)
  have len_ins: "snd (ainsert key row n t) = base + length (pids (fst (ainsert key row n t)))"
    unfolding ai using base len n' by (cases r) simp_all
  have fat': "fat (fst (ainsert key row n t))"
    unfolding ai using fat by (cases r) simp_all
  show comp: "compact base (snd (ainsert key row n t)) (fst (ainsert key row n t)) (new_chain key row n t L)"
    unfolding compact_def using len_ins fat' full' by blast
  have shape': "shape (fst (ainsert key row n t))"
    using ains_shape [OF shape, of key row n] r unfolding ai by (cases r) (simp_all add: layout_values)
  have "length (leaves (fst (ainsert key row n t))) = length (result_leaves r)"
    unfolding ai by (cases r) simp_all
  moreover have "length (chain_cells (new_chain key row n t L)) = Suc (length (chain_cells L))"
    using new_chain_cells [OF rep, of key row] by (metis size_add_mset size_mset)
  ultimately show "snd (ainsert key row n t) \<le> base + 2 * length (chain_cells L) + 1"
    using fat_pids [OF shape' fat'] len_ins full_leaves_length [OF full'] L'(2) by (simp add: chain_cells_def)
qed

lemma safe_cost_fits: "cell_cost c \<le> safe_cost \<Longrightarrow> cell_cost c \<le> leaf_capacity"
  by (simp add: safe_cost_def leaf_capacity_def layout)

text \<open>The relation between the tree before and after a sequence of insertions.\<close>

definition grown :: "pager \<Rightarrow> bt \<Rightarrow> (u32 \<times> cell list) list \<Rightarrow> cell list \<Rightarrow> u32 \<Rightarrow> pager \<Rightarrow> bool" where
  "grown pg t L cs root' pg' \<longleftrightarrow> (\<exists>t' L'. holds_tree pg' root' t' L' \<and> same_base pg pg' \<and>
     mset (chain_cells L') = mset (chain_cells L) + mset cs \<and>
     (in_order t L \<longrightarrow> distinct (map fst (chain_cells L @ cs)) \<longrightarrow> in_order t' L'))"

lemma insert_many_ok:
  "holds_tree pg root t L \<Longrightarrow> compact base (npages pg) t L \<Longrightarrow> short_cells (chain_cells L) \<Longrightarrow> short_cells cs \<Longrightarrow>
   base + 2 * (length (chain_cells L) + length cs) \<le> MAX_PAGES \<Longrightarrow>
   ok (insert_many root cs) pg (grown pg t L cs)"
proof (induction cs arbitrary: pg root t L)
  case Nil
  then show ?case by (auto simp: ok_ret grown_def)
next
  case (Cons c cs)
  obtain key row where c: "c = (key, row)" by force
  let ?n = "npages pg" and ?L = "new_chain key row (npages pg) t L"
  have rep: "tree_rep (page_view pg) ?n t L" using Cons.prems(1) by (simp add: holds_tree_def)
  have cost: "cell_cost (key, row) \<le> safe_cost" using Cons.prems(4) by (simp add: c short_cells_def)
  note cost' = safe_cost_fits [OF cost]
  note comp = compact_insert [OF rep Cons.prems(2) cost']
  note cells = new_chain_cells [OF rep, of key row]
  have len: "length (chain_cells ?L) = Suc (length (chain_cells L))"
    using cells by (metis size_add_mset size_mset)
  have set: "set (chain_cells ?L) = Set.insert (key, row) (set (chain_cells L))"
    using arg_cong [OF cells, of set_mset] by simp
  have ins: "ok (btree_insert root key row) pg (\<lambda>root' pg'.
      holds_tree pg' root' (fst (ainsert key row ?n t)) ?L \<and> npages pg' = snd (ainsert key row ?n t) \<and> same_base pg pg')"
    by (rule ok_mono [OF holds_insert [OF Cons.prems(1) cost' short_leaf_fits [OF rep Cons.prems(3) cost]]])
      (use comp(2) Cons.prems(5) in auto)
  show ?case
    unfolding insert_many.simps ok_bind c fst_conv snd_conv
  proof (rule ok_mono [OF ins])
    fix root' pg'
    assume a: "holds_tree pg' root' (fst (ainsert key row ?n t)) ?L \<and> npages pg' = snd (ainsert key row ?n t) \<and> same_base pg pg'"
    have "ok (insert_many root' cs) pg' (grown pg' (fst (ainsert key row ?n t)) ?L cs)"
    proof (rule Cons.IH)
      show "compact base (npages pg') (fst (ainsert key row ?n t)) ?L" using comp(1) a by simp
      show "short_cells (chain_cells ?L)" using Cons.prems(3) cost set by (simp add: short_cells_def)
    qed (use a Cons.prems(4,5) len in \<open>simp_all add: short_cells_def\<close>)
    then show "ok (insert_many root' cs) pg' (grown pg t L ((key, row) # cs))"
    proof (rule ok_mono)
      fix r q assume g: "grown pg' (fst (ainsert key row ?n t)) ?L cs r q"
      have "in_order (fst (ainsert key row ?n t)) ?L" "distinct (map fst (chain_cells ?L @ cs))"
        if ord: "in_order t L" and dist: "distinct (map fst (chain_cells L @ (key, row) # cs))"
      proof -
        have "key \<notin> fst ` set (chain_cells L)" using dist by auto
        from in_order_insert(1) [OF rep ord this cost'] show "in_order (fst (ainsert key row ?n t)) ?L" .
        have "mset (map fst (chain_cells ?L @ cs)) = mset (map fst (chain_cells L @ (key, row) # cs))"
          using arg_cong [OF cells, of "image_mset fst"] by simp
        from mset_eq_imp_distinct_iff [OF this] dist show "distinct (map fst (chain_cells ?L @ cs))" by simp
      qed
      with g a cells show "grown pg t L ((key, row) # cs) r q"
        unfolding grown_def same_base_def by (elim exE conjE) (intro exI conjI impI; simp)
    qed
  qed
qed

section \<open>A new tree\<close>

text \<open>A new database file with a metadata page and an empty tree, as \<open>create_table\<close> makes it.\<close>

definition empty_tree_pager :: pager where
  "empty_tree_pager = snd (create_tree one_page_pager)"

lemma empty_tree_ok: "holds_tree empty_tree_pager 1 (Lf 1 []) [(1, [])]" "npages empty_tree_pager = 2"
proof -
  note pg = one_page_pager_ok
  have "ok create_tree one_page_pager (\<lambda>root pg'. root = 1 \<and> holds_tree pg' root (Lf root []) [(root, [])] \<and> npages pg' = 2)"
    using holds_create [OF pg(2)] pg(3) by (auto simp: MAX_PAGES_def elim!: ok_mono)
  then show "holds_tree empty_tree_pager 1 (Lf 1 []) [(1, [])]" "npages empty_tree_pager = 2"
    by (auto simp: empty_tree_pager_def elim!: okE)
qed

lemma new_tree_in_order: "in_order (Lf i []) [(i, [])]"
  by (simp add: in_order_def ordered_def)

lemma short_row: "length row \<le> 1350 \<Longrightarrow> cell_cost (key, row) \<le> safe_cost"
  by (simp add: cell_cost_eq safe_cost_def)

lemma ainsert_pages: "shape t \<Longrightarrow> snd (ainsert key row n t) \<le> n + depth_at key t + 1"
  using ains_count [of t n key row] by (auto simp: ainsert_def split: prod.split ires.split)

section \<open>The properties of the tree\<close>

text \<open>Property C6. An insertion into a well-formed tree of short rows succeeds as long as pages
  are left for the splits on its path: it returns the root of a well-formed tree with exactly
  one more cell, and touches no page outside the tree.\<close>

theorem insert_adds_row:
  assumes tree: "holds_tree pg root t L" and short: "short_cells (chain_cells L)" "length row \<le> 1350"
    and room: "npages pg + depth_at key t < MAX_PAGES"
  shows "ok (btree_insert root key row) pg (\<lambda>root' pg'. \<exists>t' L'. holds_tree pg' root' t' L' \<and>
    mset (chain_cells L') = add_mset (key, row) (mset (chain_cells L)) \<and> same_base pg pg' \<and>
    (\<forall>p. p \<notin> set (pids t) \<longrightarrow> unat p < npages pg \<longrightarrow> page_view pg' p = page_view pg p))"
proof -
  have rep: "tree_rep (page_view pg) (npages pg) t L" using tree by (simp add: holds_tree_def)
  have "snd (ainsert key row (npages pg) t) \<le> MAX_PAGES"
    using ainsert_pages [of t key row "npages pg"] rep tree_pages_shape room by (fastforce simp: tree_rep_def)
  from holds_insert [OF tree safe_cost_fits [OF short_row [OF short(2)]] short_leaf_fits [OF rep short(1) short_row [OF short(2)]] this]
  show ?thesis by (rule ok_mono) (use new_chain_cells [OF rep] in blast)
qed

theorem insert_adds_row_witness:
  "ok (btree_insert 1 7 [1, 2, 3]) empty_tree_pager (\<lambda>root' pg'. \<exists>t' L'. holds_tree pg' root' t' L' \<and>
     mset (chain_cells L') = {#(7, [1, 2, 3])#})"
  using insert_adds_row [OF empty_tree_ok(1), of "[1, 2, 3]" 7] empty_tree_ok(2)
  by (auto simp: short_cells_def chain_cells_def MAX_PAGES_def elim!: ok_mono)

text \<open>Property C8. Inserting a key that is not in an ordered tree of short rows performs, as long as
  pages are left for the splits on its path, the sorted insertion on the chain of cells, and
  the tree stays ordered.\<close>

theorem insert_keeps_order:
  assumes tree: "holds_tree pg root t L" and ord: "in_order t L" and key: "key \<notin> fst ` set (chain_cells L)"
    and short: "short_cells (chain_cells L)" "length row \<le> 1350"
    and room: "npages pg + depth_at key t < MAX_PAGES"
  shows "ok (btree_insert root key row) pg (\<lambda>root' pg'. \<exists>t' L'. holds_tree pg' root' t' L' \<and>
    in_order t' L' \<and> chain_cells L' = cell_insert key row (chain_cells L))"
proof -
  have rep: "tree_rep (page_view pg) (npages pg) t L" using tree by (simp add: holds_tree_def)
  have fits: "snd (ainsert key row (npages pg) t) \<le> MAX_PAGES"
    using ainsert_pages [of t key row "npages pg"] rep tree_pages_shape room by (fastforce simp: tree_rep_def)
  note cost = short_row [OF short(2), of key]
  from holds_insert [OF tree safe_cost_fits [OF cost] short_leaf_fits [OF rep short(1) cost] fits]
  show ?thesis
    by (rule ok_mono) (use in_order_insert [OF rep ord key safe_cost_fits [OF cost]] in blast)
qed

theorem insert_keeps_order_witness:
  "ok (btree_insert 1 7 [1]) empty_tree_pager (\<lambda>root' pg'. \<exists>t' L'. holds_tree pg' root' t' L' \<and>
     in_order t' L' \<and> chain_cells L' = [(7, [1])])"
  using insert_keeps_order [OF empty_tree_ok(1) new_tree_in_order, of 7 "[1]"] empty_tree_ok(2)
  by (auto simp: short_cells_def chain_cells_def MAX_PAGES_def elim!: ok_mono)

text \<open>Property C21. A scan of a well-formed tree returns the rows of its chain of leaves, in order,
  never runs out of fuel, and leaves the tree as it was.\<close>

theorem scan_returns_rows:
  assumes "holds_tree pg root t L"
  shows "ok (scan_all root) pg (\<lambda>rows pg'. rows = map snd (chain_cells L) \<and> holds_tree pg' root t L \<and> same_base pg pg')"
  using holds_scan [OF assms] by (simp add: chain_rows_cells)

theorem scan_returns_rows_witness: "ok (scan_all 1) empty_tree_pager (\<lambda>rows pg'. rows = [])"
  using scan_returns_rows [OF empty_tree_ok(1)] by (auto simp: chain_cells_def elim!: ok_mono)

lemma fill_grown:
  assumes "pager_ok pg" "0 < npages pg" "npages pg < MAX_PAGES" "\<forall>c \<in> set cs. length (snd c) \<le> 1350"
    and "npages pg + 2 * length cs \<le> MAX_PAGES"
  shows "ok (sbind create_tree (\<lambda>root. insert_many root cs)) pg (\<lambda>root' pg'. \<exists>t' L'. holds_tree pg' root' t' L' \<and>
    mset (chain_cells L') = mset cs \<and> (distinct (map fst cs) \<longrightarrow> in_order t' L'))"
  unfolding ok_bind
proof (rule ok_mono [OF holds_create [OF assms(1-3)]])
  fix root pg'
  assume a: "root = of_nat (npages pg) \<and> holds_tree pg' root (Lf root []) [(root, [])] \<and> npages pg' = Suc (npages pg) \<and>
    same_base pg pg' \<and> (\<forall>p. p \<noteq> root \<longrightarrow> page_view pg' p = page_view pg p)"
  have "ok (insert_many root cs) pg' (grown pg' (Lf root []) [(root, [])] cs)"
    by (rule insert_many_ok [where base = "npages pg"])
      (use a assms(4,5) short_row in \<open>auto simp: compact_def short_cells_def chain_cells_def\<close>)
  then show "ok (insert_many root cs) pg' (\<lambda>root' pg'. \<exists>t' L'. holds_tree pg' root' t' L' \<and>
      mset (chain_cells L') = mset cs \<and> (distinct (map fst cs) \<longrightarrow> in_order t' L'))"
    by (rule ok_mono) (use new_tree_in_order in \<open>auto simp: grown_def chain_cells_def\<close>)
qed

text \<open>A tree created and filled with any list of short rows, equal keys included, is
  scanned without loss: the scan returns exactly the inserted rows, as a multiset. Two pages
  per row are enough.\<close>

theorem fill_and_scan:
  assumes "pager_ok pg" "0 < npages pg" "npages pg < MAX_PAGES" "\<forall>c \<in> set cs. length (snd c) \<le> 1350"
    and "npages pg + 2 * length cs \<le> MAX_PAGES"
  shows "ok (sbind (sbind create_tree (\<lambda>root. insert_many root cs)) scan_all) pg
    (\<lambda>rows pg'. mset rows = mset (map snd cs))"
  unfolding ok_bind [of _ scan_all]
proof (rule ok_mono [OF fill_grown [OF assms]])
  fix root' pg'
  assume "\<exists>t' L'. holds_tree pg' root' t' L' \<and> mset (chain_cells L') = mset cs \<and> (distinct (map fst cs) \<longrightarrow> in_order t' L')"
  then obtain t' L' where t': "holds_tree pg' root' t' L'" "mset (chain_cells L') = mset cs" by blast
  show "ok (scan_all root') pg' (\<lambda>rows pg'. mset rows = mset (map snd cs))"
    by (rule ok_mono [OF holds_scan [OF t'(1)]]) (use t'(2) in \<open>auto simp: chain_rows_cells\<close>)
qed

theorem fill_and_scan_witness:
  "ok (sbind (sbind create_tree (\<lambda>root. insert_many root [(5, [1]), (5, [2])])) scan_all) one_page_pager
     (\<lambda>rows pg'. mset rows = {#[1], [2]#})"
  using fill_and_scan [of one_page_pager "[(5, [1]), (5, [2])]"] one_page_pager_ok
  by (auto simp: MAX_PAGES_def elim!: ok_mono)

text \<open>When the inserted keys are distinct, the scan returns the rows sorted by key
  (as signed integers), whatever the order of the insertions.\<close>

theorem fill_and_scan_sorted:
  assumes "pager_ok pg" "0 < npages pg" "npages pg < MAX_PAGES" "\<forall>c \<in> set cs. length (snd c) \<le> 1350"
    and "npages pg + 2 * length cs \<le> MAX_PAGES" and dist: "distinct (map fst cs)"
  shows "ok (sbind (sbind create_tree (\<lambda>root. insert_many root cs)) scan_all) pg
    (\<lambda>rows pg'. rows = map snd (sort_key (\<lambda>c. sint (fst c)) cs))"
  unfolding ok_bind [of _ scan_all]
proof (rule ok_mono [OF fill_grown [OF assms(1-5)]])
  fix root' pg'
  assume "\<exists>t' L'. holds_tree pg' root' t' L' \<and> mset (chain_cells L') = mset cs \<and> (distinct (map fst cs) \<longrightarrow> in_order t' L')"
  then obtain t' L' where t': "holds_tree pg' root' t' L'" "mset (chain_cells L') = mset cs" "in_order t' L'"
    using dist by blast
  have "sorted (map (\<lambda>c. sint (fst c)) (chain_cells L'))"
    using t'(3) by (auto simp: in_order_def ordered_def cells_sorted_def chain_cells_def cells_of_def
        sorted_wrt_map elim: sorted_wrt_mono_rel [rotated])
  moreover have "inj_on (\<lambda>c. sint (fst c)) (set cs)"
    using dist by (auto simp: inj_on_def distinct_map dest: signed_word_eqI)
  ultimately have "sort_key (\<lambda>c. sint (fst c)) cs = chain_cells L'"
    using t'(2) by (intro sort_key_inj_key_eq) simp_all
  then show "ok (scan_all root') pg' (\<lambda>rows pg'. rows = map snd (sort_key (\<lambda>c. sint (fst c)) cs))"
    by (intro ok_mono [OF holds_scan [OF t'(1)]]) (simp add: chain_rows_cells)
qed

theorem fill_and_scan_sorted_witness:
  "ok (sbind (sbind create_tree (\<lambda>root. insert_many root [(5, [1]), (- 3, [2])])) scan_all) one_page_pager
     (\<lambda>rows pg'. rows = [[2], [1]])"
  using fill_and_scan_sorted [of one_page_pager "[(5, [1]), (- 3, [2])]"] one_page_pager_ok
  by (auto simp: MAX_PAGES_def elim!: ok_mono)

section \<open>Equal keys\<close>

lemma holds_step:
  assumes tree: "holds_tree pg root t L" "npages pg = n" and short: "short_cells (chain_cells L)" "length row \<le> 1350"
    and a: "ainsert key row n t = (t', n')" "n' \<le> MAX_PAGES" "new_chain key row n t L = L'"
  shows "ok (btree_insert root key row) pg (\<lambda>root' pg'. holds_tree pg' root' t' L' \<and> npages pg' = n')"
proof -
  have rep: "tree_rep (page_view pg) (npages pg) t L" using tree by (simp add: holds_tree_def)
  note cost = short_row [OF short(2), of key]
  have "snd (ainsert key row (npages pg) t) \<le> MAX_PAGES" using a tree(2) by simp
  from holds_insert [OF tree(1) safe_cost_fits [OF cost] short_leaf_fits [OF rep short(1) cost] this]
  show ?thesis by (rule ok_mono) (use a tree(2) in auto)
qed

lemma insert_many_step:
  assumes "holds_tree pg root t L" "npages pg = n" "short_cells (chain_cells L)" "length row \<le> 1350"
    and "ainsert key row n t = (t', n')" "n' \<le> MAX_PAGES" "new_chain key row n t L = L'"
    and "\<And>root' pg'. holds_tree pg' root' t' L' \<Longrightarrow> npages pg' = n' \<Longrightarrow> ok (insert_many root' cs) pg' Q"
  shows "ok (insert_many root ((key, row) # cs)) pg Q"
  unfolding insert_many.simps fst_conv snd_conv ok_bind
  by (rule ok_mono [OF holds_step [OF assms(1-7)]]) (use assms(8) in blast)

text \<open>The sizes that matter below: two cells of 1362 bytes fill a leaf, three do not fit.\<close>

lemma long_cells:
  assumes "length r = 1350"
  shows "cell_cost (k, r) = 1362"
  using assms by (simp add: cell_cost_eq)

lemma long_split_point:
  assumes "length r1 = 1350" "length r2 = 1350" "length r3 = 1350"
  shows "split_point [(k1, r1), (k2, r2), (k3, r3)] = 1"
  using assms by (simp add: split_point_def long_cells)

lemmas dup_simps = ainsert_def new_chain_def Let_def long_cells long_split_point leaf_capacity_def layout
  layout_values cell_insert_Cons child_index_def node_add_def insert_at_def short_cells_def chain_cells_def safe_cost_def

lemma duplicate_inserts:
  assumes len: "length r1 = 1350" "length r2 = 1350" "length r3 = 1350" "length r4 = 1350" "length r5 = 1350"
  shows "ok (insert_many 1 [(5, r1), (5, r2), (5, r3), (6, r4), (6, r5)]) empty_tree_pager
    (\<lambda>root pg. \<exists>t. holds_tree pg root t [(1, [(5, r3)]), (2, [(5, r2), (6, r5)]), (4, [(5, r1), (6, r4)])])"
proof -
  have max: "2 \<le> MAX_PAGES" "4 \<le> MAX_PAGES" "5 \<le> MAX_PAGES" by (simp_all add: MAX_PAGES_def)
  let ?t1 = "Lf 1 [(5, r1)]" and ?t2 = "Lf 1 [(5, r2), (5, r1)]"
  let ?t3 = "Nd 3 [Lf 1 [(5, r3)], Lf 2 [(5, r2), (5, r1)]] [5]"
  let ?t4 = "Nd 3 [Lf 1 [(5, r3)], Lf 4 [(5, r1), (6, r4)], Lf 2 [(5, r2)]] [5, 5]"
  let ?t5 = "Nd 3 [Lf 1 [(5, r3)], Lf 4 [(5, r1), (6, r4)], Lf 2 [(5, r2), (6, r5)]] [5, 5]"
  have s1: "ainsert 5 r1 2 (Lf 1 []) = (?t1, 2)" "new_chain 5 r1 2 (Lf 1 []) [(1, [])] = [(1, [(5, r1)])]"
    using len by (simp_all add: dup_simps)
  have s2: "ainsert 5 r2 2 ?t1 = (?t2, 2)" "new_chain 5 r2 2 ?t1 [(1, [(5, r1)])] = [(1, [(5, r2), (5, r1)])]"
    using len by (simp_all add: dup_simps)
  have s3: "ainsert 5 r3 2 ?t2 = (?t3, 4)"
    "new_chain 5 r3 2 ?t2 [(1, [(5, r2), (5, r1)])] = [(1, [(5, r3)]), (2, [(5, r2), (5, r1)])]"
    using len by (simp_all add: dup_simps)
  have s4: "ainsert 6 r4 4 ?t3 = (?t4, 5)"
    "new_chain 6 r4 4 ?t3 [(1, [(5, r3)]), (2, [(5, r2), (5, r1)])] = [(1, [(5, r3)]), (2, [(5, r2)]), (4, [(5, r1), (6, r4)])]"
    using len by (simp_all add: dup_simps ains.simps(2))
  have s5: "ainsert 6 r5 5 ?t4 = (?t5, 5)"
    "new_chain 6 r5 5 ?t4 [(1, [(5, r3)]), (2, [(5, r2)]), (4, [(5, r1), (6, r4)])]
      = [(1, [(5, r3)]), (2, [(5, r2), (6, r5)]), (4, [(5, r1), (6, r4)])]"
    using len by (simp_all add: dup_simps ains.simps(2))
  have short: "short_cells (chain_cells L)" if "\<forall>b \<in> set L. \<forall>c \<in> set (snd b). length (snd c) = 1350" for L
    using that by (force simp: short_cells_def chain_cells_def cell_cost_eq safe_cost_def)
  show ?thesis
    by (rule insert_many_step [OF empty_tree_ok _ _ s1(1) max(1) s1(2)],
        simp add: short, simp add: len, rule insert_many_step [OF _ _ _ _ s2(1) max(1) s2(2)],
        assumption, assumption, simp add: short len, simp add: len, rule insert_many_step [OF _ _ _ _ s3(1) max(2) s3(2)],
        assumption, assumption, simp add: short len, simp add: len, rule insert_many_step [OF _ _ _ _ s4(1) max(3) s4(2)],
        assumption, assumption, simp add: short len, simp add: len, rule insert_many_step [OF _ _ _ _ s5(1) max(3) s5(2)],
        assumption, assumption, simp add: short len, simp add: len, auto simp: ok_ret)
qed

text \<open>Property C34. With equal keys the scan can be out of key order: after inserting the keys 5, 5,
  5, 6, 6 with rows of 1350 bytes, \<open>scan_all\<close> yields the rows of the keys 5, 5, 6, 5, 6,
  because \<open>insert_into_internal\<close> places a new separator by its key and not beside the leaf
  that was split.\<close>

theorem equal_keys_out_of_order:
  assumes len: "length r1 = 1350" "length r2 = 1350" "length r3 = 1350" "length r4 = 1350" "length r5 = 1350"
  shows "ok (sbind (insert_many 1 [(5, r1), (5, r2), (5, r3), (6, r4), (6, r5)]) scan_all) empty_tree_pager
    (\<lambda>rows pg. rows = [r3, r2, r5, r1, r4])"
  unfolding ok_bind [of _ scan_all]
proof (rule ok_mono [OF duplicate_inserts [OF len]])
  fix root pg
  assume "\<exists>t. holds_tree pg root t [(1, [(5, r3)]), (2, [(5, r2), (6, r5)]), (4, [(5, r1), (6, r4)])]"
  then obtain t where "holds_tree pg root t [(1, [(5, r3)]), (2, [(5, r2), (6, r5)]), (4, [(5, r1), (6, r4)])]" by blast
  from ok_mono [OF holds_scan [OF this]] show "ok (scan_all root) pg (\<lambda>rows pg. rows = [r3, r2, r5, r1, r4])"
    by (simp add: chain_rows_def)
qed

theorem equal_keys_out_of_order_witness:
  "let r = \<lambda>k. replicate 1350 k in
   ok (sbind (insert_many 1 [(5, r 1), (5, r 2), (5, r 3), (6, r 4), (6, r 5)]) scan_all) empty_tree_pager
    (\<lambda>rows pg. rows = [r 3, r 2, r 5, r 1, r 4])"
  unfolding Let_def by (rule equal_keys_out_of_order) (rule length_replicate)+

section \<open>Long rows\<close>

lemma split_leaf_overflow:
  assumes st: "pg.st pg0 s V n" "n < MAX_PAGES" and i: "unat i < n" "leaf_rep (V i) cells nx"
    and cost: "cell_cost (key, row) \<le> leaf_capacity" and full: "leaf_capacity < cells_cost (cell_insert key row cells)"
    and right: "PAGE_SIZE < cells_bytes (drop (split_point (cell_insert key row cells)) (cell_insert key row cells))"
  shows "fails (split_leaf i key row) s Panic"
proof -
  define all_cells lc where "all_cells = cell_insert key row cells" and "lc = split_point all_cells"
  have i': "unat i < MAX_PAGES" using st i by simp
  have un: "unat (of_nat n :: u32) = n" using pg.unat_page [OF st(2)] .
  have "cell_cost c \<le> cells_cost cells" if "c \<in> set cells" for c
    using that by (induction cells) auto
  then have each: "\<forall>c \<in> set all_cells. cell_cost c \<le> leaf_capacity"
    using cost leaf_rep_cost [OF i(2)] by (fastforce simp: all_cells_def)
  have "cells \<noteq> []" using full cost by auto
  then have "2 \<le> length all_cells" by (cases cells) (simp_all add: all_cells_def)
  then have left: "cells_cost (take lc all_cells) \<le> leaf_capacity"
    using each cost leaf_rep_cost [OF i(2)] by (simp add: lc_def left_half_fits all_cells_def)
  obtain p where p: "rbind (write_leaf_cells (take lc all_cells) (V i)) (\<lambda>p. leaf_set_next_leaf p (of_nat n)) = Inr p"
      "leaf_rep p (take lc all_cells) (of_nat n)"
    using write_half_ok [OF pg.st_length [OF st(1)] left] by blast
  let ?P = "\<lambda>page. \<lambda>s'. page = V i \<and> pg.st pg0 s' V n"
  have get: "ok (get_page i) s' ?P" if "pg.st pg0 s' V n" for s'
    by (rule pg.rd_ok [OF that i']) simp
  have alloc: "ok allocate_page s' (\<lambda>j s'. j = of_nat n \<and> pg.st pg0 s' V (Suc n))" if "pg.st pg0 s' V n" for s'
    by (rule pg.alloc_ok [OF that st(2)]) simp
  have half1: "ok (with_page_mut i (\<lambda>page. rbind (write_leaf_cells (take lc all_cells) page)
      (\<lambda>page. leaf_set_next_leaf page (of_nat n)))) s' (\<lambda>_ s'. pg.st pg0 s' (V(i := p)) (Suc n))"
    if "pg.st pg0 s' V (Suc n)" for s'
    by (rule pg.upd_ok [where V = V and f = "\<lambda>page. rbind (write_leaf_cells (take lc all_cells) page)
        (\<lambda>page. leaf_set_next_leaf page (of_nat n))", OF that _ i' p(1) leaf_rep_length [OF p(2)]]) (use i in auto)
  have half2: "fails (with_page_mut (of_nat n) (\<lambda>page. rbind (write_leaf_cells (drop lc all_cells) page)
      (\<lambda>page. leaf_set_next_leaf page nx))) s' Panic" if s': "pg.st pg0 s' (V(i := p)) (Suc n)" for s'
  proof (rule with_page_mut_fails)
    have v: "pager_ok s'" "page_view s' = V(i := p)" "npages s' = Suc n" using s' by (simp_all add: pg_st)
    then show "pager_ok s'" "unat (of_nat n :: u32) < npages s'" "unat (of_nat n :: u32) < MAX_PAGES"
      using un st(2) by simp_all
    show "rbind (write_leaf_cells (drop lc all_cells) (page_view s' (of_nat n))) (\<lambda>page. leaf_set_next_leaf page nx) = Inl Panic"
      using write_leaf_cells_overflow [OF page_view_length [OF v(1)], of "drop lc all_cells" "of_nat n"] right
      by (simp add: lc_def all_cells_def)
  qed
  show ?thesis
    unfolding split_leaf_def
    by (rule fails_bind2 [OF get [OF st(1)]], elim conjE, hypsubst,
        simp only: collect_leaf_cells_ok [OF i(2)] fails_liftR_bind Let_def all_cells_def [symmetric] lc_def [symmetric],
        rule fails_bind2 [OF get], assumption, elim conjE, hypsubst,
        simp only: leaf_rep_next [OF i(2)] fails_liftR_bind,
        rule fails_bind2 [OF alloc], assumption, elim conjE, hypsubst,
        rule fails_bind2 [OF half1], assumption, rule fails_bind1 [OF half2])
qed

text \<open>Property C35. The split point is chosen by the left half alone. When the cells left for the
  right half need more bytes than a page has, \<open>split_leaf\<close> panics on the subtraction that
  allots them: an insertion of a row within the documented maximum can end in a panic.\<close>

theorem long_row_split_panics:
  assumes tree: "holds_tree pg root (Lf root cells) L" and pages: "npages pg < MAX_PAGES"
    and cost: "cell_cost (key, row) \<le> leaf_capacity" and full: "leaf_capacity < cells_cost (cell_insert key row cells)"
    and right: "PAGE_SIZE < cells_bytes (drop (split_point (cell_insert key row cells)) (cell_insert key row cells))"
  shows "fails (btree_insert root key row) pg Panic"
proof -
  let ?V = "page_view pg"
  have st: "pg.st pg pg ?V (npages pg)" and rep: "tree_rep ?V (npages pg) (Lf root cells) L"
    using tree by (simp_all add: holds_tree_def pg_st)
  obtain nx where leaf: "leaf_rep (?V root) cells nx" and i: "unat root < npages pg"
    using rep by (auto simp: tree_rep_def)
  have i': "unat root < MAX_PAGES" using i pages by simp
  have get: "ok (get_page root) s' (\<lambda>p s'. p = ?V root \<and> pg.st pg s' ?V (npages pg))" if "pg.st pg s' ?V (npages pg)" for s'
    by (rule pg.rd_ok [OF that i']) simp
  have find: "ok (find_leaf WALK_FUEL key root []) pg (\<lambda>r s'. r = (root, []) \<and> pg.st pg s' ?V (npages pg))"
    unfolding WALK_FUEL_def add_Suc_right One_nat_def add_0_right find_leaf.simps ok_bind
    by (rule ok_mono [OF get [OF st]]) (simp add: ok_simps leaf_rep_type [OF leaf])
  have room: "\<not> SLOT_SIZE + (KEY_SIZE + length row) \<le> leaf_capacity - cells_cost cells"
    using full leaf_rep_cost [OF leaf] by (auto simp: cell_cost_def)
  have "\<not> MAX_CELL_DATA < KEY_SIZE + length row"
    using cost by (simp add: cell_cost_def leaf_capacity_def layout)
  moreover have "fails (insert_at_leaf root key row (root, [])) s' Panic" if s': "pg.st pg s' ?V (npages pg)" for s'
    unfolding insert_at_leaf_def prod.case Let_def
    by (rule fails_bind2 [OF get [OF s']], elim conjE, hypsubst,
        simp only: leaf_rep_free [OF leaf] fails_liftR_bind room if_False,
        rule fails_bind1 [OF split_leaf_overflow [where V = ?V, OF _ pages i leaf cost full right]])
  ultimately show ?thesis
    unfolding btree_insert_def by (auto intro!: fails_bind2 [OF find])
qed

text \<open>A panicking example within the limit of 2030 bytes per row: rows of 1018, 2030 and 1001 bytes
  fill a leaf exactly, and a row of 2030 bytes between the last two does not split.\<close>

lemma exact_leaf:
  assumes "length r1 = 1018" "length r2 = 2030" "length r4 = 1001"
  shows "ok (insert_many 1 [(1, r1), (2, r2), (4, r4)]) empty_tree_pager
    (\<lambda>root pg. root = 1 \<and> npages pg = 2 \<and> holds_tree pg 1 (Lf 1 [(1, r1), (2, r2), (4, r4)]) [(1, [(1, r1), (2, r2), (4, r4)])])"
proof -
  have step: "ok (btree_insert 1 key row) pg (\<lambda>root' pg'. root' = 1 \<and> npages pg' = 2 \<and>
      holds_tree pg' 1 (Lf 1 (cells @ [(key, row)])) [(1, cells @ [(key, row)])])"
    if "holds_tree pg 1 (Lf 1 cells) [(1, cells)]" "npages pg = 2"
      "cells_cost (cells @ [(key, row)]) \<le> leaf_capacity" "cell_insert key row cells = cells @ [(key, row)]" for pg key row cells
  proof -
    have a: "ainsert key row 2 (Lf 1 cells) = (Lf 1 (cells @ [(key, row)]), 2)"
      "new_chain key row 2 (Lf 1 cells) [(1, cells)] = [(1, cells @ [(key, row)])]"
      using that(3,4) by (simp_all add: ainsert_def new_chain_def Let_def)
    have "leaf_fits key row (leaf_at key (Lf 1 cells))" "cell_cost (key, row) \<le> leaf_capacity"
      using that(3,4) by (simp_all add: leaf_fits_def)
    moreover have "snd (ainsert key row (npages pg) (Lf 1 cells)) \<le> MAX_PAGES"
      by (simp add: that(2) a(1) MAX_PAGES_def)
    ultimately show ?thesis
      by (intro ok_mono [OF holds_insert [OF that(1)]]) (auto simp: that(2) a holds_tree_def)
  qed
  show ?thesis
    unfolding insert_many.simps ok_bind fst_conv snd_conv
    by (rule ok_mono [OF step [OF empty_tree_ok]], simp add: assms cell_cost_eq leaf_capacity_def layout, simp,
        elim conjE, hypsubst, rule ok_mono [OF step], assumption, assumption,
        simp add: assms cell_cost_eq leaf_capacity_def layout, simp add: cell_insert_Cons,
        elim conjE, hypsubst, rule ok_mono [OF step], assumption, assumption,
        simp add: assms cell_cost_eq leaf_capacity_def layout, simp add: cell_insert_Cons, simp add: ok_ret)
qed

theorem long_row_split_panics_witness:
  "let r = \<lambda>n. replicate n 0 in
   ok (insert_many 1 [(1, r 1018), (2, r 2030), (4, r 1001)]) empty_tree_pager
    (\<lambda>root pg. fails (btree_insert root 3 (r 2030)) pg Panic)"
  unfolding Let_def
proof (rule ok_mono [OF exact_leaf])
  fix root :: u32 and pg
  let ?r = "\<lambda>n. replicate n 0 :: byte list" and ?cells = "[(1, replicate 1018 0), (2, replicate 2030 0), (4, replicate 1001 0)] :: cell list"
  assume a: "root = 1 \<and> npages pg = 2 \<and> holds_tree pg 1 (Lf 1 ?cells) [(1, ?cells)]"
  have all_cells: "cell_insert 3 (?r 2030) ?cells = [(1, ?r 1018), (2, ?r 2030), (3, ?r 2030), (4, ?r 1001)]"
    by (simp add: cell_insert_Cons)
  show "fails (btree_insert root 3 (?r 2030)) pg Panic"
    using a by (auto intro!: long_row_split_panics [where cells = ?cells]
        simp: all_cells cell_cost_eq leaf_capacity_def layout MAX_PAGES_def split_point_def simp del: cell_insert_simps)
qed (rule length_replicate)+

end
