(* ===== verification/Btree_Dump.thy ===== *)
theory Btree_Dump
  imports Btree_Spec
begin

text \<open>
  \<open>dump_tree\<close> of \<open>src/btree.rs\<close>, the \<open>.btree\<close> command: it prints the abstract tree.
  \<open>render\<close> is the text of a tree, without pages and without fuel; the code on pages returns
  exactly this text and changes nothing.
\<close>

section \<open>The text of a tree\<close>

definition newline :: char where
  "newline = CHR 0x0A"

definition indent_of :: "nat \<Rightarrow> string" where
  "indent_of depth = concat (replicate depth ''  '')"

definition render_leaf :: "u32 \<Rightarrow> u32 \<Rightarrow> cell list \<Rightarrow> nat \<Rightarrow> string" where
  "render_leaf page nx cells depth =
     indent_of depth @ ''Leaf (page='' @ show_nat (unat page) @ '', cells='' @ show_nat (length cells)
       @ '', next='' @ show_nat (unat nx) @ '', free='' @ show_nat (leaf_capacity - cells_cost cells) @ '')''
       @ concat (map (\<lambda>c. newline # indent_of depth @ ''  - key '' @ show_int (sint (fst c))) cells)"

text \<open>An internal node: its children one level deeper, each but the last followed by its key.\<close>

definition render_entry :: "nat \<Rightarrow> string \<times> i64 \<Rightarrow> string" where
  "render_entry depth = (\<lambda>(s, k). newline # s @ newline # indent_of depth @ ''  key '' @ show_int (sint k))"

definition render_node :: "u32 \<Rightarrow> i64 list \<Rightarrow> string list \<Rightarrow> nat \<Rightarrow> string" where
  "render_node page ks ss depth =
     indent_of depth @ ''Internal (page='' @ show_nat (unat page) @ '', keys='' @ show_nat (length ks) @ '')''
       @ concat (map (render_entry depth) (zip (butlast ss) ks)) @ newline # last ss"

primrec render :: "(u32 \<Rightarrow> u32) \<Rightarrow> bt \<Rightarrow> nat \<Rightarrow> string" where
  "render nx (Lf i cells) = render_leaf i (nx i) cells"
| "render nx (Nd i cs ks) = (\<lambda>depth. render_node i ks (map (\<lambda>f. f (Suc depth)) (map (render nx) cs)) depth)"

text \<open>The leaf behind leaf \<open>i\<close> in the chain, 0 behind the last one.\<close>

fun next_page :: "(u32 \<times> cell list) list \<Rightarrow> u32 \<Rightarrow> u32" where
  "next_page [] i = 0"
| "next_page (b # L) i = (if fst b = i then first_of L 0 else next_page L i)"

lemma chain_next:
  "chain V L 0 \<Longrightarrow> distinct (map fst L) \<Longrightarrow> b \<in> set L \<Longrightarrow> leaf_rep (V (fst b)) (snd b) (next_page L (fst b))"
  by (induction L) auto

section \<open>The code prints it\<close>

lemma dump_leaf_keys_ok:
  assumes "leaf_rep p cells nx"
  shows "dump_leaf_keys p ind 0 (length cells) = Inr (concat (map (\<lambda>c. newline # ind @ ''  - key '' @ show_int (sint (fst c))) cells))"
proof -
  have "dump_leaf_keys p ind i n = Inr (concat (map (\<lambda>c. newline # ind @ ''  - key '' @ show_int (sint (fst c))) (take n (drop i cells))))"
    if "i + n = length cells" for i n
    using that
  proof (induction n arbitrary: i)
    case (Suc n)
    then have "i < length cells" by simp
    with Suc leaf_rep_cell(1) [OF assms this] show ?case
      by (simp add: Cons_nth_drop_Suc [symmetric] newline_def)
  qed simp
  from this [of 0 "length cells"] show ?thesis by simp
qed

lemma dump_entries_ok:
  assumes "\<And>e c s. (e, c) \<in> set (zip es cs) \<Longrightarrow> pg.st pg0 s V n \<Longrightarrow> ok (dump (fst e)) s (\<lambda>str s'. str = f c \<and> pg.st pg0 s' V n)"
    and "length cs = length es"
  shows "pg.st pg0 s V n \<Longrightarrow> ok (dump_entries dump (indent_of d) es out) s (\<lambda>str s'.
    str = out @ concat (map (render_entry d) (zip (map f cs) (map snd es))) \<and> pg.st pg0 s' V n)"
  using assms
proof (induction es arbitrary: cs out s)
  case Nil
  then show ?case by (simp add: ok_ret)
next
  case (Cons e es)
  obtain c cs' where cs: "cs = c # cs'" using Cons.prems(3) by (cases cs) auto
  have "ok (dump (fst e)) s (\<lambda>str s'. str = f c \<and> pg.st pg0 s' V n)"
    using Cons.prems(1,2) by (auto simp: cs)
  then show ?case
    unfolding dump_entries.simps ok_bind
  proof (rule ok_mono, elim conjE)
    fix str s' assume t: "str = f c" and s': "pgr.st pg0 s' V n"
    show "ok (dump_entries dump (indent_of d) es (out @ CHR 0x0A # str @ CHR 0x0A # indent_of d @ ''  key '' @ show_int (sint (snd e)))) s'
        (\<lambda>str s'. str = out @ concat (map (render_entry d) (zip (map f cs) (map snd (e # es)))) \<and> pg.st pg0 s' V n)"
      by (rule ok_mono [OF Cons.IH [OF s', of cs']])
        (use Cons.prems(2,3) in \<open>auto simp: cs t render_entry_def newline_def\<close>)
  qed
qed

lemma dump_children_ok:
  assumes es: "map fst es @ [r] = map bt_page cs"
    and child: "\<And>c s. c \<in> set cs \<Longrightarrow> pg.st pg0 s V n \<Longrightarrow> ok (dump (bt_page c)) s (\<lambda>str s'. str = f c \<and> pg.st pg0 s' V n)"
    and s: "pg.st pg0 s V n"
  shows "ok (sbind (dump_entries dump (indent_of d) es head) (\<lambda>out. sbind (dump r) (\<lambda>s. ret (out @ newline # s)))) s (\<lambda>str s'.
    str = head @ concat (map (render_entry d) (zip (map f (butlast cs)) (map snd es))) @ newline # f (last cs) \<and> pg.st pg0 s' V n)"
proof -
  have len: "length cs = Suc (length es)" using arg_cong [OF es, of length] by simp
  then have ne: "cs \<noteq> []" by auto
  have fst_es: "map fst es = map bt_page (butlast cs)" "r = bt_page (last cs)"
    using arg_cong [OF es, of butlast] arg_cong [OF es, of last] ne by (simp_all add: map_butlast last_map)
  have "ok (dump_entries dump (indent_of d) es head) s (\<lambda>str s'.
      str = head @ concat (map (render_entry d) (zip (map f (butlast cs)) (map snd es))) \<and> pg.st pg0 s' V n)"
  proof (rule dump_entries_ok [OF _ _ s])
    show "length (butlast cs) = length es" using len by simp
    fix e c s assume ec: "(e, c) \<in> set (zip es (butlast cs))" and s: "pg.st pg0 s V n"
    then obtain k where "k < length es" "e = es ! k" "c = butlast cs ! k" "k < length (butlast cs)" by (auto simp: set_zip)
    then have "fst e = bt_page c" "c \<in> set cs"
      using arg_cong [OF fst_es(1), of "\<lambda>xs. xs ! k"] in_set_butlastD [of c cs] by auto
    with child [OF _ s, of c] show "ok (dump (fst e)) s (\<lambda>str s'. str = f c \<and> pg.st pg0 s' V n)" by simp
  qed
  then show ?thesis
    unfolding ok_bind fst_es(2)
  proof (rule ok_mono, elim conjE)
    fix out s2 assume out: "out = head @ concat (map (render_entry d) (zip (map f (butlast cs)) (map snd es)))" and s2: "pg.st pg0 s2 V n"
    have "ok (dump (bt_page (last cs))) s2 (\<lambda>str s'. str = f (last cs) \<and> pg.st pg0 s' V n)" using child s2 ne by simp
    then show "ok (dump (bt_page (last cs))) s2 (\<lambda>s s'. ok (ret (out @ newline # s)) s' (\<lambda>str s'.
        str = head @ concat (map (render_entry d) (zip (map f (butlast cs)) (map snd es))) @ newline # f (last cs) \<and> pg.st pg0 s' V n))"
      by (rule ok_mono) (simp add: out ok_ret)
  qed
qed

text \<open>The page numbers of the leaves are those in use.\<close>

definition leaves_rep :: "(u32 \<Rightarrow> page) \<Rightarrow> (u32 \<Rightarrow> u32) \<Rightarrow> bt \<Rightarrow> bool" where
  "leaves_rep V nx t \<longleftrightarrow> (\<forall>b \<in> set (leaves t). leaf_rep (V (fst b)) (snd b) (nx (fst b)))"

lemma dump_tree_ok:
  assumes "tree_pages V t" "leaves_rep V nx t" "n \<le> MAX_PAGES" "\<forall>p \<in> set (pids t). unat p < n"
  shows "pg.st pg0 s V n \<Longrightarrow> length (pids t) \<le> fuel \<Longrightarrow>
    ok (dump_tree fuel (bt_page t) depth) s (\<lambda>str s'. str = render nx t depth \<and> pg.st pg0 s' V n)"
  using assms
proof (induction t arbitrary: fuel s depth)
  case (Lf i cells)
  then obtain fuel' where fuel: "fuel = Suc fuel'" by (cases fuel) auto
  have leaf: "leaf_rep (V i) cells (nx i)" using Lf.prems(4) by (simp add: leaves_rep_def)
  have i: "unat i < MAX_PAGES" using Lf.prems(5,6) by auto
  show ?case
    unfolding fuel dump_tree.simps bt_page.simps Let_def ok_bind indent_of_def [symmetric]
    by (rule pgr.rd_ok [OF Lf.prems(1) i], simp only: ok_liftR ok_bind leaf_rep_type [OF leaf] simp_thms if_True leaf_rep_num [OF leaf]
        leaf_rep_next [OF leaf] leaf_rep_free [OF leaf] dump_leaf_keys_ok [OF leaf])
      (simp add: ok_ret render_leaf_def)
next
  case (Nd i cs ks)
  then obtain es r where es: "internal_rep (V i) es r" "map fst es @ [r] = map bt_page cs" "map snd es = ks"
    by auto
  obtain fuel' where fuel: "fuel = Suc fuel'" using Nd.prems(2) by (cases fuel) auto
  have i: "unat i < MAX_PAGES" using Nd.prems(5,6) by auto
  let ?f = "\<lambda>c. render nx c (Suc depth)"
  have child: "ok (dump_tree fuel' (bt_page c) (Suc depth)) s (\<lambda>str s'. str = ?f c \<and> pg.st pg0 s' V n)"
    if "c \<in> set cs" "pg.st pg0 s V n" for c s
  proof (rule Nd.IH [OF that])
    have "length (pids c) \<le> length (concat (map pids cs))"
      using that(1) length_nth_concat [of _ cs pids] by (metis in_set_conv_nth)
    then show "length (pids c) \<le> fuel'" using Nd.prems(2) fuel by simp
  qed (use Nd.prems(3-6) that(1) in \<open>auto simp: leaves_rep_def list_all_iff\<close>)
  have ty: "NODE_TYPE_INTERNAL \<noteq> NODE_TYPE_LEAF" by (simp add: layout)
  have "length es = length ks" using es(3) by auto
  then have str: "render nx (Nd i cs ks) depth = indent_of depth @ ''Internal (page='' @ show_nat (unat i) @ '', keys='' @ show_nat (length es) @ '')''
      @ concat (map (render_entry depth) (zip (map ?f (butlast cs)) (map snd es))) @ newline # ?f (last cs)"
    using es(2,3) by (cases cs rule: rev_cases) (simp_all add: render_node_def comp_def)
  show ?case
    unfolding fuel dump_tree.simps bt_page.simps Let_def ok_bind [of "read_page i"] indent_of_def [symmetric]
  proof (rule pgr.rd_ok [OF Nd.prems(1) i], simp only: ok_liftR ok_bind [of "liftR _"] internal_rep_type [OF es(1)] ty if_False if_True
      internal_rep_num [OF es(1)] internal_rep_right [OF es(1)] read_entries_ok [OF es(1)] simp_thms, simp only: Suc_eq_plus1 [symmetric])
    fix s1 assume s1: "pgr.st pg0 s1 V n"
    show "ok (sbind (dump_entries (\<lambda>c. dump_tree fuel' c (Suc depth)) (indent_of depth) es
          (indent_of depth @ ''Internal (page='' @ show_nat (unat i) @ '', keys='' @ show_nat (length es) @ '')''))
        (\<lambda>out. sbind (dump_tree fuel' r (Suc depth)) (\<lambda>s. ret (out @ CHR 0x0A # s)))) s1
        (\<lambda>str s'. str = render nx (Nd i cs ks) depth \<and> pgr.st pg0 s' V n)"
      unfolding newline_def [symmetric]
      by (rule ok_mono [OF dump_children_ok [where dump = "\<lambda>c. dump_tree fuel' c (Suc depth)" and f = ?f, OF es(2) child s1]])
        (assumption, assumption, simp only: str append_assoc)
  qed
qed

section \<open>On a pager\<close>

lemma dump_refines:
  assumes st: "pg.st pg0 s V n" "n \<le> MAX_PAGES" and rep: "tree_rep V n t L"
  shows "ok (dump_tree WALK_FUEL (bt_page t) 0) s (\<lambda>str s'. str = render (next_page L) t 0 \<and> pg.st pg0 s' V n)"
proof (rule dump_tree_ok [OF _ _ st(2) _ st(1)])
  show "leaves_rep V (next_page L) t"
    using chain_next [of V L] tree_rep_chain [OF rep] rep by (auto simp: leaves_rep_def tree_rep_def)
  show "length (pids t) \<le> WALK_FUEL"
    using length_pids_less [OF rep] st(2) by (simp add: WALK_FUEL_def)
qed (use rep in \<open>simp_all add: tree_rep_def\<close>)

lemma holds_dump:
  assumes "holds_tree pg root t L"
  shows "ok (dump_tree WALK_FUEL root 0) pg (\<lambda>str pg'. str = render (next_page L) t 0 \<and> holds_tree pg' root t L \<and> same_base pg pg')"
proof -
  have rep: "bt_page t = root" "tree_rep (page_view pg) (npages pg) t L" "npages pg \<le> MAX_PAGES" "pg.st pg pg (page_view pg) (npages pg)"
    using assms by (simp_all add: holds_tree_def pg_st)
  from dump_refines [OF rep(4,3,2)] rep(1) assms show ?thesis by (auto simp: holds_tree_def pg_st elim!: ok_mono)
qed

section \<open>Properties\<close>

text \<open>Property C22. The \<open>.btree\<close> command prints the tree: the text is the rendering of the abstract
  tree, node by node, with the page, the free space and the successor of every leaf; it ends
  on every well-formed tree and changes nothing.\<close>

theorem dump_prints_tree:
  assumes "holds_tree pg root t L"
  shows "ok (dump_tree WALK_FUEL root 0) pg (\<lambda>str pg'. str = render (next_page L) t 0 \<and> holds_tree pg' root t L \<and> same_base pg pg')"
  using assms by (rule holds_dump)

theorem dump_prints_tree_witness:
  "ok (dump_tree WALK_FUEL 1 0) empty_tree_pager (\<lambda>str _. str = ''Leaf (page=1, cells=0, next=0, free=4085)'')"
  by (rule ok_mono [OF dump_prints_tree [OF empty_tree_ok(1)]])
    (simp add: render_leaf_def indent_of_def show_nat.simps leaf_capacity_def cells_cost_def layout)

text \<open>What a tree of two levels looks like.\<close>

lemma render_two_levels:
  "render (next_page [(1, [(5, [])]), (2, [(7, [])])]) (Nd 3 [Lf 1 [(5, [])], Lf 2 [(7, [])]] [7]) 0 =
   ''Internal (page=3, keys=1)'' @ newline # ''  Leaf (page=1, cells=1, next=2, free=4073)'' @ newline # ''    - key 5'' @
   newline # ''  key 7'' @ newline # ''  Leaf (page=2, cells=1, next=0, free=4073)'' @ newline # ''    - key 7''"
  by (simp add: render_node_def render_entry_def render_leaf_def indent_of_def show_nat.simps show_int_def leaf_capacity_def
      cells_cost_def cell_cost_eq layout newline_def)

end
