(* ===== verification/Durability.thy ===== *)
theory Durability
  imports Pager
begin

text \<open>
  What \<open>commit\<close> and \<open>rollback\<close> of \<open>src/pager.rs\<close> do to the files and to the contents:
  the loops of \<open>commit\<close> write the dirty pages to the log, then to the database; the logical
  contents do not change and are what is on disk afterwards. \<open>rollback\<close> returns to what is
  on disk. Theory \<open>Crash\<close> builds on this.
\<close>

section \<open>The dirty pages\<close>

definition dirty_entry :: "cache \<Rightarrow> nat \<Rightarrow> (nat \<times> page) list" where
  "dirty_entry c i = (if cache_dirty c ! i then (case cache_pages c ! i of Some p \<Rightarrow> [(i, p)] | None \<Rightarrow> []) else [])"

definition dirty_writes :: "pager \<Rightarrow> (nat \<times> page) list" where
  "dirty_writes pg = concat (map (dirty_entry (pg_cache pg)) [0..<MAX_PAGES])"

lemma dirty_entry_fst: "w \<in> set (dirty_entry c i) \<Longrightarrow> fst w = i"
  unfolding dirty_entry_def
  by (cases "cache_dirty c ! i"; cases "cache_pages c ! i"; simp)

lemma dirty_writes_range: "(i, p) \<in> set (dirty_writes pg) \<Longrightarrow> i < MAX_PAGES"
  unfolding dirty_writes_def using dirty_entry_fst [of "(i, p)"] by fastforce

lemma dirty_writes_iff:
  "i < MAX_PAGES \<Longrightarrow> (i, p) \<in> set (dirty_writes pg) \<longleftrightarrow> cache_dirty (pg_cache pg) ! i \<and> cache_pages (pg_cache pg) ! i = Some p"
  by (auto simp: dirty_writes_def dirty_entry_def split: if_splits option.splits)

lemma distinct_dirty_writes: "distinct (map fst (dirty_writes pg))"
proof -
  have "distinct (map fst (concat (map (dirty_entry c) [0..<n])))" for c n
  proof (induction n)
    case (Suc n)
    have "distinct (map fst (dirty_entry c n))"
      by (auto simp: dirty_entry_def split: option.split)
    moreover have "set (map fst (concat (map (dirty_entry c) [0..<n]))) \<subseteq> {..<n}"
      using dirty_entry_fst by fastforce
    ultimately show ?case using Suc dirty_entry_fst [of _ c n] by (auto simp: disjoint_iff)
  qed simp
  then show ?thesis by (simp add: dirty_writes_def)
qed

lemma dirty_writes_ok: "pager_ok pg \<Longrightarrow> pages_ok (dirty_writes pg)"
  using dirty_writes_range dirty_writes_iff pager_okD
  by (fastforce simp: pages_ok_def cache_entry_ok_def)

lemma map_of_dirty_writes:
  assumes "i < MAX_PAGES"
  shows "map_of (dirty_writes pg) i = (if cache_dirty (pg_cache pg) ! i then cache_pages (pg_cache pg) ! i else None)"
proof (cases "map_of (dirty_writes pg) i")
  case None
  then have "(i, p) \<notin> set (dirty_writes pg)" for p
    by (metis fst_conv image_eqI map_of_eq_None_iff)
  with None assms show ?thesis
    by (cases "cache_pages (pg_cache pg) ! i") (auto simp: dirty_writes_iff)
next
  case (Some p)
  then have "(i, p) \<in> set (dirty_writes pg)" by (rule map_of_SomeD)
  with Some assms show ?thesis by (simp add: dirty_writes_iff)
qed

section \<open>The loops of commit\<close>

definition page_ids :: "(nat \<times> page) list \<Rightarrow> (u32 \<times> page) list" where
  "page_ids ws = map (\<lambda>(i, p). (of_nat i, p)) ws"

lemma page_entries_append' [simp]:
  "page_ids (xs @ ys) = page_ids xs @ page_ids ys"
  "txn_entries t (us @ vs) = txn_entries t us @ txn_entries t vs"
  by (simp_all add: page_ids_def txn_entries_def)

lemma commit_log_one:
  "commit_log_step c i w = w\<lparr>wal_file := wal_file w @ encode_log (txn_entries (wal_txn_id w) (page_ids (dirty_entry c i)))\<rparr>"
  by (simp add: commit_log_step_def dirty_entry_def append_page_def append_end_def page_ids_def
      txn_entries_def split: option.split)

lemma commit_log_loop:
  "fold (commit_log_step c) is w =
     w\<lparr>wal_file := wal_file w @ encode_log (txn_entries (wal_txn_id w) (page_ids (concat (map (dirty_entry c) is))))\<rparr>"
proof (induction "is" arbitrary: w)
  case (Cons i "is")
  show ?case
    by (simp add: Cons commit_log_one [of c i w])
qed (simp add: page_ids_def txn_entries_def)

definition commit_entries :: "pager \<Rightarrow> log_entry list" where
  "commit_entries pg = txn_entries (wal_txn_id (pg_wal pg)) (page_ids (dirty_writes pg)) @ [CommitE (wal_txn_id (pg_wal pg))]"

lemma commit_apply_loop:
  assumes "distinct is" "\<forall>i \<in> set is. i < length d" "\<forall>i \<in> set is. d ! i = cache_dirty c ! i"
  shows "fold (commit_apply_step (cache_pages c)) is (f, d) =
    (write_pages (concat (map (dirty_entry c) is)) f, fold (\<lambda>i d. if cache_dirty c ! i \<and> cache_pages c ! i \<noteq> None then d[i := False] else d) is d)"
  using assms
proof (induction "is" arbitrary: f d)
  case (Cons i "is")
  let ?d = "if cache_dirty c ! i \<and> cache_pages c ! i \<noteq> None then d[i := False] else d"
  have "commit_apply_step (cache_pages c) i (f, d) = (write_pages (dirty_entry c i) f, ?d)"
    using Cons.prems(3) by (auto simp: commit_apply_step_def dirty_entry_def split: option.split)
  moreover have "\<forall>j \<in> set is. ?d ! j = cache_dirty c ! j"
  proof
    fix j assume j: "j \<in> set is"
    then have "i \<noteq> j" using Cons.prems(1) by auto
    then show "?d ! j = cache_dirty c ! j" using Cons.prems(3) j by simp
  qed
  ultimately show ?case
    using Cons.IH [of ?d "write_pages (dirty_entry c i) f"] Cons.prems by (simp add: write_pages_append)
qed simp

lemma clear_dirty_nth:
  assumes "j < length d"
  shows "length (fold (\<lambda>i d. if P i then d[i := False] else d) is d) = length d"
    and "fold (\<lambda>i d. if P i then d[i := False] else d) is d ! j = (if j \<in> set is \<and> P j then False else d ! j)"
proof -
  have "length (fold (\<lambda>i d. if P i then d[i := False] else d) is d) = length d \<and>
      fold (\<lambda>i d. if P i then d[i := False] else d) is d ! j = (if j \<in> set is \<and> P j then False else d ! j)"
    using assms
  proof (induction "is" arbitrary: d)
    case (Cons a "is")
    then show ?case by (cases "a = j") auto
  qed simp
  then show "length (fold (\<lambda>i d. if P i then d[i := False] else d) is d) = length d"
    and "fold (\<lambda>i d. if P i then d[i := False] else d) is d ! j = (if j \<in> set is \<and> P j then False else d ! j)"
    by simp_all
qed

lemma commit_state:
  assumes pg: "pager_ok pg"
  obtains d where "pager_commit pg = (Inr (), pg\<lparr>pg_file := write_pages (dirty_writes pg) (pg_file pg),
      pg_cache := (pg_cache pg)\<lparr>cache_dirty := d\<rparr>,
      pg_wal := \<lparr>wal_file = [], wal_txn_id = wal_txn_id (pg_wal pg) + 1\<rparr>, pg_in_txn := False\<rparr>)"
    "length d = MAX_PAGES" "\<And>i. i < MAX_PAGES \<Longrightarrow> \<not> d ! i"
proof -
  let ?c = "pg_cache pg"
  let ?d = "fold (\<lambda>i d. if cache_dirty ?c ! i \<and> cache_pages ?c ! i \<noteq> None then d[i := False] else d) [0..<MAX_PAGES] (cache_dirty ?c)"
  have len: "length (cache_dirty ?c) = MAX_PAGES" using pg by (simp add: pager_ok_def)
  have "fold (commit_apply_step (cache_pages ?c)) [0..<MAX_PAGES] (pg_file pg, cache_dirty ?c)
      = (write_pages (dirty_writes pg) (pg_file pg), ?d)"
    using commit_apply_loop [of "[0..<MAX_PAGES]" "cache_dirty ?c" ?c "pg_file pg"] len by (simp add: dirty_writes_def)
  moreover have "wal_truncate (append_commit (fold (commit_log_step ?c) [0..<MAX_PAGES] (pg_wal pg)))
      = \<lparr>wal_file = [], wal_txn_id = wal_txn_id (pg_wal pg) + 1\<rparr>"
    by (simp add: commit_log_loop append_commit_def wal_truncate_def)
  ultimately have run: "pager_commit pg = (Inr (), pg\<lparr>pg_file := write_pages (dirty_writes pg) (pg_file pg),
      pg_cache := ?c\<lparr>cache_dirty := ?d\<rparr>, pg_wal := \<lparr>wal_file = [], wal_txn_id = wal_txn_id (pg_wal pg) + 1\<rparr>, pg_in_txn := False\<rparr>)"
    by (simp add: pager_commit_def Let_def)
  have clean: "\<not> ?d ! i" if "i < MAX_PAGES" for i
  proof -
    have "cache_dirty ?c ! i \<Longrightarrow> cache_pages ?c ! i \<noteq> None"
      using pager_okD [OF pg that] by (auto simp: cache_entry_ok_def split: option.splits)
    then show ?thesis using clear_dirty_nth(2) [of i "cache_dirty ?c" _ "[0..<MAX_PAGES]"] that len by auto
  qed
  have "length ?d = MAX_PAGES"
    using clear_dirty_nth(1) [of 0 "cache_dirty ?c" _ "[0..<MAX_PAGES]"] len by (simp add: MAX_PAGES_def)
  with run clean show thesis by (intro that [of ?d]) blast+
qed

section \<open>What is on disk after a commit\<close>

lemma pager_lengths:
  assumes "pager_ok pg"
  shows "PAGE_SIZE dvd length (pg_file pg)" "PAGE_SIZE dvd pg_file_length pg" "length (pg_file pg) \<le> pg_file_length pg"
    "pg_file_length pg = length (pg_file pg) \<or> pg_file_length pg \<le> MAX_PAGES * PAGE_SIZE"
  using assms by (simp_all add: pager_ok_def lengths_ok_def)

text \<open>The file has all pages after the dirty ones are written: its length is the logical one.\<close>

lemma committed_length:
  assumes pg: "pager_ok pg"
  shows "length (write_pages (dirty_writes pg) (pg_file pg)) = pg_file_length pg"
proof (rule antisym)
  note ok = dirty_writes_ok [OF pg] and lens = pager_lengths [OF pg]
  let ?f = "write_pages (dirty_writes pg) (pg_file pg)"
  show "length ?f \<le> pg_file_length pg"
  proof (rule length_write_pages_le [OF ok _ lens(3)])
    fix w assume "w \<in> set (dirty_writes pg)"
    then obtain i p where w: "w = (i, p)" "i < MAX_PAGES" "cache_dirty (pg_cache pg) ! i" "cache_pages (pg_cache pg) ! i = Some p"
      using dirty_writes_range dirty_writes_iff by (metis surj_pair)
    then show "(fst w + 1) * PAGE_SIZE \<le> pg_file_length pg"
      using pager_okD [OF pg w(2)] by (simp add: cache_entry_ok_def)
  qed
  show "pg_file_length pg \<le> length ?f"
  proof (cases "pg_file_length pg = length (pg_file pg)")
    case True
    then show ?thesis using length_write_pages_ge(1) [OF ok, of "pg_file pg"] by simp
  next
    case False
    obtain a where a: "pg_file_length pg = a * PAGE_SIZE"
      using lens(2) by (metis dvdE mult.commute)
    obtain b where b: "length (pg_file pg) = b * PAGE_SIZE"
      using lens(1) by (metis dvdE mult.commute)
    have "b < a" using False lens(3) a b by (metis le_neq_implies_less mult_less_cancel2)
    then obtain i where i: "a = Suc i" "b \<le> i" by (cases a) auto
    have "i < MAX_PAGES" using lens(4) False a i by (simp add: PAGE_SIZE_def)
    moreover have "length (pg_file pg) \<le> i * PAGE_SIZE" "(i + 1) * PAGE_SIZE \<le> pg_file_length pg"
      using a b i by simp_all
    ultimately have "cache_dirty (pg_cache pg) ! i" "cache_pages (pg_cache pg) ! i \<noteq> None"
      using pager_okD [OF pg \<open>i < MAX_PAGES\<close>] by (auto simp: cache_entry_ok_def split: option.splits)
    then obtain p where "(i, p) \<in> set (dirty_writes pg)"
      using \<open>i < MAX_PAGES\<close> by (auto simp: dirty_writes_iff)
    from length_write_pages_ge(2) [OF ok this, of "pg_file pg"] show ?thesis using a i by simp
  qed
qed

lemma committed_disk_page:
  assumes pg: "pager_ok pg" and n: "unat n < MAX_PAGES"
  shows "disk_page (write_pages (dirty_writes pg) (pg_file pg)) (unat n) = page_view pg n"
  using disk_page_write_pages [OF dirty_writes_ok [OF pg] pager_lengths(1) [OF pg] distinct_dirty_writes, of "unat n"]
    map_of_dirty_writes [OF n, of pg] pager_okD [OF pg n] n
  by (auto simp: page_view_def cache_entry_ok_def split: option.splits if_splits)

text \<open>The contents that a file stands for, as a pager opened on it shows them.\<close>

definition file_view :: "byte list \<Rightarrow> u32 \<Rightarrow> page" where
  "file_view f n = (if unat n < MAX_PAGES then disk_page f (unat n) else zero_page)"

lemma committed_view: "pager_ok pg \<Longrightarrow> file_view (write_pages (dirty_writes pg) (pg_file pg)) = page_view pg"
  using committed_disk_page [of pg] by (auto simp: file_view_def fun_eq_iff page_view_def)

lemma clean_view:
  assumes "pager_ok pg" "\<And>i. i < MAX_PAGES \<Longrightarrow> \<not> cache_dirty (pg_cache pg) ! i"
  shows "page_view pg = file_view (pg_file pg)"
proof
  fix n
  show "page_view pg n = file_view (pg_file pg) n"
    using pager_okD [OF assms(1), of "unat n"] assms(2) [of "unat n"]
    by (auto simp: page_view_def file_view_def cache_entry_ok_def split: option.splits)
qed

lemma fl_eq: "pager_ok pg \<Longrightarrow> pg_file_length pg = npages pg * PAGE_SIZE"
  using pager_lengths(2) by (simp add: npages_def)

lemma commit_ok:
  assumes pg: "pager_ok pg"
  shows "ok pager_commit pg (\<lambda>_ pg'. pager_ok pg' \<and> page_view pg' = page_view pg \<and> npages pg' = npages pg \<and>
    file_view (pg_file pg') = page_view pg \<and> length (pg_file pg') = pg_file_length pg \<and>
    dirty_writes pg' = [] \<and> wal_file (pg_wal pg') = [] \<and> \<not> pg_in_txn pg')"
proof -
  obtain d where run: "pager_commit pg = (Inr (), pg\<lparr>pg_file := write_pages (dirty_writes pg) (pg_file pg),
      pg_cache := (pg_cache pg)\<lparr>cache_dirty := d\<rparr>,
      pg_wal := \<lparr>wal_file = [], wal_txn_id = wal_txn_id (pg_wal pg) + 1\<rparr>, pg_in_txn := False\<rparr>)"
    and d: "length d = MAX_PAGES" "\<And>i. i < MAX_PAGES \<Longrightarrow> \<not> d ! i"
    using commit_state [OF pg] by blast
  define pg' where "pg' = snd (pager_commit pg)"
  let ?f = "write_pages (dirty_writes pg) (pg_file pg)"
  have sel: "pg_file pg' = ?f" "pg_file_length pg' = pg_file_length pg" "cache_pages (pg_cache pg') = cache_pages (pg_cache pg)"
    "cache_dirty (pg_cache pg') = d" "wal_file (pg_wal pg') = []" "\<not> pg_in_txn pg'"
    by (simp_all add: pg'_def run)
  have len: "length ?f = pg_file_length pg" by (rule committed_length [OF pg])
  have ok': "pager_ok pg'"
    unfolding pager_ok_def sel
  proof (intro conjI allI impI)
    fix i assume i: "i < MAX_PAGES"
    then have n: "unat (of_nat i :: u32) = i" by (simp add: MAX_PAGES_def unat_of_nat_u32)
    have "\<not> (length ?f \<le> i * PAGE_SIZE \<and> (i + 1) * PAGE_SIZE \<le> pg_file_length pg)"
      by (auto simp: len PAGE_SIZE_def)
    moreover have "p = disk_page ?f i" "length p = PAGE_SIZE" if "cache_pages (pg_cache pg) ! i = Some p" for p
      using committed_disk_page [OF pg, of "of_nat i"] page_view_length [OF pg, of "of_nat i"] that i
      by (simp_all add: n page_view_def)
    ultimately show "cache_entry_ok ?f (pg_file_length pg) i (cache_pages (pg_cache pg) ! i) (d ! i)"
      using d(2) [OF i] by (auto simp: cache_entry_ok_def split: option.split)
  next
    show "lengths_ok (length ?f) (pg_file_length pg)"
      using pager_lengths [OF pg] by (simp add: lengths_ok_def len)
  qed (use pg d in \<open>simp_all add: pager_ok_def\<close>)
  have clean: "\<not> cache_dirty (pg_cache pg') ! i" if "i < MAX_PAGES" for i
    using d(2) that by (simp add: sel)
  then have "dirty_writes pg' = []" by (auto simp: dirty_writes_def dirty_entry_def)
  moreover have "page_view pg' = page_view pg"
    using clean_view [OF ok' clean] committed_view [OF pg] by (simp add: sel)
  ultimately show ?thesis
    using ok' committed_view [OF pg] sel len by (simp add: ok_def run pg'_def [symmetric] npages_def) (simp add: pg'_def run)
qed

text \<open>Rollback shows what is on disk.\<close>

lemma discard_nth:
  assumes "j < length (cache_pages c)" "j < length (cache_dirty c)"
  shows "length (cache_pages (fold discard_step is c)) = length (cache_pages c)"
    "length (cache_dirty (fold discard_step is c)) = length (cache_dirty c)"
    "cache_pages (fold discard_step is c) ! j = (if j \<in> set is \<and> cache_dirty c ! j then None else cache_pages c ! j)"
    "cache_dirty (fold discard_step is c) ! j = (if j \<in> set is then False else cache_dirty c ! j)"
proof -
  have "length (cache_pages (fold discard_step is c)) = length (cache_pages c) \<and>
    length (cache_dirty (fold discard_step is c)) = length (cache_dirty c) \<and>
    cache_pages (fold discard_step is c) ! j = (if j \<in> set is \<and> cache_dirty c ! j then None else cache_pages c ! j) \<and>
    cache_dirty (fold discard_step is c) ! j = (if j \<in> set is then False else cache_dirty c ! j)"
    using assms
  proof (induction "is" arbitrary: c)
    case (Cons a "is")
    then show ?case by (cases "a = j") (auto simp: discard_step_def)
  qed simp
  then show "length (cache_pages (fold discard_step is c)) = length (cache_pages c)"
    "length (cache_dirty (fold discard_step is c)) = length (cache_dirty c)"
    "cache_pages (fold discard_step is c) ! j = (if j \<in> set is \<and> cache_dirty c ! j then None else cache_pages c ! j)"
    "cache_dirty (fold discard_step is c) ! j = (if j \<in> set is then False else cache_dirty c ! j)"
    by simp_all
qed

lemma rollback_ok:
  assumes pg: "pager_ok pg"
  shows "ok pager_rollback pg (\<lambda>_ pg'. pager_ok pg' \<and> page_view pg' = file_view (pg_file pg) \<and>
    pg_file pg' = pg_file pg \<and> npages pg' * PAGE_SIZE = length (pg_file pg) \<and>
    dirty_writes pg' = [] \<and> wal_file (pg_wal pg') = [] \<and> \<not> pg_in_txn pg')"
proof -
  define pg' where "pg' = snd (pager_rollback pg)"
  let ?c = "fold discard_step [0..<MAX_PAGES] (pg_cache pg)"
  have sel: "pg_file pg' = pg_file pg" "pg_file_length pg' = length (pg_file pg)" "pg_cache pg' = ?c"
    "wal_file (pg_wal pg') = []" "\<not> pg_in_txn pg'"
    by (simp_all add: pg'_def pager_rollback_def wal_truncate_def)
  have lens: "length (cache_pages (pg_cache pg)) = MAX_PAGES" "length (cache_dirty (pg_cache pg)) = MAX_PAGES"
    using pg by (simp_all add: pager_ok_def)
  have nth: "cache_pages ?c ! i = (if cache_dirty (pg_cache pg) ! i then None else cache_pages (pg_cache pg) ! i)"
    "\<not> cache_dirty ?c ! i" if "i < MAX_PAGES" for i
    using discard_nth(3,4) [of i "pg_cache pg" "[0..<MAX_PAGES]"] that lens by simp_all
  have ok': "pager_ok pg'"
    unfolding pager_ok_def sel
  proof (intro conjI allI impI)
    show "length (cache_pages ?c) = MAX_PAGES" "length (cache_dirty ?c) = MAX_PAGES"
      using discard_nth(1,2) [of 0 "pg_cache pg" "[0..<MAX_PAGES]"] lens by (simp_all add: MAX_PAGES_def)
    show "lengths_ok (length (pg_file pg)) (length (pg_file pg))"
      using pager_lengths(1) [OF pg] by (simp add: lengths_ok_def)
    fix i assume i: "i < MAX_PAGES"
    show "cache_entry_ok (pg_file pg) (length (pg_file pg)) i (cache_pages ?c ! i) (cache_dirty ?c ! i)"
      using pager_okD [OF pg i] nth [OF i] by (auto simp: cache_entry_ok_def PAGE_SIZE_def split: option.splits)
  qed
  have clean: "\<not> cache_dirty (pg_cache pg') ! i" if "i < MAX_PAGES" for i
    using nth that by (simp add: sel)
  then have "dirty_writes pg' = []" by (auto simp: dirty_writes_def dirty_entry_def)
  moreover have "page_view pg' = file_view (pg_file pg)"
    using clean_view [OF ok' clean] by (simp add: sel)
  ultimately show ?thesis
    using ok' sel fl_eq [OF ok'] by (simp add: ok_def pager_rollback_def pg'_def)
qed

end
