(* ===== verification/Crash.thy ===== *)
theory Crash
  imports Durability
begin

text \<open>
  Crashes during \<open>commit\<close>. \<open>commit_ops\<close> is the sequence of file operations that \<open>commit\<close>
  performs (\<open>commit_ops_run\<close>: their effect is that of \<open>pager_commit\<close>); a crash stops
  after any number of them, in the middle of a write included, and what is left is opened
  again. Writes reach the disk in the order they are issued. \<open>commit_crash_atomic\<close>: the
  reopened pager shows the contents from before the transaction or those after it, provided
  the log was empty when the commit began and the file has a whole number of pages. The last
  section shows that both provisos matter.
\<close>

section \<open>File operations\<close>

datatype file_op = LogAppend "byte list" | DbWrite nat page | LogTruncate

type_synonym disk = "byte list \<times> byte list"

fun apply_op :: "file_op \<Rightarrow> disk \<Rightarrow> disk" where
  "apply_op (LogAppend bs) (db, log) = (db, log @ bs)"
| "apply_op (DbWrite i p) (db, log) = (write_at db (i * PAGE_SIZE) p, log)"
| "apply_op LogTruncate (db, log) = (db, [])"

text \<open>An operation cut short after \<open>k\<close> bytes.\<close>

fun torn_op :: "file_op \<Rightarrow> nat \<Rightarrow> disk \<Rightarrow> disk" where
  "torn_op (LogAppend bs) k (db, log) = (db, log @ take k bs)"
| "torn_op (DbWrite i p) k (db, log) = (if k = 0 then db else write_at db (i * PAGE_SIZE) (take k p), log)"
| "torn_op LogTruncate k (db, log) = (db, log)"

inductive crash :: "file_op list \<Rightarrow> disk \<Rightarrow> disk \<Rightarrow> bool" where
  crash_now: "crash ops d d"
| crash_torn: "crash (op # ops) d (torn_op op k d)"
| crash_later: "crash ops (apply_op op d) d' \<Longrightarrow> crash (op # ops) d d'"

inductive_cases crash_NilE: "crash [] d d'"
inductive_cases crash_ConsE: "crash (op # ops) d d'"

lemma crash_Nil [simp]: "crash [] d d' \<longleftrightarrow> d' = d"
  by (auto elim: crash_NilE intro: crash_now)

lemma crash_Cons:
  "crash (op # ops) d d' \<longleftrightarrow> d' = d \<or> (\<exists>k. d' = torn_op op k d) \<or> crash ops (apply_op op d) d'"
  by (rule iffI, erule crash_ConsE) (auto intro: crash.intros)

lemma crash_append:
  "crash (xs @ ys) d d' \<Longrightarrow> crash xs d d' \<or> crash ys (fold apply_op xs d) d'"
proof (induction xs arbitrary: d)
  case (Cons op xs)
  then show ?case
    using Cons.IH [of "apply_op op d"] unfolding append_Cons crash_Cons fold.simps o_apply by blast
qed simp

lemma crash_after: "crash ys (fold apply_op xs d) d' \<Longrightarrow> crash (xs @ ys) d d'"
proof (induction xs arbitrary: d)
  case (Cons op xs)
  then show ?case using Cons.IH [of "apply_op op d"] by (simp only: crash_Cons append_Cons fold.simps o_apply) simp
qed simp

lemma crash_done: "crash ops d (fold apply_op ops d)"
proof (induction ops arbitrary: d)
  case (Cons op ops)
  then show ?case using Cons.IH [of "apply_op op d"] by (simp only: crash_Cons fold.simps o_apply) simp
qed simp

section \<open>The operations of commit\<close>

definition commit_ops :: "pager \<Rightarrow> file_op list" where
  "commit_ops pg = map (\<lambda>e. LogAppend (encode_entry e)) (commit_entries pg) @
     map (\<lambda>w. DbWrite (fst w) (snd w)) (dirty_writes pg) @ [LogTruncate]"

lemma run_appends: "fold apply_op (map (\<lambda>e. LogAppend (encode_entry e)) es) (db, log) = (db, log @ encode_log es)"
  by (induction es arbitrary: log) simp_all

lemma run_writes: "fold apply_op (map (\<lambda>w. DbWrite (fst w) (snd w)) ws) (db, log) = (write_pages ws db, log)"
  by (induction ws arbitrary: db) simp_all

lemma commit_ops_run:
  assumes "pager_ok pg"
  shows "fold apply_op (commit_ops pg) (pg_file pg, wal_file (pg_wal pg)) =
    (pg_file (snd (pager_commit pg)), wal_file (pg_wal (snd (pager_commit pg))))"
  by (rule commit_state [OF assms]) (simp add: commit_ops_def run_appends run_writes)

text \<open>The states a crash can leave, phase by phase.\<close>

lemma crash_appends:
  "crash (map (\<lambda>e. LogAppend (encode_entry e)) es) (db, log) d' \<Longrightarrow> \<exists>m. d' = (db, log @ take m (encode_log es))"
proof (induction es arbitrary: log)
  case Nil
  then show ?case by simp
next
  case (Cons e es)
  consider "d' = (db, log)" | k where "d' = (db, log @ take k (encode_entry e))"
    | "crash (map (\<lambda>e. LogAppend (encode_entry e)) es) (db, log @ encode_entry e) d'"
    using Cons.prems by (auto simp: crash_Cons)
  then show ?case
  proof cases
    case 1
    then show ?thesis by (auto intro: exI [of _ 0])
  next
    case (2 k)
    then show ?thesis
      by (intro exI [of _ "min k (length (encode_entry e))"]) (simp add: min_def)
  next
    case 3
    then obtain m where "d' = (db, (log @ encode_entry e) @ take m (encode_log es))"
      using Cons.IH by blast
    then show ?thesis by (intro exI [of _ "length (encode_entry e) + m"]) simp
  qed
qed

lemma write_at_torn:
  assumes b: "length b = PAGE_SIZE" and k: "0 < k"
  shows "write_at (write_at f off (take k b)) off b = write_at f off b"
proof (rule file_eqI)
  have ne: "b \<noteq> []" "take k b \<noteq> []" using b k by (auto simp: PAGE_SIZE_def)
  then show "length (write_at (write_at f off (take k b)) off b) = length (write_at f off b)"
    by (auto simp: max_def)
  show "fbyte (write_at (write_at f off (take k b)) off b) i = fbyte (write_at f off b) i" for i
    by (auto simp: fbyte_write_at min_def)
qed

lemma absorb_torn:
  assumes "pages_ok ws" "distinct (map fst ws)" "(i, b) \<in> set ws" "0 < k"
  shows "write_pages ws (write_at f (i * PAGE_SIZE) (take k b)) = write_pages ws f"
proof -
  let ?g = "write_at f (i * PAGE_SIZE) (take k b)"
  have b: "length b = PAGE_SIZE" using assms(1,3) by (auto simp: pages_ok_def)
  have "write_pages ws ?g = write_pages ws (write_at ?g (i * PAGE_SIZE) b)"
    by (rule write_pages_absorb_one [OF assms(1-3), symmetric])
  also have "\<dots> = write_pages ws f"
    unfolding write_at_torn [OF b assms(4)] by (rule write_pages_absorb_one [OF assms(1-3)])
  finally show ?thesis .
qed

text \<open>Redoing all writes over any state of the second phase gives the state after all of them.\<close>

lemma crash_writes:
  assumes "pages_ok ws" "distinct (map fst ws)"
  shows "set part \<subseteq> set ws \<Longrightarrow> crash (map (\<lambda>w. DbWrite (fst w) (snd w)) part) (db, log) d' \<Longrightarrow>
    \<exists>db'. d' = (db', log) \<and> write_pages ws db' = write_pages ws db"
proof (induction part arbitrary: db)
  case Nil
  then show ?case by simp
next
  case (Cons w part)
  have w: "(fst w, snd w) \<in> set ws" using Cons.prems(1) by simp
  consider "d' = (db, log)" | k where "0 < k" "d' = (write_at db (fst w * PAGE_SIZE) (take k (snd w)), log)"
    | "crash (map (\<lambda>w. DbWrite (fst w) (snd w)) part) (write_at db (fst w * PAGE_SIZE) (snd w), log) d'"
    using Cons.prems(2) by (auto simp: crash_Cons split: if_splits)
  then show ?case
  proof cases
    case (2 k)
    then show ?thesis using absorb_torn [OF assms w] by simp
  next
    case 3
    then obtain db' where "d' = (db', log)" "write_pages ws db' = write_pages ws (write_at db (fst w * PAGE_SIZE) (snd w))"
      using Cons.IH Cons.prems(1) by auto
    then show ?thesis using write_pages_absorb_one [OF assms w] by simp
  qed simp
qed

section \<open>Opening what a crash left\<close>

lemma open_view:
  assumes "length f mod PAGE_SIZE = 0"
    and pg_def: "pg = \<lparr>pg_file = f, pg_file_length = length f, pg_cache = empty_cache, pg_wal = w, pg_in_txn = False\<rparr>"
  shows "pager_ok pg" "page_view pg = file_view f" "npages pg = length f div PAGE_SIZE"
proof -
  have "PAGE_SIZE dvd length f" using assms(1) by (simp add: dvd_eq_mod_eq_0)
  then show "pager_ok pg" unfolding pg_def by (intro empty_cache_ok) (simp add: lengths_ok_def)
  show "page_view pg = file_view f" "npages pg = length f div PAGE_SIZE"
    by (auto simp: pg_def page_view_def file_view_def empty_cache_def npages_def fun_eq_iff)
qed

text \<open>What a reopened database shows.\<close>

definition opens_to :: "disk \<Rightarrow> byte list \<Rightarrow> bool" where
  "opens_to d f \<longleftrightarrow> (\<forall>path. \<exists>pg. pager_open path (fst d) (snd d) = Inr pg \<and> pager_ok pg \<and>
     page_view pg = file_view f \<and> npages pg = length f div PAGE_SIZE)"

lemma apply_records_of:
  "\<forall>w \<in> set ws. fst w < MAX_PAGES \<Longrightarrow> apply_records (records_of (page_ids ws)) f = write_pages ws f"
proof -
  assume a: "\<forall>w \<in> set ws. fst w < MAX_PAGES"
  have "(unat (of_nat i :: u32), p) = (i, p)" if "(i, p) \<in> set ws" for i p
    using a that by (auto simp: MAX_PAGES_def unat_of_nat_u32)
  then have "map (\<lambda>w. (unat (of_nat (fst w) :: u32), snd w)) ws = map (\<lambda>w. w) ws"
    by (intro map_cong) auto
  then show ?thesis
    by (simp add: apply_records_def records_of_def page_ids_def o_def case_prod_beta)
qed

lemma opens_recovered:
  assumes "length db mod PAGE_SIZE = 0" "recover (wal_open log) = recs" "length (apply_records recs db) mod PAGE_SIZE = 0"
  shows "opens_to (db, log) (apply_records recs db)"
proof (cases "recs = []")
  case True
  then show ?thesis
    using assms open_view [OF assms(1) refl] by (auto simp: opens_to_def pager_open_def Let_def apply_records_def)
next
  case False
  then show ?thesis
    using assms open_view [OF assms(3) refl] by (auto simp: opens_to_def pager_open_def Let_def)
qed

lemma commit_entries_ok:
  assumes "pager_ok pg"
  shows "list_all entry_ok (commit_entries pg)"
proof -
  have "list_all (\<lambda>w. length (snd w) = PAGE_SIZE) (page_ids (dirty_writes pg))"
    using dirty_writes_ok [OF assms] by (auto simp: page_ids_def pages_ok_def list_all_iff)
  then show ?thesis by (simp add: commit_entries_def txn_entries_ok)
qed

lemma recover_commit_log:
  assumes "pager_ok pg"
  shows "m < length (encode_log (commit_entries pg)) \<Longrightarrow> recover (wal_open (take m (encode_log (commit_entries pg)))) = []"
    "recover (wal_open (encode_log (commit_entries pg))) = records_of (page_ids (dirty_writes pg))"
proof -
  let ?es = "commit_entries pg" and ?t = "wal_txn_id (pg_wal pg)"
  note ok = commit_entries_ok [OF assms]
  show "recover (wal_open (encode_log ?es)) = records_of (page_ids (dirty_writes pg))"
    using recover_log [OF ok, of "[]" 0] by (simp add: wal_open_def RECORD_SIZE_def) (simp add: commit_entries_def committed_txn)
  assume m: "m < length (encode_log ?es)"
  obtain k torn where k: "take m (encode_log ?es) = encode_log (take k ?es) @ torn" "length torn < RECORD_SIZE" "k < length ?es"
    using prefix_of_log [OF ok, of m] m by metis
  have "take k ?es = txn_entries ?t (take k (page_ids (dirty_writes pg)))"
    using k(3) by (simp add: commit_entries_def txn_entries_def take_map)
  moreover have "list_all entry_ok (take k ?es)"
    using ok by (auto simp: list_all_iff dest: in_set_takeD)
  ultimately show "recover (wal_open (take m (encode_log ?es))) = []"
    using recover_log [of "take k ?es" torn 0] k(1,2) by (simp add: wal_open_def uncommitted_txn)
qed

text \<open>A log that is complete is redone over whatever the second phase left of the file.\<close>

lemma opens_redo:
  assumes pg: "pager_ok pg" and db: "length db mod PAGE_SIZE = 0"
    and redo: "write_pages (dirty_writes pg) db = write_pages (dirty_writes pg) (pg_file pg)"
  shows "opens_to (db, encode_log (commit_entries pg)) (write_pages (dirty_writes pg) (pg_file pg))"
proof -
  have "\<forall>w \<in> set (dirty_writes pg). fst w < MAX_PAGES" using dirty_writes_range by (metis surj_pair prod.collapse)
  then have eq: "apply_records (records_of (page_ids (dirty_writes pg))) db = write_pages (dirty_writes pg) (pg_file pg)"
    using apply_records_of redo by simp
  have "length (write_pages (dirty_writes pg) (pg_file pg)) mod PAGE_SIZE = 0"
    using committed_length [OF pg] pager_lengths(2) [OF pg] by simp
  then show ?thesis
    using opens_recovered [OF db recover_commit_log(2) [OF pg]] eq by simp
qed

text \<open>Wherever \<open>commit\<close> is interrupted, what is left opens to the old file or to the new one.\<close>

lemma crash_opens:
  assumes pg: "pager_ok pg" and log: "wal_file (pg_wal pg) = []"
    and crash: "crash (commit_ops pg) (pg_file pg, wal_file (pg_wal pg)) d" and whole: "length (fst d) mod PAGE_SIZE = 0"
  shows "opens_to d (pg_file pg) \<or> opens_to d (write_pages (dirty_writes pg) (pg_file pg))"
proof -
  let ?es = "commit_entries pg" and ?ws = "dirty_writes pg" and ?f = "pg_file pg"
  let ?f' = "write_pages (dirty_writes pg) (pg_file pg)"
  have dvd: "length ?f mod PAGE_SIZE = 0" "length ?f' mod PAGE_SIZE = 0"
    using pager_lengths [OF pg] committed_length [OF pg] by simp_all
  note ws = dirty_writes_ok [OF pg] distinct_dirty_writes [of pg]
  consider "crash (map (\<lambda>e. LogAppend (encode_entry e)) ?es) (?f, []) d"
    | "crash (map (\<lambda>w. DbWrite (fst w) (snd w)) ?ws) (?f, encode_log ?es) d"
    | "crash [LogTruncate] (?f', encode_log ?es) d"
    using crash log unfolding commit_ops_def
    by (auto dest!: crash_append simp: run_appends run_writes)
  then show ?thesis
  proof cases
    case 1
    then obtain m where d: "d = (?f, take m (encode_log ?es))" using crash_appends by fastforce
    show ?thesis
    proof (cases "m < length (encode_log ?es)")
      case True
      then show ?thesis
        using opens_recovered [OF dvd(1) recover_commit_log(1) [OF pg True]] dvd(1) by (simp add: d apply_records_def)
    next
      case False
      then show ?thesis using opens_redo [OF pg dvd(1)] by (simp add: d)
    qed
  next
    case 2
    then obtain db where "d = (db, encode_log ?es)" "write_pages ?ws db = write_pages ?ws ?f"
      using crash_writes [OF ws subset_refl] by blast
    then show ?thesis using opens_redo [OF pg] whole by simp
  next
    case 3
    then have "d = (?f', encode_log ?es) \<or> d = (?f', [])" by (auto simp: crash_Cons)
    moreover have "write_pages ?ws ?f' = ?f'"
      by (rule write_pages_absorb [OF ws subset_refl])
    moreover have "recover (wal_open []) = []" by (simp add: recover_def wal_open_def)
    ultimately show ?thesis
      using opens_redo [OF pg dvd(2)] opens_recovered [OF dvd(2), of "[]" "[]"] dvd(2) by (auto simp: apply_records_def)
  qed
qed

section \<open>The properties of commit\<close>

text \<open>Property C30. \<open>commit\<close> does not change the contents, and leaves them durable: no dirty page,
  an empty log, and a database file that reopens to the same pages.\<close>

theorem commit_is_durable:
  assumes pg: "pager_ok pg"
  shows "ok pager_commit pg (\<lambda>_ pg'. pager_ok pg' \<and> page_view pg' = page_view pg \<and> npages pg' = npages pg \<and>
    \<not> pg_in_txn pg' \<and> dirty_writes pg' = [] \<and>
    (\<exists>q. pager_open path (pg_file pg') (wal_file (pg_wal pg')) = Inr q \<and> page_view q = page_view pg \<and> npages q = npages pg))"
proof (rule ok_mono [OF commit_ok [OF pg]])
  fix pg'
  assume a: "pager_ok pg' \<and> page_view pg' = page_view pg \<and> npages pg' = npages pg \<and>
    file_view (pg_file pg') = page_view pg \<and> length (pg_file pg') = pg_file_length pg \<and>
    dirty_writes pg' = [] \<and> wal_file (pg_wal pg') = [] \<and> \<not> pg_in_txn pg'"
  have "length (pg_file pg') mod PAGE_SIZE = 0" using a pager_lengths(2) [OF pg] by simp
  moreover have "recover (wal_open []) = []" by (simp add: recover_def wal_open_def)
  ultimately have "opens_to (pg_file pg', []) (pg_file pg')"
    using opens_recovered [of "pg_file pg'" "[]" "[]"] by (simp add: apply_records_def)
  then show "pager_ok pg' \<and> page_view pg' = page_view pg \<and> npages pg' = npages pg \<and> \<not> pg_in_txn pg' \<and> dirty_writes pg' = [] \<and>
    (\<exists>q. pager_open path (pg_file pg') (wal_file (pg_wal pg')) = Inr q \<and> page_view q = page_view pg \<and> npages q = npages pg)"
    using a by (auto simp: opens_to_def npages_def)
qed

theorem commit_is_durable_witness:
  "ok pager_commit fresh_pager (\<lambda>_ pg'. page_view pg' = page_view fresh_pager \<and>
     (\<exists>q. pager_open ''t.db'' (pg_file pg') (wal_file (pg_wal pg')) = Inr q \<and> npages q = 0))"
  using commit_is_durable [OF fresh_pager_ok(1), of "''t.db''"] fresh_pager_ok(2) by (auto elim!: ok_mono)

text \<open>A pager refuses a file that does not have a whole number of pages.\<close>

lemma torn_refused: "length db mod PAGE_SIZE \<noteq> 0 \<Longrightarrow> \<exists>msg. pager_open path db log = Inl (Fail msg)"
  unfolding pager_open_def by (simp only: if_True not_False_eq_True) blast

text \<open>The log after the first byte of a commit.\<close>

lemma crash_first_byte:
  assumes "pager_ok pg"
  obtains d where "crash (commit_ops pg) (f, log) d" "fst d = f" "length (snd d) = Suc (length log)"
proof -
  obtain e es where e: "commit_entries pg = e # es" by (cases "commit_entries pg") (auto simp: commit_entries_def)
  then obtain ops where "commit_ops pg = LogAppend (encode_entry e) # ops" by (simp add: commit_ops_def)
  then have "crash (commit_ops pg) (f, log) (f, log @ take 1 (encode_entry e))"
    using crash_torn [of "LogAppend (encode_entry e)" ops "(f, log)" 1] by simp
  moreover have "entry_ok e" using commit_entries_ok [OF assms] e by simp
  ultimately show ?thesis using that length_encode_entry [of e] by (simp add: RECORD_SIZE_def)
qed

text \<open>Property C7. Crash atomicity of \<open>commit\<close>: started with an empty log and interrupted anywhere,
  inside a write included, it leaves files of which opening shows nothing but the contents of
  the database file before the commit or the contents of the pager at the commit. Opening
  succeeds exactly when the database file has a whole number of pages; a crash inside the
  write of a page past its end leaves one that is refused with an error.\<close>

theorem commit_crash_atomic:
  assumes pg: "pager_ok pg" and log: "wal_file (pg_wal pg) = []"
    and crash: "crash (commit_ops pg) (pg_file pg, wal_file (pg_wal pg)) d"
  shows "if length (fst d) mod PAGE_SIZE = 0
    then \<exists>q. pager_open path (fst d) (snd d) = Inr q \<and> pager_ok q \<and>
      (page_view q = file_view (pg_file pg) \<or> page_view q = page_view pg)
    else \<exists>msg. pager_open path (fst d) (snd d) = Inl (Fail msg)"
proof (cases "length (fst d) mod PAGE_SIZE = 0")
  case True
  then show ?thesis using crash_opens [OF assms] committed_view [OF pg] by (fastforce simp: opens_to_def)
qed (simp add: torn_refused)

text \<open>The new database with one page: page 0 is its only dirty page.\<close>

lemma one_page_dirty: "dirty_writes one_page_pager \<noteq> []"
proof -
  have 0: "0 < MAX_PAGES" by (simp add: MAX_PAGES_def)
  have "pg_file_length one_page_pager = PAGE_SIZE"
    using fl_eq [OF one_page_pager_ok(2)] one_page_pager_ok(3) by simp
  then have "cache_dirty (pg_cache one_page_pager) ! 0"
    using pager_okD [OF one_page_pager_ok(2) 0] one_page_pager_ok(4) by (simp add: cache_entry_ok_def)
  moreover from this obtain p where "cache_pages (pg_cache one_page_pager) ! 0 = Some p"
    using pager_okD [OF one_page_pager_ok(2) 0] by (auto simp: cache_entry_ok_def split: option.splits)
  ultimately have "(0, p) \<in> set (dirty_writes one_page_pager)" using 0 by (simp add: dirty_writes_iff)
  then show ?thesis by auto
qed

theorem commit_crash_atomic_witness:
  "\<exists>d q. crash (commit_ops one_page_pager) ([], []) d \<and> length (snd d) = 1 \<and> pager_open ''t.db'' (fst d) (snd d) = Inr q \<and>
     (page_view q = file_view [] \<or> page_view q = page_view one_page_pager)"
proof -
  note p = one_page_pager_ok
  obtain d where d: "crash (commit_ops one_page_pager) ([], []) d" "fst d = []" "length (snd d) = 1"
    using crash_first_byte [OF p(2), of "[]" "[]"] by auto
  then have "crash (commit_ops one_page_pager) (pg_file one_page_pager, wal_file (pg_wal one_page_pager)) d" using p by simp
  from commit_crash_atomic [OF p(2,5) this, of "''t.db''"] d p(4) show ?thesis by (intro exI [of _ d]) auto
qed

text \<open>A rollback discards exactly the uncommitted writes: the contents are again those
  of the database file, whose bytes it does not touch, and no dirty page is left.\<close>

theorem rollback_discards:
  assumes pg: "pager_ok pg"
  shows "ok pager_rollback pg (\<lambda>_ pg'. pager_ok pg' \<and> page_view pg' = file_view (pg_file pg) \<and> pg_file pg' = pg_file pg \<and>
    npages pg' * PAGE_SIZE = length (pg_file pg) \<and> dirty_writes pg' = [] \<and> \<not> pg_in_txn pg')"
  by (rule ok_mono [OF rollback_ok [OF pg]]) blast

theorem rollback_discards_witness:
  "ok pager_rollback one_page_pager (\<lambda>_ pg'. npages pg' = 0 \<and> page_view pg' = file_view [])"
  using rollback_discards [OF one_page_pager_ok(2)] one_page_pager_ok(4) by (auto simp: PAGE_SIZE_def elim!: ok_mono)

section \<open>Where recovery falls short\<close>

text \<open>Property C32. When a crash interrupts the write of a page past the end of the database file,
  the file no longer has a whole number of pages, and \<open>Pager::open\<close> refuses it before it
  looks at the log, although the log holds the whole committed transaction.\<close>

theorem torn_extension_unopenable:
  assumes pg: "pager_ok pg" and log: "wal_file (pg_wal pg) = []"
    and ext: "dirty_writes pg = w # ws" "length (pg_file pg) \<le> fst w * PAGE_SIZE"
  shows "\<exists>d. crash (commit_ops pg) (pg_file pg, wal_file (pg_wal pg)) d \<and>
    recover (wal_open (snd d)) = records_of (page_ids (dirty_writes pg)) \<and>
    (\<forall>path. \<exists>msg. pager_open path (fst d) (snd d) = Inl (Fail msg))"
proof -
  let ?app = "map (\<lambda>e. LogAppend (encode_entry e)) (commit_entries pg)"
  let ?log = "encode_log (commit_entries pg)" and ?off = "fst w * PAGE_SIZE"
  let ?d = "(write_at (pg_file pg) ?off (take 1 (snd w)), ?log) :: disk"
  have "crash (DbWrite (fst w) (snd w) # map (\<lambda>w. DbWrite (fst w) (snd w)) ws @ [LogTruncate]) (pg_file pg, ?log) ?d"
    using crash_torn [of "DbWrite (fst w) (snd w)" _ "(pg_file pg, ?log)" 1] by simp
  then have "crash (commit_ops pg) (pg_file pg, wal_file (pg_wal pg)) ?d"
    unfolding commit_ops_def by - (rule crash_after, simp add: run_appends log ext(1))
  moreover have "length (snd w) = PAGE_SIZE" using dirty_writes_ok [OF pg] ext(1) by (simp add: pages_ok_def)
  then have "length (take 1 (snd w)) = 1" "take 1 (snd w) \<noteq> []" by (auto simp: PAGE_SIZE_def)
  then have "length (fst ?d) = ?off + 1" using ext(2) by (simp add: max_def)
  then have "length (fst ?d) mod PAGE_SIZE = 1 mod PAGE_SIZE" by (simp only: mod_mult_self3)
  then have "length (fst ?d) mod PAGE_SIZE \<noteq> 0" by (simp add: PAGE_SIZE_def)
  then have "\<forall>path. \<exists>msg. pager_open path (fst ?d) (snd ?d) = Inl (Fail msg)" using torn_refused by blast
  moreover have "recover (wal_open (snd ?d)) = records_of (page_ids (dirty_writes pg))"
    using recover_commit_log(2) [OF pg] by simp
  ultimately show ?thesis by blast
qed

theorem torn_extension_unopenable_witness:
  "\<exists>d. crash (commit_ops one_page_pager) ([], []) d \<and> (\<exists>msg. pager_open ''t.db'' (fst d) (snd d) = Inl (Fail msg))"
proof -
  obtain w ws where "dirty_writes one_page_pager = w # ws" using one_page_dirty by (cases "dirty_writes one_page_pager") auto
  from torn_extension_unopenable [OF one_page_pager_ok(2,5) this] show ?thesis
    using one_page_pager_ok(4,5) by fastforce
qed

text \<open>Property C33. \<open>recover\<close> leaves the records of an uncommitted transaction in the log, and a
  reopened log numbers its transactions from 0 again. So a transaction that was cut short,
  and that the first reopening rightly ignores, is applied after all when a later process
  crashes at its own first commit, after that commit's log is complete.\<close>

theorem stale_records_committed:
  assumes first: "pager_open path db (encode_log (txn_entries 0 (page_ids [(i, p)]))) = Inr q0"
    and later: "pager_ok q" "same_base q0 q"
    and page: "i < MAX_PAGES" "length p = PAGE_SIZE" "i \<notin> fst ` set (dirty_writes q)"
  shows "page_view q0 (of_nat i) = disk_page db i \<and> pg_file q = db \<and>
    (\<exists>d q'. crash (commit_ops q) (pg_file q, wal_file (pg_wal q)) d \<and>
      pager_open path' (fst d) (snd d) = Inr q' \<and> page_view q' (of_nat i) = p)"
proof -
  let ?stale = "txn_entries 0 (page_ids [(i, p)]) :: log_entry list" and ?ws = "dirty_writes q"
  have n: "unat (of_nat i :: u32) = i" using page(1) by (simp add: MAX_PAGES_def unat_of_nat_u32)
  have stale_ok: "list_all entry_ok ?stale" using page(2) by (simp add: txn_entries_ok page_ids_def)
  have "recover (wal_open (encode_log ?stale)) = []"
    using recover_log [OF stale_ok, of "[]" 0] by (simp add: wal_open_def RECORD_SIZE_def uncommitted_txn)
  then have db: "length db mod PAGE_SIZE = 0" and q0: "q0 = \<lparr>pg_file = db, pg_file_length = length db,
      pg_cache = empty_cache, pg_wal = wal_open (encode_log ?stale), pg_in_txn = False\<rparr>"
    using first by (auto simp: pager_open_def Let_def split: if_splits)
  have q: "pg_file q = db" "pg_wal q = wal_open (encode_log ?stale)"
    using later(2) by (simp_all add: same_base_def q0)
  let ?es = "?stale @ commit_entries q" and ?all = "(i, p) # ?ws"
  let ?d = "(db, encode_log ?es) :: disk"
  have es_ok: "list_all entry_ok ?es" using stale_ok commit_entries_ok [OF later(1)] by simp
  have "committed_records ?es = committed_records (txn_entries 0 (page_ids ?all) @ [CommitE 0])"
    by (simp add: commit_entries_def q(2) wal_open_def page_ids_def txn_entries_def)
  then have recs: "recover (wal_open (encode_log ?es)) = records_of (page_ids ?all)"
    using recover_log [OF es_ok, of "[]" 0] by (simp add: wal_open_def RECORD_SIZE_def committed_txn)
  have "\<forall>w \<in> set ?all. fst w < MAX_PAGES" using dirty_writes_range page(1) by auto
  then have eq: "apply_records (records_of (page_ids ?all)) db = write_pages ?all db"
    by (rule apply_records_of)
  have all_ok: "pages_ok ?all" "distinct (map fst ?all)"
    using dirty_writes_ok [OF later(1)] distinct_dirty_writes [of q] page(2,3) by (auto simp: pages_ok_def)
  have dvd: "PAGE_SIZE dvd length db" using db by (simp add: dvd_eq_mod_eq_0)
  then have "length (write_pages ?all db) mod PAGE_SIZE = 0"
    using dvd_write_pages [OF all_ok(1)] by (simp add: dvd_eq_mod_eq_0 del: write_pages.simps)
  then have "opens_to ?d (write_pages ?all db)"
    using opens_recovered [OF db recs] eq by simp
  then obtain q' where q': "pager_open path' (fst ?d) (snd ?d) = Inr q'" "page_view q' = file_view (write_pages ?all db)"
    by (auto simp: opens_to_def)
  have "page_view q' (of_nat i) = p"
    using disk_page_write_pages [OF all_ok(1) dvd all_ok(2), of i] page(1) by (simp add: q'(2) file_view_def n)
  moreover have "crash (commit_ops q) (pg_file q, wal_file (pg_wal q)) ?d"
    unfolding commit_ops_def by (rule crash_after) (simp add: run_appends q wal_open_def crash_now)
  moreover have "page_view q0 (of_nat i) = disk_page db i"
    using page(1) by (simp add: q0 page_view_def n empty_cache_def)
  ultimately show ?thesis using q(1) q'(1) by blast
qed

theorem stale_records_committed_witness:
  "\<exists>q0 d q'. pager_open ''t.db'' [] (encode_log (txn_entries 0 (page_ids [(0, replicate PAGE_SIZE 7)]))) = Inr q0 \<and>
     page_view q0 0 = zero_page \<and> crash (commit_ops q0) ([], wal_file (pg_wal q0)) d \<and>
     pager_open ''t.db'' (fst d) (snd d) = Inr q' \<and> page_view q' 0 = replicate PAGE_SIZE 7"
proof -
  let ?log = "encode_log (txn_entries 0 (page_ids [(0, replicate PAGE_SIZE 7)]))"
  have "recover (wal_open ?log) = []"
    using recover_log [of "txn_entries 0 (page_ids [(0, replicate PAGE_SIZE 7)])" "[]" 0]
    by (simp add: wal_open_def RECORD_SIZE_def uncommitted_txn txn_entries_ok page_ids_def)
  then obtain q0 where q0: "pager_open ''t.db'' [] ?log = Inr q0" "q0 = \<lparr>pg_file = [], pg_file_length = length ([] :: byte list),
      pg_cache = empty_cache, pg_wal = wal_open ?log, pg_in_txn = False\<rparr>"
    by (simp add: pager_open_def Let_def)
  have ok: "pager_ok q0" using open_view(1) [of "[]" q0] q0(2) by simp
  have "dirty_writes q0 = []" by (auto simp: q0(2) dirty_writes_def dirty_entry_def empty_cache_def)
  then have all: "page_view q0 (of_nat 0) = disk_page [] 0 \<and> pg_file q0 = [] \<and>
    (\<exists>d q'. crash (commit_ops q0) (pg_file q0, wal_file (pg_wal q0)) d \<and>
      pager_open ''t.db'' (fst d) (snd d) = Inr q' \<and> page_view q' (of_nat 0) = replicate PAGE_SIZE 7)"
    by (intro stale_records_committed [OF q0(1) ok]) (simp_all add: same_base_def MAX_PAGES_def)
  have "disk_page [] 0 = zero_page" by (auto simp: disk_page_def PAGE_SIZE_def)
  with all have v: "page_view q0 0 = zero_page" "pg_file q0 = []" by simp_all
  from all obtain d q' where "crash (commit_ops q0) (pg_file q0, wal_file (pg_wal q0)) d"
    "pager_open ''t.db'' (fst d) (snd d) = Inr q'" "page_view q' 0 = replicate PAGE_SIZE 7" by auto
  with v q0(1) show ?thesis by (intro exI [of _ q0] exI [of _ d] exI [of _ q']) simp
qed

end
