(* ===== verification/Protocol.thy ===== *)
theory Protocol
  imports Codec
begin

text \<open>
  \<open>src/protocol.rs\<close>: messages on the wire. A reader is the list of bytes still to come;
  a read that finds too few of them is the \<open>UnexpectedEof\<close> error of \<open>read_exact\<close>. The
  encoders and decoders of strings, rows and result sets are instances of \<open>prefix_codec\<close>.
\<close>

section \<open>The operations of the source\<close>

definition MSG_QUERY :: byte where "MSG_QUERY = 0x01"
definition MSG_OK :: byte where "MSG_OK = 0x02"
definition MSG_ERROR :: byte where "MSG_ERROR = 0x03"
definition MSG_ROWS :: byte where "MSG_ROWS = 0x04"

datatype message = MQuery string | MOk string | MError string | MRows "string list" "string list list"

definition unexpected_eof :: error where
  "unexpected_eof = Fail ''failed to fill whole buffer''"

definition read_exact_bytes :: "nat \<Rightarrow> byte list \<Rightarrow> (byte list \<times> byte list) result" where
  "read_exact_bytes n r = (if length r < n then Inl unexpected_eof else Inr (take n r, drop n r))"

definition encode_str :: "string \<Rightarrow> byte list" where
  "encode_str s = u32_le (of_nat (length (as_bytes s))) @ as_bytes s"

definition encode_rows :: "string list \<Rightarrow> string list list \<Rightarrow> byte list" where
  "encode_rows headers rows =
     u32_le (of_nat (length headers)) @ concat (map encode_str headers) @
     u32_le (of_nat (length rows)) @ concat (map (\<lambda>row. concat (map encode_str row)) rows)"

text \<open>The two closures of \<open>decode_rows\<close>. \<open>buf[*off..*off + n]\<close> panics outside the buffer; the
  checks in front of it are what prevents that.\<close>

definition wire_u32 :: "byte list \<Rightarrow> nat \<Rightarrow> (u32 \<times> nat) result" where
  "wire_u32 buf off =
     (if length buf < off + 4 then Inl (Fail ''Truncated Rows payload (u32)'')
      else rbind (get_slice buf off 4) (\<lambda>bs. Inr (u32_of_le bs, off + 4)))"

definition wire_str :: "byte list \<Rightarrow> nat \<Rightarrow> (string \<times> nat) result" where
  "wire_str buf off =
     rbind (wire_u32 buf off) (\<lambda>(n, off). let len = unat n in
     if length buf < off + len then Inl (Fail ''Truncated Rows payload (string)'')
     else rbind (get_slice buf off len) (\<lambda>bs. Inr (string_lossy bs, off + len)))"

definition decode_rows :: "byte list \<Rightarrow> message result" where
  "decode_rows buf =
     rbind (wire_u32 buf 0) (\<lambda>(n, off). let ncols = unat n in
     rbind (decode_n wire_str ncols buf off) (\<lambda>(headers, off).
     rbind (wire_u32 buf off) (\<lambda>(m, off). let nrows = unat m in
     rbind (decode_n (decode_n wire_str ncols) nrows buf off) (\<lambda>(rows, off).
     Inr (MRows headers rows)))))"

definition hex_digit :: "nat \<Rightarrow> char" where
  "hex_digit d = (if d < 10 then char_of (48 + d) else char_of (55 + d))"

definition unknown_type :: "byte \<Rightarrow> error" where
  "unknown_type t = Fail (''Unknown message type: 0x'' @ [hex_digit (unat t div 16), hex_digit (unat t mod 16)])"

definition read_message :: "byte list \<Rightarrow> (message \<times> byte list) result" where
  "read_message r =
     rbind (read_exact_bytes 4 r) (\<lambda>(len_buf, r). let len = unat (u32_of_le len_buf) in
     if len < 1 then Inl (Fail ''Frame length must be at least 1 (type byte)'')
     else
       rbind (read_exact_bytes 1 r) (\<lambda>(type_buf, r). let msg_type = type_buf ! 0 in
       rbind (read_exact_bytes (len - 1) r) (\<lambda>(payload, r).
       if msg_type = MSG_QUERY then Inr (MQuery (string_lossy payload), r)
       else if msg_type = MSG_OK then Inr (MOk (string_lossy payload), r)
       else if msg_type = MSG_ERROR then Inr (MError (string_lossy payload), r)
       else if msg_type = MSG_ROWS then rbind (decode_rows payload) (\<lambda>m. Inr (m, r))
       else Inl (unknown_type msg_type))))"

text \<open>\<open>write_message\<close>: the bytes it writes.\<close>

fun payload_of :: "message \<Rightarrow> byte \<times> byte list" where
  "payload_of (MQuery s) = (MSG_QUERY, as_bytes s)"
| "payload_of (MOk s) = (MSG_OK, as_bytes s)"
| "payload_of (MError s) = (MSG_ERROR, as_bytes s)"
| "payload_of (MRows headers rows) = (MSG_ROWS, encode_rows headers rows)"

definition write_message :: "message \<Rightarrow> byte list" where
  "write_message msg =
     (let (msg_type, payload) = payload_of msg; len = of_nat (length payload + 1) :: u32 in
      u32_le len @ [msg_type] @ payload)"

section \<open>Strings, rows and counts as codecs\<close>

definition str_ok :: "string \<Rightarrow> bool" where
  "str_ok s \<longleftrightarrow> valid_str s \<and> length s < 2 ^ 32"

lemma wire_u32_stands:
  assumes "stands_at buf off (u32_le w)"
  shows "wire_u32 buf off = Inr (w, off + 4)"
  using stands_at_bound [OF assms] stands_at_slice [OF assms, of 4] by (simp add: wire_u32_def)

interpretation str: prefix_codec encode_str wire_str str_ok
proof unfold_locales
  fix s buf off
  assume "str_ok s" "stands_at buf off (encode_str s)"
  then have s: "valid_str s" "length s < 2 ^ 32" "stands_at buf off (u32_le (of_nat (length s)))"
      "stands_at buf (off + 4) (as_bytes s)"
    by (simp_all add: str_ok_def encode_str_def)
  then have "unat (of_nat (length s) :: u32) = length s" by (simp add: unat_of_nat_u32)
  then show "wire_str buf off = Inr (s, off + length (encode_str s))"
    using wire_u32_stands [OF s(3)] stands_at_bound [OF s(4)] stands_at_slice [OF s(4), of "length s"] s(1)
    by (simp add: wire_str_def Let_def encode_str_def)
qed

interpretation wire_row: prefix_codec "\<lambda>r. concat (map encode_str r)" "decode_n wire_str n"
  "\<lambda>r. length r = n \<and> list_all str_ok r" for n
  by unfold_locales (use str.dec_list in auto)

text \<open>What can be sent: strings of valid UTF-8, a frame length that fits 32 bits, and as many
  cells in a row as there are headers.\<close>

fun message_ok :: "message \<Rightarrow> bool" where
  "message_ok (MRows headers rows) \<longleftrightarrow>
     list_all str_ok headers \<and> length headers < 2 ^ 32 \<and> length rows < 2 ^ 32 \<and>
     list_all (\<lambda>r. length r = length headers \<and> list_all str_ok r) rows \<and>
     length (encode_rows headers rows) + 1 < 2 ^ 32"
| "message_ok (MQuery s) \<longleftrightarrow> valid_str s \<and> length s + 1 < 2 ^ 32"
| "message_ok (MOk s) \<longleftrightarrow> valid_str s \<and> length s + 1 < 2 ^ 32"
| "message_ok (MError s) \<longleftrightarrow> valid_str s \<and> length s + 1 < 2 ^ 32"

lemma decode_encode_rows:
  assumes "message_ok (MRows headers rows)"
  shows "decode_rows (encode_rows headers rows) = Inr (MRows headers rows)"
proof -
  let ?n = "length headers" and ?m = "length rows" and ?buf = "encode_rows headers rows"
  have h: "list_all str_ok headers" "list_all (\<lambda>r. length r = ?n \<and> list_all str_ok r) rows"
    and small: "unat (of_nat ?n :: u32) = ?n" "unat (of_nat ?m :: u32) = ?m"
    using assms by (simp_all add: unat_of_nat_u32)
  let ?off = "4 + length (concat (map encode_str headers))"
  have "stands_at ?buf 0 ?buf" using stands_at_self [of ?buf "[]"] by simp
  then have st: "stands_at ?buf 0 (u32_le (of_nat ?n))" "stands_at ?buf 4 (concat (map encode_str headers))"
    "stands_at ?buf ?off (u32_le (of_nat ?m))"
    "stands_at ?buf (?off + 4) (concat (map (\<lambda>r. concat (map encode_str r)) rows))"
    unfolding encode_rows_def stands_at_append by (simp_all add: ac_simps)
  show ?thesis
    using wire_u32_stands [OF st(1)] str.dec_list [OF h(1) st(2)] wire_u32_stands [OF st(3)]
      wire_row.dec_list [OF h(2) st(4)] small
    by (simp add: decode_rows_def Let_def)
qed

lemma payload_length: "message_ok m \<Longrightarrow> length (snd (payload_of m)) + 1 < 2 ^ 32"
  by (cases m) simp_all

section \<open>One frame\<close>

lemma frame_length:
  assumes "message_ok m" "payload_of m = (t, p)"
  shows "write_message m = u32_le (of_nat (length p + 1)) @ t # p"
    and "unat (of_nat (length p + 1) :: u32) = length p + 1"
  using payload_length [OF assms(1)] assms(2)
  by (simp_all add: write_message_def unat_of_nat_u32 del: of_nat_Suc of_nat_add)

text \<open>What \<open>write_message\<close> writes, \<open>read_message\<close> reads back, whatever follows on the stream.\<close>

lemma read_write_message:
  assumes ok: "message_ok m"
  shows "read_message (write_message m @ rest) = Inr (m, rest)"
proof -
  obtain t p where tp: "payload_of m = (t, p)" by force
  have len: "unat (of_nat (length p + 1) :: u32) = length p + 1"
    using payload_length [OF ok] tp by (simp add: unat_of_nat_u32 del: of_nat_Suc of_nat_add)
  have read: "read_message (write_message m @ rest) =
      (if t = MSG_QUERY then Inr (MQuery (string_lossy p), rest)
       else if t = MSG_OK then Inr (MOk (string_lossy p), rest)
       else if t = MSG_ERROR then Inr (MError (string_lossy p), rest)
       else if t = MSG_ROWS then rbind (decode_rows p) (\<lambda>m. Inr (m, rest))
       else Inl (unknown_type t))"
    using len by (simp add: read_message_def write_message_def tp read_exact_bytes_def Let_def
        del: of_nat_Suc of_nat_add)
  have tags: "MSG_QUERY \<noteq> MSG_OK" "MSG_QUERY \<noteq> MSG_ERROR" "MSG_QUERY \<noteq> MSG_ROWS" "MSG_OK \<noteq> MSG_ERROR"
    "MSG_OK \<noteq> MSG_ROWS" "MSG_ERROR \<noteq> MSG_ROWS"
    by (simp_all add: MSG_QUERY_def MSG_OK_def MSG_ERROR_def MSG_ROWS_def)
  show ?thesis
    using ok tp tags tags [symmetric] decode_encode_rows unfolding read by (cases m) auto
qed

text \<open>A message that is cut short is the end of the stream.\<close>

lemma read_cut_message:
  assumes ok: "message_ok m" and cut: "k < length (write_message m)"
  shows "read_message (take k (write_message m)) = Inl unexpected_eof"
proof -
  obtain t p where tp: "payload_of m = (t, p)" by force
  note fr = frame_length [OF ok tp]
  consider "k < 4" | "k = 4" | "4 < k" by linarith
  then show ?thesis
  proof cases
    case 3
    then have "take k (write_message m) = u32_le (of_nat (length p + 1)) @ t # take (k - 5) p"
      unfolding fr(1) by (simp add: take_Cons' diff_diff_eq)
    moreover have "k - 5 < length p" using cut 3 by (simp add: fr(1))
    ultimately show ?thesis
      using fr(2) by (simp add: read_message_def read_exact_bytes_def Let_def del: of_nat_Suc of_nat_add)
  qed (use fr in \<open>simp_all add: read_message_def read_exact_bytes_def Let_def del: of_nat_Suc of_nat_add\<close>)
qed

text \<open>The client's and the server's loop: read message after message.\<close>

primrec read_messages :: "nat \<Rightarrow> byte list \<Rightarrow> (message list \<times> byte list) result" where
  "read_messages 0 r = Inr ([], r)"
| "read_messages (Suc n) r = rbind (read_message r) (\<lambda>(m, r). rbind (read_messages n r) (\<lambda>(ms, r). Inr (m # ms, r)))"

text \<open>Decoding ends in a value or in one of the source's error texts.\<close>

definition clean :: "'a result \<Rightarrow> bool" where
  "clean x \<longleftrightarrow> x \<noteq> Inl Panic \<and> x \<noteq> Inl Diverge"

lemma clean_simps [simp]: "clean (Inr y)" "clean (Inl (Fail e))"
  by (simp_all add: clean_def)

lemma clean_rbind: "clean x \<Longrightarrow> (\<And>y. x = Inr y \<Longrightarrow> clean (f y)) \<Longrightarrow> clean (rbind x f)"
  by (cases x) (simp_all add: clean_def)

lemma clean_decode_n: "(\<And>buf off. clean (dec buf off)) \<Longrightarrow> clean (decode_n dec n buf off)"
  by (induction n arbitrary: off) (auto intro!: clean_rbind split: prod.split)

lemma clean_wire: "clean (wire_u32 buf off)" "clean (wire_str buf off)"
  by (auto simp: wire_u32_def wire_str_def Let_def intro!: clean_rbind split: prod.split)

lemma clean_decode_rows: "clean (decode_rows buf)"
  unfolding decode_rows_def
  by (auto simp: Let_def intro!: clean_rbind clean_decode_n clean_wire split: prod.split)

section \<open>Properties\<close>

text \<open>Property C28. Messages written one after the other on a stream are read back one by
  one, unchanged, and reading consumes exactly their bytes, whatever follows.\<close>

theorem messages_roundtrip:
  assumes "list_all message_ok ms"
  shows "read_messages (length ms) (concat (map write_message ms) @ rest) = Inr (ms, rest)"
  using assms by (induction ms) (simp_all add: read_write_message)

definition sample_messages :: "message list" where
  "sample_messages = [MQuery ''SELECT'', MRows [''id'', ''name''] [[''1'', ''x''], [''2'', '''']]]"

theorem messages_roundtrip_witness:
  "read_messages (length sample_messages) (concat (map write_message sample_messages) @ [9, 9])
   = Inr (sample_messages, [9, 9])"
  by (rule messages_roundtrip) (simp add: sample_messages_def str_ok_def encode_rows_def encode_str_def)

text \<open>A message that arrives cut short is never taken for another message: on
  every strict prefix of its bytes \<open>read_message\<close> reports the end of the stream.\<close>

theorem cut_message_rejected:
  assumes "message_ok m" "k < length (write_message m)"
  shows "read_message (take k (write_message m)) = Inl unexpected_eof"
  using assms by (rule read_cut_message)

theorem cut_message_rejected_witness:
  "read_message (take 5 (write_message (MQuery ''SELECT''))) = Inl unexpected_eof"
  by (rule cut_message_rejected) (simp_all add: write_message_def)

text \<open>Property C29. Whatever bytes arrive, \<open>read_message\<close> returns a message or an error
  value: the length checks of the decoder keep every slice inside the payload, so that no
  index panics, and it does not loop. (Memory allocation is assumed to succeed: the decoder
  reserves space for as many columns and rows as the payload announces.)\<close>

theorem read_message_never_panics: "read_message r \<noteq> Inl Panic \<and> read_message r \<noteq> Inl Diverge"
proof -
  have "clean (read_exact_bytes n r)" for n r
    by (simp add: read_exact_bytes_def unexpected_eof_def)
  then have "clean (read_message r)"
    unfolding read_message_def
    by (auto simp: Let_def unknown_type_def intro!: clean_rbind clean_decode_rows)
  then show ?thesis by (simp add: clean_def)
qed

end
