(* ===== verification/Metadata.thy ===== *)
theory Metadata
  imports Types Codec Durability
begin

text \<open>
  The metadata page of \<open>src/storage.rs\<close> (page 0 of every table file): root page, number of
  columns, columns. The columns are an instance of \<open>prefix_codec\<close>; \<open>meta_bytes\<close> is what
  \<open>write_metadata\<close> puts at the start of the page and what \<open>read_metadata\<close> reads back.
\<close>

section \<open>The operations of the source\<close>

definition META_ROOT_OFFSET :: nat where "META_ROOT_OFFSET = 0"
definition META_NCOLS_OFFSET :: nat where "META_NCOLS_OFFSET = 4"
definition META_COLS_OFFSET :: nat where "META_COLS_OFFSET = 8"

lemmas meta_layout = META_ROOT_OFFSET_def META_NCOLS_OFFSET_def META_COLS_OFFSET_def

fun type_tag :: "data_type \<Rightarrow> byte" where
  "type_tag TInteger = 0"
| "type_tag TText = 1"

text \<open>The loop over the columns; names are cut to 255 bytes.\<close>

fun write_columns :: "column list \<Rightarrow> nat \<Rightarrow> page \<Rightarrow> page result" where
  "write_columns [] off page = Inr page"
| "write_columns (col # cols) off page =
     (let name = as_bytes (col_name col); len = min (length name) 255 in
      rbind (put_slice page off (u16_le (of_nat len))) (\<lambda>page.
      rbind (put_slice page (off + 2) (take len name)) (\<lambda>page.
      rbind (put_byte page (off + 2 + len) (type_tag (col_type col))) (\<lambda>page.
      write_columns cols (off + 2 + len + 1) page))))"

definition write_meta_page :: "u32 \<Rightarrow> column list \<Rightarrow> page \<Rightarrow> page result" where
  "write_meta_page root columns page =
     rbind (put_slice page META_ROOT_OFFSET (u32_le root)) (\<lambda>page.
     rbind (put_slice page META_NCOLS_OFFSET (u32_le (of_nat (length columns)))) (\<lambda>page.
     write_columns columns META_COLS_OFFSET page))"

definition write_metadata :: "u32 \<Rightarrow> column list \<Rightarrow> (pager, unit) sm" where
  "write_metadata root columns = with_page_mut 0 (write_meta_page root columns)"

text \<open>One column of \<open>read_metadata\<close>.\<close>

definition read_column :: "page \<Rightarrow> nat \<Rightarrow> (column \<times> nat) result" where
  "read_column page off =
     rbind (get_slice page off 2) (\<lambda>b. let len = unat (u16_of_le b); off = off + 2 in
     rbind (get_slice page off len) (\<lambda>b. let name = string_lossy b; off = off + len in
     rbind (get_byte page off) (\<lambda>t.
     rbind (if t = 0 then Inr TInteger else if t = 1 then Inr TText
            else Inl (Fail (''Unknown type tag '' @ show_nat (unat t) @ '' in metadata''))) (\<lambda>ty.
     Inr (\<lparr>col_name = name, col_type = ty\<rparr>, off + 1)))))"

definition read_meta_page :: "page \<Rightarrow> (u32 \<times> column list) result" where
  "read_meta_page page =
     rbind (get_slice page META_ROOT_OFFSET 4) (\<lambda>r. let root = u32_of_le r in
     rbind (get_slice page META_NCOLS_OFFSET 4) (\<lambda>n. let ncols = unat (u32_of_le n) in
     rbind (decode_n read_column ncols page META_COLS_OFFSET) (\<lambda>(columns, off).
     Inr (root, columns))))"

definition read_metadata :: "(pager, u32 \<times> column list) sm" where
  "read_metadata = sbind (get_page 0) (\<lambda>page. liftR (read_meta_page page))"

section \<open>The layout\<close>

definition encode_column :: "column \<Rightarrow> byte list" where
  "encode_column col =
     (let name = take 255 (as_bytes (col_name col)) in
      u16_le (of_nat (length name)) @ name @ [type_tag (col_type col)])"

definition meta_bytes :: "u32 \<Rightarrow> column list \<Rightarrow> byte list" where
  "meta_bytes root columns = u32_le root @ u32_le (of_nat (length columns)) @ concat (map encode_column columns)"

text \<open>A column name that the layout keeps.\<close>

definition column_ok :: "column \<Rightarrow> bool" where
  "column_ok col \<longleftrightarrow> valid_str (col_name col) \<and> length (col_name col) \<le> 255"

definition columns_ok :: "column list \<Rightarrow> bool" where
  "columns_ok columns \<longleftrightarrow> list_all column_ok columns \<and> length (meta_bytes 0 columns) \<le> PAGE_SIZE"

lemma length_encode_column: "length (encode_column col) = 3 + min (length (col_name col)) 255"
  by (simp add: encode_column_def Let_def)

lemma length_meta_bytes: "length (meta_bytes root columns) = 8 + length (concat (map encode_column columns))"
  by (simp add: meta_bytes_def)

lemma length_columns: "3 * length columns \<le> length (concat (map encode_column columns))"
  by (induction columns) (simp_all add: length_encode_column)

lemma columns_count:
  assumes "columns_ok columns"
  shows "unat (of_nat (length columns) :: u32) = length columns"
  using assms length_columns [of columns]
  by (simp add: columns_ok_def length_meta_bytes PAGE_SIZE_def unat_of_nat_u32)

section \<open>Writing\<close>

lemma update_is_patch: "i < length buf \<Longrightarrow> buf[i := b] = patch buf i [b]"
  by (simp add: patch_def upd_conv_take_nth_drop)

lemma write_column_patch:
  assumes "off + length (encode_column col) \<le> length page"
  shows "write_columns (col # cols) off page = write_columns cols (off + length (encode_column col)) (patch page off (encode_column col))"
proof -
  let ?name = "take 255 (as_bytes (col_name col))"
  let ?len = "min (length (col_name col)) 255"
  have enc: "encode_column col = u16_le (of_nat ?len) @ ?name @ [type_tag (col_type col)]" "length ?name = ?len"
    by (simp_all add: encode_column_def Let_def min.commute)
  have name: "take ?len (as_bytes (col_name col)) = ?name" by (simp add: min_def)
  have room: "off + 2 + ?len + 1 \<le> length page" using assms enc by simp
  let ?p1 = "patch page off (u16_le (of_nat ?len))" and ?p2 = "patch page off (u16_le (of_nat ?len) @ ?name)"
  have p: "patch ?p1 (off + 2) ?name = ?p2"
    using patch_patch [of off "u16_le (of_nat ?len)" ?name page] room enc(2) by simp
  have len: "length ?p1 = length page" "length ?p2 = length page"
    using room enc(2) by simp_all
  have "?p2[off + 2 + ?len := type_tag (col_type col)] = patch page off (encode_column col)"
    using patch_patch [of off "u16_le (of_nat ?len) @ ?name" "[type_tag (col_type col)]" page] room enc len
    by (simp add: update_is_patch add.assoc)
  moreover have step: "off + length (encode_column col) = off + 2 + ?len + 1" by (simp add: length_encode_column)
  ultimately show ?thesis
    unfolding step using room enc(2) len p by (simp add: Let_def name)
qed

lemma write_columns_patch:
  "off + length (concat (map encode_column cols)) \<le> length page \<Longrightarrow>
   write_columns cols off page = Inr (patch page off (concat (map encode_column cols)))"
proof (induction cols arbitrary: off page)
  case Nil
  then show ?case by (simp add: patch_def)
next
  case (Cons col cols)
  have "write_columns (col # cols) off page = write_columns cols (off + length (encode_column col)) (patch page off (encode_column col))"
    by (rule write_column_patch) (use Cons.prems in simp)
  then show ?case
    using Cons by (simp add: patch_patch)
qed

lemma write_meta_page_patch:
  assumes "length page = PAGE_SIZE" "length (meta_bytes root columns) \<le> PAGE_SIZE"
  shows "write_meta_page root columns page = Inr (patch page 0 (meta_bytes root columns))"
proof -
  let ?n = "u32_le (of_nat (length columns))" and ?cs = "concat (map encode_column columns)"
  have room: "8 + length ?cs \<le> length page" using assms by (simp add: length_meta_bytes)
  have "patch (patch page 0 (u32_le root)) 4 ?n = patch page 0 (u32_le root @ ?n)"
    using patch_patch [of 0 "u32_le root" ?n page] room by simp
  moreover have "patch (patch page 0 (u32_le root @ ?n)) 8 ?cs = patch page 0 (meta_bytes root columns)"
    using patch_patch [of 0 "u32_le root @ ?n" ?cs page] room by (simp add: meta_bytes_def)
  ultimately show ?thesis
    using room by (simp add: write_meta_page_def meta_layout write_columns_patch)
qed

section \<open>Reading\<close>

text \<open>The page holds the metadata, whatever follows it.\<close>

definition holds_meta :: "page \<Rightarrow> u32 \<Rightarrow> column list \<Rightarrow> bool" where
  "holds_meta page root columns \<longleftrightarrow> stands_at page 0 (meta_bytes root columns)"

lemma decode_encode_column:
  assumes "column_ok col" "stands_at buf off (encode_column col)"
  shows "read_column buf off = Inr (col, off + length (encode_column col))"
proof -
  let ?name = "as_bytes (col_name col)" and ?len = "length (col_name col)"
  have len: "?len \<le> 255" "take 255 ?name = ?name" using assms(1) by (simp_all add: column_ok_def)
  then have st: "stands_at buf off (u16_le (of_nat ?len))" "stands_at buf (off + 2) ?name"
    "stands_at buf (off + 2 + ?len) [type_tag (col_type col)]"
    using assms(2) by (simp_all add: encode_column_def Let_def)
  have "unat (of_nat ?len :: u16) = ?len" using len by (simp add: unat_of_nat)
  moreover have "off + 2 + ?len < length buf" "buf ! (off + 2 + ?len) = type_tag (col_type col)"
    using st(3) by (auto simp: stands_at_def slice_def take_Suc_conv_app_nth hd_drop_conv_nth)
  ultimately show ?thesis
    using get_slice_stands [OF st(1), of 2] get_slice_stands [OF st(2), of ?len] assms(1) len
    by (cases "col_type col"; cases col) (simp_all add: read_column_def Let_def column_ok_def length_encode_column)
qed

interpretation col: prefix_codec encode_column read_column column_ok
  by unfold_locales (rule decode_encode_column)

lemma read_meta_page_holds:
  assumes "holds_meta page root columns" "columns_ok columns"
  shows "read_meta_page page = Inr (root, columns)"
proof -
  have st: "stands_at page 0 (u32_le root)" "stands_at page 4 (u32_le (of_nat (length columns)))"
    "stands_at page 8 (concat (map encode_column columns))"
    using assms(1) by (simp_all add: holds_meta_def meta_bytes_def)
  have "list_all column_ok columns" using assms(2) by (simp add: columns_ok_def)
  from col.dec_list [OF this st(3)] show ?thesis
    using get_slice_stands [OF st(1), of 4] get_slice_stands [OF st(2), of 4] columns_count [OF assms(2)]
    by (simp add: read_meta_page_def meta_layout Let_def)
qed

lemma write_meta_page_holds:
  assumes "length page = PAGE_SIZE" "columns_ok columns"
  obtains page' where "write_meta_page root columns page = Inr page'" "length page' = PAGE_SIZE" "holds_meta page' root columns"
proof (rule that)
  have room: "length (meta_bytes root columns) \<le> PAGE_SIZE"
    using assms(2) by (simp add: columns_ok_def length_meta_bytes)
  then show "write_meta_page root columns page = Inr (patch page 0 (meta_bytes root columns))"
    using assms(1) by (rule write_meta_page_patch [rotated])
  show "length (patch page 0 (meta_bytes root columns)) = PAGE_SIZE"
    using room assms(1) by simp
  show "holds_meta (patch page 0 (meta_bytes root columns)) root columns"
    using room assms(1) by (simp add: holds_meta_def stands_at_def slice_patch_same)
qed

lemma holds_meta_columns:
  assumes "holds_meta page root columns" "holds_meta page root' columns'" "columns_ok columns" "columns_ok columns'"
  shows "root = root' \<and> columns = columns'"
  using read_meta_page_holds [OF assms(1,3)] read_meta_page_holds [OF assms(2,4)] by simp

section \<open>On a pager\<close>

lemma read_metadata_ok:
  assumes "pager_ok pg" "holds_meta (page_view pg 0) root columns" "columns_ok columns"
  shows "ok read_metadata pg (\<lambda>r pg'. r = (root, columns) \<and> same_view pg pg')"
  unfolding read_metadata_def ok_bind
  by (rule ok_mono [OF get_page_ok [OF assms(1)]])
    (use assms in \<open>simp_all add: MAX_PAGES_def read_meta_page_holds ok_liftR\<close>)

lemma write_metadata_ok:
  assumes "pager_ok pg" "0 < npages pg" "columns_ok columns"
  shows "ok (write_metadata root columns) pg (\<lambda>_ pg'. pager_ok pg' \<and> npages pg' = npages pg \<and> same_base pg pg' \<and>
    holds_meta (page_view pg' 0) root columns \<and> (\<forall>p. p \<noteq> 0 \<longrightarrow> page_view pg' p = page_view pg p))"
proof -
  obtain p where p: "write_meta_page root columns (page_view pg 0) = Inr p" "length p = PAGE_SIZE" "holds_meta p root columns"
    using write_meta_page_holds [OF page_view_length [OF assms(1)] assms(3)] by metis
  show ?thesis
    unfolding write_metadata_def
    by (rule ok_mono [OF with_page_mut_ok [where f = "write_meta_page root columns", OF assms(1) _ _ p(1,2)]]) (use assms p in \<open>simp_all add: MAX_PAGES_def\<close>)
qed

text \<open>A schema that does not fit the page: the slice of some column is out of range.\<close>

lemma write_columns_overflow:
  "off \<le> length page \<Longrightarrow> length page < off + length (concat (map encode_column cols)) \<Longrightarrow> write_columns cols off page = Inl Panic"
proof (induction cols arbitrary: off page)
  case (Cons col cols)
  show ?case
  proof (cases "off + length (encode_column col) \<le> length page")
    case True
    have "write_columns (col # cols) off page = write_columns cols (off + length (encode_column col)) (patch page off (encode_column col))"
      by (rule write_column_patch [OF True])
    then show ?thesis using Cons True by simp
  next
    case False
    let ?len = "min (length (col_name col)) 255"
    have "length page < off + 3 + ?len" using False by (simp add: length_encode_column)
    then show ?thesis
      by (simp add: Let_def put_slice_def put_byte_def rbind_def split: if_splits)
  qed
qed simp

lemma write_meta_page_overflow:
  assumes "length page = PAGE_SIZE" "PAGE_SIZE < length (meta_bytes root columns)"
  shows "write_meta_page root columns page = Inl Panic"
  using assms by (simp add: write_meta_page_def meta_layout PAGE_SIZE_def length_meta_bytes write_columns_overflow)

section \<open>Properties\<close>

text \<open>Property C27. The metadata of a table survives its page: after \<open>write_metadata\<close>,
  \<open>read_metadata\<close> returns the same root and the same columns, and no other page has
  changed.\<close>

theorem metadata_roundtrip:
  assumes "pager_ok pg" "0 < npages pg" "columns_ok columns"
  shows "ok (sbind (write_metadata root columns) (\<lambda>_. read_metadata)) pg (\<lambda>r pg'. r = (root, columns) \<and>
    (\<forall>p. p \<noteq> 0 \<longrightarrow> page_view pg' p = page_view pg p))"
  unfolding ok_bind
proof (rule ok_mono [OF write_metadata_ok [OF assms]])
  fix u pg'
  assume a: "pager_ok pg' \<and> npages pg' = npages pg \<and> same_base pg pg' \<and>
    holds_meta (page_view pg' 0) root columns \<and> (\<forall>p. p \<noteq> 0 \<longrightarrow> page_view pg' p = page_view pg p)"
  then show "ok read_metadata pg' (\<lambda>r pg'. r = (root, columns) \<and> (\<forall>p. p \<noteq> 0 \<longrightarrow> page_view pg' p = page_view pg p))"
    by (intro ok_mono [OF read_metadata_ok [OF _ _ assms(3)]]) (auto simp: same_view_def)
qed

theorem metadata_roundtrip_witness:
  "ok (sbind (write_metadata 7 [\<lparr>col_name = ''id'', col_type = TInteger\<rparr>]) (\<lambda>_. read_metadata)) one_page_pager
     (\<lambda>r pg'. r = (7, [\<lparr>col_name = ''id'', col_type = TInteger\<rparr>]))"
  by (rule ok_mono [OF metadata_roundtrip])
    (simp_all add: one_page_pager_ok columns_ok_def column_ok_def length_meta_bytes length_encode_column PAGE_SIZE_def)

end
