(* ===== verification/Storage.thy ===== *)
theory Storage
  imports Row Metadata Btree Crash "HOL-Library.AList"
begin

text \<open>
  \<open>src/storage.rs\<close>: the tables of a database, each a pager with its schema and the root of
  its tree. The \<open>HashMap\<close> is an association list with distinct names; loops over all tables
  follow the order of the list, which stands for the map's unspecified order. \<open>fs\<close> gives
  the contents of the database file and of the log at a path when a file is opened (empty
  for files that the call creates).
\<close>

section \<open>State\<close>

record table_store =
  ts_pager :: pager
  ts_columns :: "column list"
  ts_root :: u32

record storage =
  tables :: "(string \<times> table_store) list"

type_synonym files = "string \<Rightarrow> disk"

definition storage_new :: storage where
  "storage_new = \<lparr>tables = []\<rparr>"

definition not_found :: "string \<Rightarrow> error" where
  "not_found name = Fail (''Table '' @ quoted name @ '' not found.'')"

text \<open>\<open>self.tables.get_mut(name)\<close> and an operation on what it finds.\<close>

definition with_table :: "string \<Rightarrow> (table_store, 'a) sm \<Rightarrow> (storage, 'a) sm" where
  "with_table name m s =
     (case map_of (tables s) name of
        None \<Rightarrow> (Inl (not_found name), s)
      | Some t \<Rightarrow> let (r, t') = m t in (r, s\<lparr>tables := AList.update name t' (tables s)\<rparr>))"

text \<open>\<open>for store in self.tables.values_mut()\<close>, left at the first error.\<close>

fun each_store :: "(table_store, unit) sm \<Rightarrow> ((string \<times> table_store) list, unit) sm" where
  "each_store m [] = (Inr (), [])"
| "each_store m ((name, t) # ts) =
     (case m t of
        (Inl e, t') \<Rightarrow> (Inl e, (name, t') # ts)
      | (Inr _, t') \<Rightarrow> let (r, ts') = each_store m ts in (r, (name, t') # ts'))"

definition all_tables :: "(table_store, unit) sm \<Rightarrow> (storage, unit) sm" where
  "all_tables m s = (let (r, ts) = each_store m (tables s) in (r, s\<lparr>tables := ts\<rparr>))"

definition on_pager :: "(pager, 'a) sm \<Rightarrow> (table_store, 'a) sm" where
  "on_pager m t = (let (r, pg) = m (ts_pager t) in (r, t\<lparr>ts_pager := pg\<rparr>))"

definition set_root :: "u32 \<Rightarrow> (table_store, unit) sm" where
  "set_root root t = (Inr (), t\<lparr>ts_root := root\<rparr>)"

definition flush_unless_txn :: "(pager, unit) sm" where
  "flush_unless_txn pg = (if \<not> pg_in_txn pg then pager_flush pg else (Inr (), pg))"

section \<open>Tables\<close>

definition open_table :: "files \<Rightarrow> string \<Rightarrow> string \<Rightarrow> (storage, unit) sm" where
  "open_table fs name path s =
     (case pager_open path (fst (fs path)) (snd (fs path)) of
        Inl e \<Rightarrow> (Inl e, s)
      | Inr pg \<Rightarrow> (case read_metadata pg of
          (Inl e, _) \<Rightarrow> (Inl e, s)
        | (Inr (root, columns), pg') \<Rightarrow>
            (Inr (), s\<lparr>tables := AList.update name \<lparr>ts_pager = pg', ts_columns = columns, ts_root = root\<rparr> (tables s)\<rparr>)))"

text \<open>The pager part of \<open>create_table\<close>.\<close>

definition init_table :: "column list \<Rightarrow> (pager, u32) sm" where
  "init_table columns =
     sbind allocate_page (\<lambda>_.
     sbind create_tree (\<lambda>root_page.
     sbind (write_metadata root_page columns) (\<lambda>_.
     sbind flush_unless_txn (\<lambda>_. ret root_page))))"

definition create_table :: "files \<Rightarrow> string \<Rightarrow> column list \<Rightarrow> (storage, unit) sm" where
  "create_table fs name columns s =
     (if map_of (tables s) name \<noteq> None
      then (Inl (Fail (''Table '' @ quoted name @ '' already exists.'')), s)
      else let path = name @ ''.db'' in
        (case pager_open path (fst (fs path)) (snd (fs path)) of
           Inl e \<Rightarrow> (Inl e, s)
         | Inr pg \<Rightarrow> (case init_table columns pg of
             (Inl e, _) \<Rightarrow> (Inl e, s)
           | (Inr root_page, pg') \<Rightarrow>
               (Inr (), s\<lparr>tables := AList.update name
                  \<lparr>ts_pager = pg', ts_columns = columns, ts_root = root_page\<rparr> (tables s)\<rparr>))))"

section \<open>Rows\<close>

fun check_types :: "nat \<Rightarrow> (column \<times> cell_value) list \<Rightarrow> unit result" where
  "check_types i [] = Inr ()"
| "check_types i ((col, val) # cvs) =
     (case (col_type col, val) of
        (TInteger, VInteger _) \<Rightarrow> check_types (Suc i) cvs
      | (TText, VText _) \<Rightarrow> check_types (Suc i) cvs
      | _ \<Rightarrow> Inl (Fail (''Column '' @ quoted (col_name col) @ '' (position '' @ show_nat i @
               '') expects '' @ debug_type (col_type col) @ '', got '' @ debug_value val @ ''.'')))"

fun extract_key_loop :: "(column \<times> cell_value) list \<Rightarrow> i64 result" where
  "extract_key_loop [] = Inr 0"
| "extract_key_loop ((col, val) # cvs) =
     (case (col_type col, val) of (TInteger, VInteger n) \<Rightarrow> Inr n | _ \<Rightarrow> extract_key_loop cvs)"

definition extract_key :: "column list \<Rightarrow> cell_value list \<Rightarrow> i64 result" where
  "extract_key columns values = extract_key_loop (zip columns values)"

text \<open>The second half of \<open>insert\<close>: what happens to a row that passed the checks.\<close>

definition store_row :: "i64 \<Rightarrow> row \<Rightarrow> (table_store, unit) sm" where
  "store_row key r store =
     (let columns = ts_columns store in
      sbind (liftR (serialize r columns (replicate (serialized_size r columns) 0))) (\<lambda>buf.
      sbind (on_pager (btree_insert (ts_root store) key buf)) (\<lambda>new_root.
      sbind (if new_root \<noteq> ts_root store
             then sbind (set_root new_root) (\<lambda>_. on_pager (write_metadata new_root columns))
             else ret ()) (\<lambda>_.
      on_pager flush_unless_txn))) store)"

definition insert_row :: "cell_value list \<Rightarrow> (table_store, unit) sm" where
  "insert_row values store =
     (let columns = ts_columns store in
      if length values \<noteq> length columns
      then (Inl (Fail (''Expected '' @ show_nat (length columns) @ '' values, got '' @ show_nat (length values) @ ''.'')), store)
      else
        sbind (liftR (check_types 0 (zip columns values))) (\<lambda>_.
        sbind (liftR (extract_key columns values)) (\<lambda>key.
        let r = \<lparr>row_values = values\<rparr>; rsize = serialized_size r columns in
        if max_row_data_size < rsize
        then raise (Fail (''Row too large ('' @ show_nat rsize @ '' bytes). Maximum row size is '' @
               show_nat max_row_data_size @ '' bytes.''))
        else store_row key r)) store)"

definition insert_into :: "string \<Rightarrow> cell_value list \<Rightarrow> (storage, unit) sm" where
  "insert_into table_name values = with_table table_name (insert_row values)"

definition select_rows :: "(table_store, string list \<times> row list) sm" where
  "select_rows store =
     sbind (on_pager (scan_all (ts_root store))) (\<lambda>raw_rows.
     sbind (liftR (rmap (\<lambda>buf. deserialize buf (ts_columns store)) raw_rows)) (\<lambda>rows.
     ret (map col_name (ts_columns store), rows))) store"

definition select_all :: "string \<Rightarrow> (storage, string list \<times> row list) sm" where
  "select_all table_name = with_table table_name select_rows"

definition dump_btree :: "string \<Rightarrow> (storage, string) sm" where
  "dump_btree table_name =
     with_table table_name (\<lambda>store. on_pager (dump_tree WALK_FUEL (ts_root store) 0) store)"

section \<open>Transactions\<close>

definition storage_begin :: "(storage, unit) sm" where
  "storage_begin = all_tables (on_pager pager_begin)"

definition storage_commit :: "(storage, unit) sm" where
  "storage_commit = all_tables (on_pager pager_commit)"

definition rollback_store :: "(table_store, unit) sm" where
  "rollback_store =
     sbind (on_pager pager_rollback) (\<lambda>_.
     sbind (on_pager read_metadata) (\<lambda>(root, _). set_root root))"

definition storage_rollback :: "(storage, unit) sm" where
  "storage_rollback = all_tables rollback_store"

end
