(* ===== verification/Table.thy ===== *)
theory Table
  imports Storage Btree_Dump
begin

text \<open>
  What one table of \<open>src/storage.rs\<close> holds. \<open>table_img\<close> relates a page view to a list of
  rows: metadata in page 0, a tree whose cells are the rows under their keys. The same
  predicate on the pager's view (\<open>holds_rows\<close>) and on the contents of the database file
  (\<open>saved_rows\<close>) gives insert, select, commit, rollback and reopening as relations between
  lists of rows.
\<close>

section \<open>Rows as cells\<close>

definition row_key :: "column list \<Rightarrow> row \<Rightarrow> i64" where
  "row_key columns r = (case extract_key columns (row_values r) of Inr k \<Rightarrow> k | Inl _ \<Rightarrow> 0)"

definition row_bytes :: "column list \<Rightarrow> row \<Rightarrow> byte list" where
  "row_bytes columns r = encode_row (zip columns (row_values r))"

definition cell_of :: "column list \<Rightarrow> row \<Rightarrow> cell" where
  "cell_of columns r = (row_key columns r, row_bytes columns r)"

text \<open>A row of the schema, short enough for every split to succeed.\<close>

definition good_row :: "column list \<Rightarrow> row \<Rightarrow> bool" where
  "good_row columns r \<longleftrightarrow> row_ok r columns \<and> serialized_size r columns \<le> 1350"

lemma extract_key_loop_Inr: "\<exists>k. extract_key_loop cvs = Inr k"
  by (induction cvs rule: extract_key_loop.induct) (auto split: data_type.splits cell_value.splits)

lemma extract_key_row_key: "extract_key columns (row_values r) = Inr (row_key columns r)"
  using extract_key_loop_Inr [of "zip columns (row_values r)"] by (auto simp: row_key_def extract_key_def)

lemma length_row_bytes: "length (row_bytes columns r) = serialized_size r columns"
  by (simp add: row_bytes_def length_encode_row)

lemma cell_of_simps [simp]: "fst (cell_of cs r) = row_key cs r" "snd (cell_of cs r) = row_bytes cs r"
  by (simp_all add: cell_of_def)

lemma good_row_cost: "good_row columns r \<Longrightarrow> cell_cost (cell_of columns r) \<le> safe_cost"
  by (simp add: cell_of_def good_row_def short_row length_row_bytes)

lemma good_rows_short: "list_all (good_row cs) rs \<Longrightarrow> short_cells (map (cell_of cs) rs)"
  using good_row_cost by (auto simp: short_cells_def list_all_iff)

lemma deserialize_rows:
  "list_all (good_row cs) rs \<Longrightarrow> rmap (\<lambda>buf. deserialize buf cs) (map (row_bytes cs) rs) = Inr rs"
  by (rule rmap_all) (use deserialize_encode [of _ cs "[]"] in \<open>auto simp: row_bytes_def good_row_def list_all_iff\<close>)

lemma mset_map_eq_map:
  "mset xs = mset (map f ys) \<Longrightarrow> \<exists>zs. xs = map f zs \<and> mset zs = mset ys"
proof (induction xs arbitrary: ys)
  case (Cons x xs)
  then have "x \<in> set (map f ys)" by (metis list.set_intros(1) mset_eq_setD)
  then obtain y where y: "y \<in> set ys" "x = f y" by auto
  then have "mset ys = add_mset y (mset (remove1 y ys))" by simp
  then have "mset (map f ys) = add_mset x (mset (map f (remove1 y ys)))"
    using y(2) by (simp only: mset_map image_mset_add_mset)
  then have "mset xs = mset (map f (remove1 y ys))"
    using Cons.prems by simp
  from Cons.IH [OF this] obtain zs where "xs = map f zs" "mset zs = mset (remove1 y ys)" by blast
  then show ?case using y by (intro exI [of _ "y # zs"]) simp
qed simp

section \<open>The rows of a page view\<close>

definition tree_img :: "nat \<Rightarrow> column list \<Rightarrow> (u32 \<Rightarrow> page) \<Rightarrow> nat \<Rightarrow> u32 \<Rightarrow> row list \<Rightarrow> bool" where
  "tree_img base cs V n root rs \<longleftrightarrow>
     (\<exists>t L. bt_page t = root \<and> tree_rep V n t L \<and> compact base n t L \<and> chain_cells L = map (cell_of cs) rs \<and>
       (distinct (map (row_key cs) rs) \<longrightarrow> in_order t L))"

text \<open>
  \<open>base\<close> counts the pages that are not part of the tree: one, the metadata page, for a
  table whose file \<open>create_table\<close> made.
\<close>

definition table_img :: "nat \<Rightarrow> column list \<Rightarrow> (u32 \<Rightarrow> page) \<Rightarrow> nat \<Rightarrow> u32 \<Rightarrow> row list \<Rightarrow> bool" where
  "table_img base cs V n root rs \<longleftrightarrow>
     columns_ok cs \<and> list_all (good_row cs) rs \<and> 0 < base \<and> n \<le> MAX_PAGES \<and>
     holds_meta (V 0) root cs \<and> tree_img base cs V n root rs"

definition shows_rows :: "nat \<Rightarrow> table_store \<Rightarrow> row list \<Rightarrow> bool" where
  "shows_rows base s rs \<longleftrightarrow>
     pager_ok (ts_pager s) \<and>
     table_img base (ts_columns s) (page_view (ts_pager s)) (npages (ts_pager s)) (ts_root s) rs"

text \<open>With an empty log, as every completed operation leaves it.\<close>

definition holds_rows :: "nat \<Rightarrow> table_store \<Rightarrow> row list \<Rightarrow> bool" where
  "holds_rows base s rs \<longleftrightarrow> shows_rows base s rs \<and> wal_file (pg_wal (ts_pager s)) = []"

definition saved_rows :: "nat \<Rightarrow> table_store \<Rightarrow> row list \<Rightarrow> bool" where
  "saved_rows base s rs \<longleftrightarrow>
     (\<exists>root. table_img base (ts_columns s) (file_view (pg_file (ts_pager s)))
        (length (pg_file (ts_pager s)) div PAGE_SIZE) root rs)"

lemma tree_rep_cong:
  assumes "tree_rep V n t L" "\<And>p. p \<noteq> 0 \<Longrightarrow> V' p = V p"
  shows "tree_rep V' n t L"
proof -
  have nz: "\<forall>p \<in> set (pids t). p \<noteq> 0" using assms(1) by (auto simp: tree_rep_def)
  then have "tree_pages V' t = tree_pages V t" using assms(2) by (intro tree_pages_cong) auto
  moreover have "chain V' L 0 = chain V L 0"
  proof (rule chain_cong)
    fix q assume "q \<in> fst ` set L"
    then have "q \<in> set (pids t)"
      using assms(1) leaves_pids [of t] mset_eq_setD [of L "leaves t"] by (auto simp: tree_rep_def)
    then show "V' q = V q" using nz assms(2) by blast
  qed
  ultimately show ?thesis using assms(1) by (simp add: tree_rep_def)
qed

lemma tree_img_cong: "tree_img base cs V n root rs \<Longrightarrow> (\<And>p. p \<noteq> 0 \<Longrightarrow> V' p = V p) \<Longrightarrow> tree_img base cs V' n root rs"
  unfolding tree_img_def using tree_rep_cong by blast

section \<open>Insertion into the tree\<close>

lemma tree_img_insert:
  assumes pg: "pager_ok pg" and img: "table_img base cs (page_view pg) (npages pg) root rs"
    and row: "good_row cs r" and room: "base + 2 * length rs + 1 \<le> MAX_PAGES"
  shows "ok (btree_insert root (row_key cs r) (row_bytes cs r)) pg (\<lambda>root' pg'.
    pager_ok pg' \<and> same_base pg pg' \<and> npages pg' \<le> MAX_PAGES \<and> page_view pg' 0 = page_view pg 0 \<and>
    (\<exists>rs'. mset rs' = add_mset r (mset rs) \<and> tree_img base cs (page_view pg') (npages pg') root' rs'))"
proof -
  let ?key = "row_key cs r" and ?row = "row_bytes cs r" and ?n = "npages pg"
  obtain t L where t: "bt_page t = root" "tree_rep (page_view pg) ?n t L" "compact base ?n t L"
    "chain_cells L = map (cell_of cs) rs" "distinct (map (row_key cs) rs) \<longrightarrow> in_order t L"
    using img by (auto simp: table_img_def tree_img_def)
  have good: "list_all (good_row cs) rs" "?n \<le> MAX_PAGES" using img by (simp_all add: table_img_def)
  have cost: "cell_cost (?key, ?row) \<le> safe_cost" using good_row_cost [OF row] by (simp add: cell_of_def)
  note cost' = safe_cost_fits [OF cost]
  have short: "short_cells (chain_cells L)" using good_rows_short [OF good(1)] t(4) by simp
  have tree: "holds_tree pg root t L" using pg t good by (simp add: holds_tree_def)
  note comp = compact_insert [OF t(2,3) cost']
  let ?t' = "fst (ainsert ?key ?row ?n t)" and ?L' = "new_chain ?key ?row ?n t L"
  have max: "snd (ainsert ?key ?row ?n t) \<le> MAX_PAGES" using comp(2) room t(4) by simp
  have "mset (chain_cells ?L') = mset (map (cell_of cs) (r # rs))"
    using new_chain_cells [OF t(2), of ?key ?row] t(4) by (simp add: cell_of_def)
  then obtain rs' where rs': "chain_cells ?L' = map (cell_of cs) rs'" "mset rs' = mset (r # rs)"
    using mset_map_eq_map by blast
  have ord: "in_order ?t' ?L'" if dist: "distinct (map (row_key cs) rs')"
  proof -
    have "mset (map (row_key cs) rs') = mset (map (row_key cs) (r # rs))" using rs'(2) by simp
    from mset_eq_imp_distinct_iff [OF this] dist have "distinct (map (row_key cs) (r # rs))" by simp
    then have "in_order t L" "?key \<notin> fst ` set (chain_cells L)" using t(4,5) by (auto simp: image_image)
    from in_order_insert(1) [OF t(2) this cost'] show ?thesis .
  qed
  have zero: "(0 :: u32) \<notin> set (pids t)" "unat (0 :: u32) < ?n"
    using t(2) length_pids_less [OF t(2)] by (auto simp: tree_rep_def)
  show ?thesis
  proof (rule ok_mono [OF holds_insert [OF tree cost' short_leaf_fits [OF t(2) short cost] max]])
    fix root' pg'
    assume a: "holds_tree pg' root' ?t' ?L' \<and> npages pg' = snd (ainsert ?key ?row ?n t) \<and> same_base pg pg' \<and>
      (\<forall>p. p \<notin> set (pids t) \<longrightarrow> unat p < ?n \<longrightarrow> page_view pg' p = page_view pg p)"
    have "bt_page ?t' = root'" "tree_rep (page_view pg') (npages pg') ?t' ?L'"
      using a unfolding holds_tree_def by blast+
    moreover have "compact base (npages pg') ?t' ?L'" using comp(1) a by simp
    ultimately have "tree_img base cs (page_view pg') (npages pg') root' rs'"
      unfolding tree_img_def using rs'(1) ord by blast
    with a zero rs'(2) show "pager_ok pg' \<and> same_base pg pg' \<and> npages pg' \<le> MAX_PAGES \<and> page_view pg' 0 = page_view pg 0 \<and>
        (\<exists>rs'. mset rs' = add_mset r (mset rs) \<and> tree_img base cs (page_view pg') (npages pg') root' rs')"
      by (auto simp: holds_tree_def)
  qed
qed

lemma tree_img_scan:
  assumes pg: "pager_ok pg" and img: "table_img base cs (page_view pg) (npages pg) root rs"
  shows "ok (scan_all root) pg (\<lambda>raw pg'. raw = map (row_bytes cs) rs \<and> pager_ok pg' \<and> same_base pg pg' \<and>
    table_img base cs (page_view pg') (npages pg') root rs)"
proof -
  obtain t L where t: "bt_page t = root" "tree_rep (page_view pg) (npages pg) t L" "chain_cells L = map (cell_of cs) rs"
    using img by (auto simp: table_img_def tree_img_def)
  have st: "pg.st pg pg (page_view pg) (npages pg)" "npages pg \<le> MAX_PAGES"
    using pg img by (simp_all add: pg_st table_img_def)
  have "chain_rows L = map (row_bytes cs) rs" by (simp add: chain_rows_cells t(3))
  with ok_mono [OF scan_refines [OF st t(2)]] t(1) img show ?thesis by (auto simp: pg_st)
qed

text \<open>The text that \<open>.btree\<close> prints for the rows \<open>rs\<close>: a tree whose leaves hold them.\<close>

definition shows_tree :: "column list \<Rightarrow> row list \<Rightarrow> string \<Rightarrow> bool" where
  "shows_tree cs rs str \<longleftrightarrow>
     (\<exists>t L. mset L = mset (leaves t) \<and> chain_cells L = map (cell_of cs) rs \<and> str = render (next_page L) t 0)"

lemma tree_img_dump:
  assumes pg: "pager_ok pg" and img: "table_img base cs (page_view pg) (npages pg) root rs"
  shows "ok (dump_tree WALK_FUEL root 0) pg (\<lambda>str pg'. shows_tree cs rs str \<and> pager_ok pg' \<and> same_base pg pg' \<and>
    table_img base cs (page_view pg') (npages pg') root rs)"
proof -
  obtain t L where t: "bt_page t = root" "tree_rep (page_view pg) (npages pg) t L" "chain_cells L = map (cell_of cs) rs"
    using img by (auto simp: table_img_def tree_img_def)
  have st: "pg.st pg pg (page_view pg) (npages pg)" "npages pg \<le> MAX_PAGES"
    using pg img by (simp_all add: pg_st table_img_def)
  have "mset L = mset (leaves t)" using t(2) by (simp add: tree_rep_def)
  then have "shows_tree cs rs (render (next_page L) t 0)" using t(3) unfolding shows_tree_def by blast
  with ok_mono [OF dump_refines [OF st t(2)]] t(1) img show ?thesis by (auto simp: pg_st)
qed

section \<open>The operations on a table\<close>

lemma ok_on_pager [ok_simps]: "ok (on_pager m) t Q \<longleftrightarrow> ok m (ts_pager t) (\<lambda>x pg. Q x (t\<lparr>ts_pager := pg\<rparr>))"
  by (auto simp: ok_def on_pager_def split: prod.splits sum.splits)

lemma ok_set_root [ok_simps]: "ok (set_root root) t Q \<longleftrightarrow> Q () (t\<lparr>ts_root := root\<rparr>)"
  by (simp add: ok_def set_root_def)

text \<open>The end of an operation: flushed outside a transaction, kept in the cache inside one.\<close>

lemma flush_unless_txn_ok:
  assumes pg: "pager_ok pg"
  shows "ok flush_unless_txn pg (\<lambda>_ pg'. pager_ok pg' \<and> page_view pg' = page_view pg \<and> npages pg' = npages pg \<and>
    pg_in_txn pg' = pg_in_txn pg \<and>
    (if pg_in_txn pg then same_base pg pg'
     else wal_file (pg_wal pg') = [] \<and> file_view (pg_file pg') = page_view pg \<and> length (pg_file pg') div PAGE_SIZE = npages pg))"
proof (cases "pg_in_txn pg")
  case False
  then have run: "flush_unless_txn pg = pager_commit pg"
    by (simp add: flush_unless_txn_def pager_flush_def)
  show ?thesis
    unfolding ok_run [where m = flush_unless_txn and m' = pager_commit, OF run] by (rule ok_mono [OF commit_ok [OF pg]]) (use False in \<open>simp add: npages_def\<close>)
qed (use pg in \<open>simp add: ok_def flush_unless_txn_def\<close>)

text \<open>\<open>settled base s s' rs\<close>: after an operation \<open>s'\<close> holds \<open>rs\<close>, with the same schema; on disk
  are the same rows or, in a transaction, what was there before.\<close>

definition settled :: "nat \<Rightarrow> table_store \<Rightarrow> table_store \<Rightarrow> row list \<Rightarrow> bool" where
  "settled base s s' rs \<longleftrightarrow>
     holds_rows base s' rs \<and> ts_columns s' = ts_columns s \<and> pg_in_txn (ts_pager s') = pg_in_txn (ts_pager s) \<and>
     (if pg_in_txn (ts_pager s) then pg_file (ts_pager s') = pg_file (ts_pager s) else saved_rows base s' rs)"

lemma settle:
  assumes "holds_rows base s' rs" "ts_columns s' = ts_columns s" "pg_in_txn (ts_pager s') = pg_in_txn (ts_pager s)"
    "pg_file (ts_pager s') = pg_file (ts_pager s)"
  shows "ok (on_pager flush_unless_txn) s' (\<lambda>_ s''. settled base s s'' rs)"
  unfolding ok_simps
  by (rule ok_mono [OF flush_unless_txn_ok])
    (use assms in \<open>auto simp: settled_def holds_rows_def shows_rows_def saved_rows_def same_base_def\<close>)

lemma check_types_ok: "list_all2 (\<lambda>col v. cell_ok (col_type col) v) cols vs \<Longrightarrow> check_types i (zip cols vs) = Inr ()"
proof (induction cols vs arbitrary: i rule: list_all2_induct)
  case (Cons col cols v vs)
  then show ?case by (cases "col_type col"; cases v) simp_all
qed simp

text \<open>The end of INSERT: a new root is written to page 0, and the table is flushed outside of a
  transaction.\<close>

lemma insert_row_end:
  assumes rows: "holds_rows base s rs" and row: "good_row (ts_columns s) r"
    and pg': "pager_ok pg'" "same_base (ts_pager s) pg'" "npages pg' \<le> MAX_PAGES" "page_view pg' 0 = page_view (ts_pager s) 0"
    and rs': "mset rs' = add_mset r (mset rs)" "tree_img base (ts_columns s) (page_view pg') (npages pg') root' rs'"
  shows "ok (sbind (if root' \<noteq> ts_root s then sbind (set_root root') (\<lambda>_. on_pager (write_metadata root' (ts_columns s))) else ret ())
      (\<lambda>_. on_pager flush_unless_txn)) (s\<lparr>ts_pager := pg'\<rparr>) (\<lambda>_ s'. \<exists>rs'. mset rs' = add_mset r (mset rs) \<and> settled base s s' rs')"
    (is "ok ?m _ ?Q")
proof -
  let ?cs = "ts_columns s" and ?pg = "ts_pager s"
  have pg: "wal_file (pg_wal ?pg) = []" and img: "columns_ok ?cs" "list_all (good_row ?cs) rs" "0 < base" "holds_meta (page_view ?pg 0) (ts_root s) ?cs"
    using rows by (simp_all add: holds_rows_def shows_rows_def table_img_def)
  have good: "list_all (good_row ?cs) rs'"
    using mset_eq_setD [of rs' "r # rs"] rs'(1) img(2) row by (simp add: list_all_iff)
  have pos: "0 < npages pg'" using rs'(2) img(3) by (auto simp: tree_img_def compact_def)
  have fin: "ok (on_pager flush_unless_txn) s' ?Q"
    if "holds_rows base s' rs'" "ts_columns s' = ?cs" "same_base ?pg (ts_pager s')" for s'
    by (rule ok_mono [OF settle [OF that(1,2)]]) (use that(3) rs'(1) in \<open>auto simp: same_base_def\<close>)
  show ?thesis
  proof (cases "root' = ts_root s")
    case True
    have "ok (on_pager flush_unless_txn) (s\<lparr>ts_pager := pg'\<rparr>) ?Q"
      by (rule fin) (use pg' rs' True img good pg in \<open>simp_all add: holds_rows_def shows_rows_def table_img_def same_base_def\<close>)
    with True show ?thesis by (simp add: ok_simps)
  next
    case False
    have "ok (write_metadata root' ?cs) pg' (\<lambda>_ pg''. ok (on_pager flush_unless_txn) (s\<lparr>ts_pager := pg'', ts_root := root'\<rparr>) ?Q)"
    proof (rule ok_mono [OF write_metadata_ok [OF pg'(1) pos img(1)]])
      fix pg''
      assume b: "pager_ok pg'' \<and> npages pg'' = npages pg' \<and> same_base pg' pg'' \<and>
        holds_meta (page_view pg'' 0) root' ?cs \<and> (\<forall>p. p \<noteq> 0 \<longrightarrow> page_view pg'' p = page_view pg' p)"
      then have "tree_img base ?cs (page_view pg'') (npages pg'') root' rs'"
        using tree_img_cong [OF rs'(2)] by simp
      then show "ok (on_pager flush_unless_txn) (s\<lparr>ts_pager := pg'', ts_root := root'\<rparr>) ?Q"
        using pg' b img good pg by (intro fin) (auto simp: holds_rows_def shows_rows_def table_img_def same_base_def)
    qed
    with False show ?thesis by (simp add: ok_simps)
  qed
qed

lemma insert_row_ok:
  assumes rows: "holds_rows base s rs" and row: "good_row (ts_columns s) r" and room: "base + 2 * length rs + 1 \<le> MAX_PAGES"
  shows "ok (insert_row (row_values r)) s (\<lambda>_ s'. \<exists>rs'. mset rs' = add_mset r (mset rs) \<and> settled base s s' rs')"
proof -
  let ?cs = "ts_columns s" and ?pg = "ts_pager s" and ?key = "row_key (ts_columns s) r"
  let ?Q = "\<lambda>s'. \<exists>rs'. mset rs' = add_mset r (mset rs) \<and> settled base s s' rs'"
  have pg: "pager_ok ?pg" and img: "table_img base ?cs (page_view ?pg) (npages ?pg) (ts_root s) rs"
    using rows by (simp_all add: holds_rows_def shows_rows_def)
  have r: "row_ok r ?cs" "serialized_size r ?cs \<le> max_row_data_size" "\<lparr>row_values = row_values r\<rparr> = r"
    using row by (simp_all add: good_row_def max_row_data_size_def layout)
  have len: "length (row_values r) = length ?cs" using r(1) by (auto simp: row_ok_def dest: list_all2_lengthD)
  have types: "check_types 0 (zip ?cs (row_values r)) = Inr ()"
    using r(1) by (simp add: row_ok_def check_types_ok)
  have bytes: "serialize r ?cs (replicate (serialized_size r ?cs) 0) = Inr (row_bytes ?cs r)"
    by (simp add: serialize_encode row_bytes_def)
  have "ok (on_pager (btree_insert (ts_root s) ?key (row_bytes ?cs r))) s (\<lambda>root' s'.
      ok (sbind (if root' \<noteq> ts_root s then sbind (set_root root') (\<lambda>_. on_pager (write_metadata root' ?cs)) else ret ())
        (\<lambda>_. on_pager flush_unless_txn)) s' (\<lambda>_. ?Q))"
    unfolding ok_on_pager
    by (rule ok_mono [OF tree_img_insert [OF pg img row room]]) (use insert_row_end [OF rows row] in blast)
  moreover have run: "insert_row (row_values r) s = sbind (on_pager (btree_insert (ts_root s) ?key (row_bytes ?cs r))) (\<lambda>root'.
      sbind (if root' \<noteq> ts_root s then sbind (set_root root') (\<lambda>_. on_pager (write_metadata root' ?cs)) else ret ())
        (\<lambda>_. on_pager flush_unless_txn)) s"
    unfolding insert_row_def store_row_def Let_def r(3) types extract_key_row_key
    using len r(2) by (simp add: liftR_def sbind_def not_less bytes)
  ultimately show ?thesis unfolding ok_bind [symmetric] by (simp only: ok_def)
qed

lemma select_rows_ok:
  assumes rows: "shows_rows base s rs"
  shows "ok select_rows s (\<lambda>res s'. res = (map col_name (ts_columns s), rs) \<and> shows_rows base s' rs \<and>
    ts_columns s' = ts_columns s \<and> same_base (ts_pager s) (ts_pager s'))"
proof -
  have pg: "pager_ok (ts_pager s)"
    and img: "table_img base (ts_columns s) (page_view (ts_pager s)) (npages (ts_pager s)) (ts_root s) rs"
    using rows by (simp_all add: shows_rows_def)
  have "rmap (\<lambda>buf. deserialize buf (ts_columns s)) (map (row_bytes (ts_columns s)) rs) = Inr rs"
    using img by (intro deserialize_rows) (simp add: table_img_def)
  then have "ok (sbind (on_pager (scan_all (ts_root s))) (\<lambda>raw_rows.
     sbind (liftR (rmap (\<lambda>buf. deserialize buf (ts_columns s)) raw_rows)) (\<lambda>rows.
     ret (map col_name (ts_columns s), rows)))) s (\<lambda>res s'. res = (map col_name (ts_columns s), rs) \<and> shows_rows base s' rs \<and>
    ts_columns s' = ts_columns s \<and> same_base (ts_pager s) (ts_pager s'))"
    unfolding ok_bind ok_on_pager
    by (intro ok_mono [OF tree_img_scan [OF pg img]]) (auto simp: ok_liftR ok_ret shows_rows_def)
  then show ?thesis by (simp only: ok_def select_rows_def)
qed

lemma dump_store_ok:
  assumes rows: "shows_rows base s rs"
  shows "ok (\<lambda>store. on_pager (dump_tree WALK_FUEL (ts_root store) 0) store) s (\<lambda>str s'. shows_tree (ts_columns s) rs str \<and>
    shows_rows base s' rs \<and> ts_columns s' = ts_columns s \<and> same_base (ts_pager s) (ts_pager s'))"
proof -
  have "ok (on_pager (dump_tree WALK_FUEL (ts_root s) 0)) s (\<lambda>str s'. shows_tree (ts_columns s) rs str \<and>
      shows_rows base s' rs \<and> ts_columns s' = ts_columns s \<and> same_base (ts_pager s) (ts_pager s'))"
    unfolding ok_on_pager
    by (rule ok_mono [OF tree_img_dump]) (use rows in \<open>auto simp: shows_rows_def\<close>)
  then show ?thesis by (simp only: ok_def)
qed

section \<open>Creating, opening, committing and rolling back\<close>

lemma init_table_ok:
  assumes pg: "pager_ok pg" "npages pg + 2 \<le> MAX_PAGES" "\<not> pg_in_txn pg" "wal_file (pg_wal pg) = []" and cs: "columns_ok cs"
  shows "ok (init_table cs) pg (\<lambda>root pg'. \<not> pg_in_txn pg' \<and>
    holds_rows (npages pg + 1) \<lparr>ts_pager = pg', ts_columns = cs, ts_root = root\<rparr> [] \<and>
    saved_rows (npages pg + 1) \<lparr>ts_pager = pg', ts_columns = cs, ts_root = root\<rparr> [])"
  unfolding init_table_def ok_bind
proof (rule ok_mono [OF allocate_page_ok [OF pg(1)]])
  show "npages pg < MAX_PAGES" using pg(2) by simp
  let ?n = "Suc (npages pg)"
  fix m pg1
  assume m: "m = of_nat (npages pg) \<and> pager_ok pg1 \<and> page_view pg1 = page_view pg \<and> npages pg1 = Suc (npages pg) \<and> same_base pg pg1"
  show "ok create_tree pg1 (\<lambda>root s'. ok (write_metadata root cs) s' (\<lambda>_ s'. ok flush_unless_txn s' (\<lambda>_ s'. ok (ret root) s' (\<lambda>root pg'.
      \<not> pg_in_txn pg' \<and> holds_rows (npages pg + 1) \<lparr>ts_pager = pg', ts_columns = cs, ts_root = root\<rparr> [] \<and>
      saved_rows (npages pg + 1) \<lparr>ts_pager = pg', ts_columns = cs, ts_root = root\<rparr> []))))"
  proof (rule ok_mono [OF holds_create])
    fix root pg2
    assume t: "root = of_nat (npages pg1) \<and> holds_tree pg2 root (Lf root []) [(root, [])] \<and> npages pg2 = Suc (npages pg1) \<and>
      same_base pg1 pg2 \<and> (\<forall>p. p \<noteq> root \<longrightarrow> page_view pg2 p = page_view pg1 p)"
    then have ok2: "pager_ok pg2" "0 < npages pg2" by (simp_all add: holds_tree_def)
    have "tree_rep (page_view pg2) (npages pg2) (Lf root []) [(root, [])]"
      using t unfolding holds_tree_def by blast
    moreover have "compact (npages pg + 1) (npages pg2) (Lf root []) [(root, [])]"
      using t m by (simp add: compact_def)
    ultimately have img2: "tree_img (npages pg + 1) cs (page_view pg2) (npages pg2) root []"
      unfolding tree_img_def using new_tree_in_order
      by (intro exI [of _ "Lf root []"] exI [of _ "[(root, [])]"] conjI) (simp_all add: chain_cells_def)
    show "ok (write_metadata root cs) pg2 (\<lambda>_ s'. ok flush_unless_txn s' (\<lambda>_ s'. ok (ret root) s' (\<lambda>root pg'.
      \<not> pg_in_txn pg' \<and> holds_rows (npages pg + 1) \<lparr>ts_pager = pg', ts_columns = cs, ts_root = root\<rparr> [] \<and>
      saved_rows (npages pg + 1) \<lparr>ts_pager = pg', ts_columns = cs, ts_root = root\<rparr> [])))"
    proof (rule ok_mono [OF write_metadata_ok [OF ok2 cs]])
      fix u pg3
      assume w: "pager_ok pg3 \<and> npages pg3 = npages pg2 \<and> same_base pg2 pg3 \<and>
        holds_meta (page_view pg3 0) root cs \<and> (\<forall>p. p \<noteq> 0 \<longrightarrow> page_view pg3 p = page_view pg2 p)"
      then have "tree_img (npages pg + 1) cs (page_view pg3) (npages pg3) root []"
        using tree_img_cong [OF img2] by simp
      then have img3: "table_img (npages pg + 1) cs (page_view pg3) (npages pg3) root []"
        using w t m pg(2) cs by (simp add: table_img_def)
      have "\<not> pg_in_txn pg3" using w t m pg(3) by (simp add: same_base_def)
      then show "ok flush_unless_txn pg3 (\<lambda>_ s'. ok (ret root) s' (\<lambda>root pg'.
        \<not> pg_in_txn pg' \<and> holds_rows (npages pg + 1) \<lparr>ts_pager = pg', ts_columns = cs, ts_root = root\<rparr> [] \<and>
        saved_rows (npages pg + 1) \<lparr>ts_pager = pg', ts_columns = cs, ts_root = root\<rparr> []))"
        by (intro ok_mono [OF flush_unless_txn_ok]) (use w img3 in \<open>auto simp: ok_ret holds_rows_def shows_rows_def saved_rows_def\<close>)
    qed
  qed (use m pg(2) in simp_all)
qed

text \<open>The files of a table.\<close>

definition table_files :: "table_store \<Rightarrow> disk" where
  "table_files s = (pg_file (ts_pager s), wal_file (pg_wal (ts_pager s)))"

lemma pager_commit_table:
  assumes "holds_rows base s rs"
  shows "ok (on_pager pager_commit) s (\<lambda>_ s'. holds_rows base s' rs \<and> saved_rows base s' rs \<and> ts_columns s' = ts_columns s \<and>
    wal_file (pg_wal (ts_pager s')) = [] \<and> \<not> pg_in_txn (ts_pager s'))"
  unfolding ok_on_pager
  by (rule ok_mono [OF commit_ok])
    (use assms fl_eq in \<open>auto simp: holds_rows_def shows_rows_def saved_rows_def npages_def\<close>)

lemma rollback_store_ok:
  assumes pg: "pager_ok (ts_pager s)" and saved: "saved_rows base s rs"
  shows "ok rollback_store s (\<lambda>_ s'. holds_rows base s' rs \<and> saved_rows base s' rs \<and> ts_columns s' = ts_columns s \<and>
    pg_file (ts_pager s') = pg_file (ts_pager s) \<and> \<not> pg_in_txn (ts_pager s'))"
proof -
  let ?f = "pg_file (ts_pager s)" and ?cs = "ts_columns s"
  obtain root where img: "table_img base ?cs (file_view ?f) (length ?f div PAGE_SIZE) root rs"
    using saved by (auto simp: saved_rows_def)
  show ?thesis
    unfolding rollback_store_def ok_bind ok_on_pager
  proof (rule ok_mono [OF rollback_ok [OF pg]])
    fix u pg'
    assume a: "pager_ok pg' \<and> page_view pg' = file_view ?f \<and> pg_file pg' = ?f \<and> npages pg' * PAGE_SIZE = length ?f \<and>
      dirty_writes pg' = [] \<and> wal_file (pg_wal pg') = [] \<and> \<not> pg_in_txn pg'"
    have n: "npages pg' = length ?f div PAGE_SIZE"
      using a by (metis nonzero_mult_div_cancel_right PAGE_SIZE_def zero_neq_numeral)
    have meta: "holds_meta (page_view pg' 0) root ?cs" "columns_ok ?cs" using img a by (simp_all add: table_img_def)
    show "ok read_metadata (ts_pager (s\<lparr>ts_pager := pg'\<rparr>)) (\<lambda>x pg.
        ok (case x of (root, _) \<Rightarrow> set_root root) (s\<lparr>ts_pager := pg', ts_pager := pg\<rparr>) (\<lambda>_ s'. holds_rows base s' rs \<and> saved_rows base s' rs \<and>
          ts_columns s' = ts_columns s \<and> pg_file (ts_pager s') = ?f \<and> \<not> pg_in_txn (ts_pager s')))"
      using ok_mono [OF read_metadata_ok [OF _ meta]] a img n saved
      by (auto simp: ok_set_root holds_rows_def shows_rows_def saved_rows_def same_view_def npages_def)
  qed
qed

text \<open>Opening the files of a table: the rows that the recovered file holds.\<close>

lemma open_pager_table:
  assumes open_pg: "pager_open path (fst d) (snd d) = Inr pg" and pg: "pager_ok pg"
    and img: "table_img base cs (page_view pg) (npages pg) root rs"
  shows "ok read_metadata pg (\<lambda>r pg'. r = (root, cs) \<and> pg_wal pg' = pg_wal pg \<and> pg_file pg' = pg_file pg \<and> pg_in_txn pg' = pg_in_txn pg \<and>
    shows_rows base \<lparr>ts_pager = pg', ts_columns = cs, ts_root = root\<rparr> rs)"
  by (rule ok_mono [OF read_metadata_ok [OF pg, of root cs]])
    (use img in \<open>auto simp: table_img_def shows_rows_def same_view_def npages_def\<close>)

lemma open_clean:
  assumes "length f mod PAGE_SIZE = 0"
  obtains pg where "pager_open path f [] = Inr pg" "pager_ok pg" "page_view pg = file_view f"
    "npages pg = length f div PAGE_SIZE" "pg_file pg = f" "wal_file (pg_wal pg) = []" "\<not> pg_in_txn pg"
proof -
  define pg where "pg = \<lparr>pg_file = f, pg_file_length = length f, pg_cache = empty_cache, pg_wal = wal_open [], pg_in_txn = False\<rparr>"
  have "pager_open path f [] = Inr pg"
    using assms by (simp add: pager_open_def recover_def wal_open_def pg_def)
  moreover note open_view [OF assms pg_def]
  ultimately show ?thesis using that [of pg] by (simp add: pg_def wal_open_def)
qed

lemma opens_clean: "length f mod PAGE_SIZE = 0 \<Longrightarrow> opens_to (f, []) f"
  using opens_recovered [of f "[]" "[]"] by (simp add: apply_records_def recover_def wal_open_def)

lemma opens_table:
  assumes opens: "opens_to (fs path) f" and img: "table_img base cs (file_view f) (length f div PAGE_SIZE) root rs"
  shows "ok (sbind (open_table fs n path) (\<lambda>_. select_all n)) s (\<lambda>res _. res = (map col_name cs, rs))"
proof -
  obtain pg where pg: "pager_open path (fst (fs path)) (snd (fs path)) = Inr pg" "pager_ok pg" "page_view pg = file_view f"
    "npages pg = length f div PAGE_SIZE" using opens by (auto simp: opens_to_def)
  then have img': "table_img base cs (page_view pg) (npages pg) root rs" using img by simp
  obtain pg' where pg': "read_metadata pg = (Inr (root, cs), pg')" "shows_rows base \<lparr>ts_pager = pg', ts_columns = cs, ts_root = root\<rparr> rs"
    using open_pager_table [OF pg(1,2) img'] by (auto elim!: okE)
  let ?t = "\<lparr>ts_pager = pg', ts_columns = cs, ts_root = root\<rparr>"
  have "ok select_rows ?t (\<lambda>res _. res = (map col_name cs, rs))"
    by (rule ok_mono [OF select_rows_ok [OF pg'(2)]]) simp
  then have "ok (select_all n) (s\<lparr>tables := AList.update n ?t (tables s)\<rparr>) (\<lambda>res _. res = (map col_name cs, rs))"
    by (simp add: select_all_def ok_def with_table_def update_conv' split: prod.splits sum.splits)
  moreover have "open_table fs n path s = (Inr (), s\<lparr>tables := AList.update n ?t (tables s)\<rparr>)"
    by (simp add: open_table_def pg(1) pg'(1))
  ultimately show ?thesis by (simp add: ok_def sbind_def)
qed

lemma saved_length: "pager_ok pg \<Longrightarrow> length (pg_file pg) mod PAGE_SIZE = 0"
  using pager_lengths(1) by simp

lemma keys_sorted:
  assumes "tree_img base cs V n root rs" "distinct (map (row_key cs) rs)"
  shows "sorted (map (\<lambda>r. sint (row_key cs r)) rs)"
proof -
  obtain t L where "in_order t L" "chain_cells L = map (cell_of cs) rs"
    using assms by (auto simp: tree_img_def)
  then have "sorted (map (\<lambda>c. sint (fst c)) (map (cell_of cs) rs))"
    by (auto simp: in_order_def ordered_def cells_sorted_def chain_cells_def cells_of_def
        sorted_wrt_map elim: sorted_wrt_mono_rel [rotated])
  then show ?thesis by (simp add: comp_def)
qed

end
