(* ===== verification/Storage_Spec.thy ===== *)
theory Storage_Spec
  imports Table
begin

text \<open>
  The specification of \<open>src/storage.rs\<close>. An abstract database maps names to a schema and
  a multiset of rows, twice: the working contents, which SELECT shows, and the durable
  contents, which a restart shows; \<open>enrolled\<close> are the tables whose pager is in the
  transaction. \<open>db_rel\<close> relates it to the tables; every operation of the source simulates
  its abstract counterpart.
\<close>

section \<open>The abstract database\<close>

type_synonym content = "column list \<times> row multiset"

record adb =
  working :: "string \<Rightarrow> content option"
  durable :: "string \<Rightarrow> content option"
  enrolled :: "string set"

definition a_new :: adb where
  "a_new = \<lparr>working = Map.empty, durable = Map.empty, enrolled = {}\<rparr>"

definition a_create :: "string \<Rightarrow> column list \<Rightarrow> adb \<Rightarrow> adb" where
  "a_create n cs a = a\<lparr>working := (working a)(n \<mapsto> (cs, {#})), durable := (durable a)(n \<mapsto> (cs, {#}))\<rparr>"

definition a_insert :: "string \<Rightarrow> row \<Rightarrow> adb \<Rightarrow> adb" where
  "a_insert n r a =
     (case working a n of
        None \<Rightarrow> a
      | Some (cs, R) \<Rightarrow> a\<lparr>working := (working a)(n \<mapsto> (cs, add_mset r R)),
          durable := (if n \<in> enrolled a then durable a else (durable a)(n \<mapsto> (cs, add_mset r R)))\<rparr>)"

definition a_begin :: "adb \<Rightarrow> adb" where
  "a_begin a = a\<lparr>enrolled := dom (working a)\<rparr>"

definition a_commit :: "adb \<Rightarrow> adb" where
  "a_commit a = a\<lparr>durable := working a, enrolled := {}\<rparr>"

definition a_rollback :: "adb \<Rightarrow> adb" where
  "a_rollback a = a\<lparr>working := durable a, enrolled := {}\<rparr>"

section \<open>The simulation relation\<close>

definition table_rel :: "bool \<Rightarrow> table_store \<Rightarrow> content \<Rightarrow> content \<Rightarrow> bool" where
  "table_rel txn t c d \<longleftrightarrow>
     (\<exists>rs rs0. holds_rows 1 t rs \<and> saved_rows 1 t rs0 \<and> c = (ts_columns t, mset rs) \<and> d = (ts_columns t, mset rs0)) \<and>
     pg_in_txn (ts_pager t) = txn \<and> (\<not> txn \<longrightarrow> c = d)"

lemma table_relI:
  assumes "holds_rows 1 t rs" "saved_rows 1 t saved" "ts_columns t = cs" "mset rs = R" "mset saved = R'"
    "pg_in_txn (ts_pager t) = txn" "txn \<or> R = R'"
  shows "table_rel txn t (cs, R) (cs, R')"
  proof -
  have "holds_rows 1 t rs \<and> saved_rows 1 t saved \<and> (cs, R) = (ts_columns t, mset rs) \<and> (cs, R') = (ts_columns t, mset saved)"
    using assms by simp
  then show ?thesis unfolding table_rel_def using assms(6,7) by blast
qed

lemma saved_rows_same: "pg_file (ts_pager t') = pg_file (ts_pager t) \<Longrightarrow> ts_columns t' = ts_columns t \<Longrightarrow> saved_rows b t' rs = saved_rows b t rs"
  by (simp add: saved_rows_def)

definition entry_rel :: "adb \<Rightarrow> string \<Rightarrow> table_store option \<Rightarrow> bool" where
  "entry_rel a n to \<longleftrightarrow>
     (case to of
        None \<Rightarrow> working a n = None \<and> durable a n = None \<and> n \<notin> enrolled a
      | Some t \<Rightarrow> \<exists>c d. working a n = Some c \<and> durable a n = Some d \<and> table_rel (n \<in> enrolled a) t c d)"

definition db_rel :: "storage \<Rightarrow> adb \<Rightarrow> bool" where
  "db_rel s a \<longleftrightarrow> distinct (map fst (tables s)) \<and> (\<forall>n. entry_rel a n (map_of (tables s) n))"

lemma db_rel_new: "db_rel storage_new a_new"
  by (simp add: db_rel_def storage_new_def entry_rel_def a_new_def)

lemma db_rel_lookup:
  assumes "db_rel s a" "working a n = Some (cs, R)"
  obtains t rs rs0 where "map_of (tables s) n = Some t" "holds_rows 1 t rs" "saved_rows 1 t rs0" "ts_columns t = cs" "mset rs = R"
    "durable a n = Some (cs, mset rs0)" "pg_in_txn (ts_pager t) = (n \<in> enrolled a)" "n \<in> enrolled a \<or> mset rs0 = R"
proof -
  have "entry_rel a n (map_of (tables s) n)" using assms(1) by (simp add: db_rel_def)
  with assms(2) show ?thesis
    by (cases "map_of (tables s) n") (auto simp: entry_rel_def table_rel_def intro: that)
qed

lemma db_rel_good: "db_rel s a \<Longrightarrow> working a n = Some (cs, R) \<Longrightarrow> r \<in># R \<Longrightarrow> good_row cs r"
  by (erule (1) db_rel_lookup) (auto simp: holds_rows_def shows_rows_def table_img_def list_all_iff)

lemma db_rel_dom: "db_rel s a \<Longrightarrow> map_of (tables s) n = None \<longleftrightarrow> working a n = None"
proof -
  assume "db_rel s a"
  then have "entry_rel a n (map_of (tables s) n)" by (simp add: db_rel_def)
  then show ?thesis by (cases "map_of (tables s) n") (auto simp: entry_rel_def)
qed

text \<open>Changing one table, or adding one.\<close>

lemma db_rel_update:
  assumes "db_rel s a" "table_rel (n \<in> enrolled a') t c d" "working a' = (working a)(n \<mapsto> c)" "durable a' = (durable a)(n \<mapsto> d)"
    "enrolled a' = enrolled a"
  shows "db_rel (s\<lparr>tables := AList.update n t (tables s)\<rparr>) a'"
  unfolding db_rel_def
proof (intro conjI allI)
  show "distinct (map fst (tables (s\<lparr>tables := AList.update n t (tables s)\<rparr>)))"
    using assms(1) by (simp add: db_rel_def distinct_update)
  fix m
  have "entry_rel a m (map_of (tables s) m)" using assms(1) by (simp add: db_rel_def)
  then show "entry_rel a' m (map_of (tables (s\<lparr>tables := AList.update n t (tables s)\<rparr>)) m)"
    using assms(2-5) by (cases "m = n") (auto simp: entry_rel_def update_conv' split: option.splits)
qed

lemma ok_with_table:
  "map_of (tables s) n = Some t \<Longrightarrow>
   ok (with_table n m) s Q \<longleftrightarrow> ok m t (\<lambda>x t'. Q x (s\<lparr>tables := AList.update n t' (tables s)\<rparr>))"
  by (auto simp: ok_def with_table_def split: prod.splits sum.splits)

section \<open>One operation\<close>

lemma create_sim:
  assumes rel: "db_rel s a" and new: "working a n = None" and fresh: "fs (n @ ''.db'') = ([], [])" and cs: "columns_ok cs"
  shows "ok (create_table fs n cs) s (\<lambda>_ s'. db_rel s' (a_create n cs a))"
proof -
  have none: "map_of (tables s) n = None" using db_rel_dom [OF rel] new by simp
  have "entry_rel a n None" using rel none by (metis db_rel_def)
  then have enr: "n \<notin> enrolled a" by (simp add: entry_rel_def)
  obtain pg where pg: "pager_open (n @ ''.db'') [] [] = Inr pg" "pager_ok pg" "npages pg = 0" "wal_file (pg_wal pg) = []" "\<not> pg_in_txn pg"
    by (rule open_clean [of "[]" "n @ ''.db''"]) auto
  have "ok (init_table cs) pg (\<lambda>root pg'.
      db_rel (s\<lparr>tables := AList.update n \<lparr>ts_pager = pg', ts_columns = cs, ts_root = root\<rparr> (tables s)\<rparr>) (a_create n cs a))"
  proof (rule ok_mono [OF init_table_ok [OF pg(2) _ pg(5,4) cs]])
    fix root pg'
    let ?t = "\<lparr>ts_pager = pg', ts_columns = cs, ts_root = root\<rparr>"
    assume "\<not> pg_in_txn pg' \<and> holds_rows (npages pg + 1) ?t [] \<and> saved_rows (npages pg + 1) ?t []"
    then have "table_rel (n \<in> enrolled (a_create n cs a)) ?t (cs, {#}) (cs, {#})"
      using pg(3) enr by (auto simp: table_rel_def a_create_def)
    then show "db_rel (s\<lparr>tables := AList.update n ?t (tables s)\<rparr>) (a_create n cs a)"
      by (rule db_rel_update [OF rel]) (simp_all add: a_create_def)
  qed (simp add: pg(3) MAX_PAGES_def)
  then show ?thesis
    using none fresh pg(1) by (auto simp: ok_def create_table_def Let_def split: prod.splits sum.splits)
qed

lemma insert_sim:
  assumes rel: "db_rel s a" and tab: "working a n = Some (cs, R)" and row: "good_row cs r"
    and room: "2 * size R + 2 \<le> MAX_PAGES"
  shows "ok (insert_into n (row_values r)) s (\<lambda>_ s'. db_rel s' (a_insert n r a))"
proof -
  obtain t rs rs0 where t: "map_of (tables s) n = Some t" "holds_rows 1 t rs" "saved_rows 1 t rs0" "ts_columns t = cs" "mset rs = R"
    "durable a n = Some (cs, mset rs0)" "pg_in_txn (ts_pager t) = (n \<in> enrolled a)" "n \<in> enrolled a \<or> mset rs0 = R"
    by (rule db_rel_lookup [OF rel tab])
  have room': "1 + 2 * length rs + 1 \<le> MAX_PAGES" using room t(5) by auto
  show ?thesis
    unfolding insert_into_def ok_with_table [OF t(1)]
  proof (rule ok_mono [OF insert_row_ok [OF t(2) _ room']])
    fix u t'
    assume "\<exists>rs'. mset rs' = add_mset r (mset rs) \<and> settled 1 t t' rs'"
    then obtain rs' where rs': "mset rs' = add_mset r R" "settled 1 t t' rs'" using t(5) by auto
    let ?R0 = "if n \<in> enrolled a then mset rs0 else add_mset r R"
    have st: "holds_rows 1 t' rs'" "ts_columns t' = cs" "pg_in_txn (ts_pager t') = (n \<in> enrolled a)"
      "if n \<in> enrolled a then saved_rows 1 t' rs0 else saved_rows 1 t' rs'"
      using rs'(2) t(3,4,7) by (auto simp: settled_def saved_rows_def split: if_splits)
    have "table_rel (n \<in> enrolled a) t' (cs, add_mset r R) (cs, ?R0)"
      by (rule table_relI [OF st(1) _ st(2) rs'(1), where saved = "if n \<in> enrolled a then rs0 else rs'"])
        (use st(3,4) rs'(1) in auto)
    then have rel': "table_rel (n \<in> enrolled (a_insert n r a)) t' (cs, add_mset r R) (cs, ?R0)"
      using tab by (simp add: a_insert_def)
    show "db_rel (s\<lparr>tables := AList.update n t' (tables s)\<rparr>) (a_insert n r a)"
      by (rule db_rel_update [OF rel rel']) (use tab t(6) in \<open>auto simp: a_insert_def fun_eq_iff\<close>)
  qed (use row t(4) in simp)
qed

text \<open>What a SELECT shows of a table, and what its \<open>.btree\<close> shows.\<close>

definition shows_table :: "content \<Rightarrow> string list \<times> row list \<Rightarrow> bool" where
  "shows_table c x \<longleftrightarrow> (case c of (cs, R) \<Rightarrow> case x of (hs, rows) \<Rightarrow>
     hs = map col_name cs \<and> mset rows = R \<and> list_all (good_row cs) rows \<and>
     (distinct (map (row_key cs) rows) \<longrightarrow> sorted (map (\<lambda>r. sint (row_key cs r)) rows)))"

definition dumps_table :: "content \<Rightarrow> string \<Rightarrow> bool" where
  "dumps_table c str \<longleftrightarrow> (\<exists>rs. mset rs = snd c \<and> shows_tree (fst c) rs str)"

text \<open>An operation that reads one table changes nothing but its page cache.\<close>

lemma reader_sim:
  assumes rel: "db_rel s a" and tab: "working a n = Some (cs, R)"
    and m: "\<And>t rs. shows_rows 1 t rs \<Longrightarrow> ts_columns t = cs \<Longrightarrow> mset rs = R \<Longrightarrow>
      ok m t (\<lambda>x t'. Q x \<and> shows_rows 1 t' rs \<and> ts_columns t' = ts_columns t \<and> same_base (ts_pager t) (ts_pager t'))"
  shows "ok (with_table n m) s (\<lambda>x s'. Q x \<and> db_rel s' a)"
proof -
  obtain t rs rs0 where t: "map_of (tables s) n = Some t" "holds_rows 1 t rs" "saved_rows 1 t rs0" "ts_columns t = cs" "mset rs = R"
    "durable a n = Some (cs, mset rs0)" "pg_in_txn (ts_pager t) = (n \<in> enrolled a)" "n \<in> enrolled a \<or> mset rs0 = R"
    by (rule db_rel_lookup [OF rel tab])
  have sh: "shows_rows 1 t rs" using t(2) by (simp add: holds_rows_def)
  show ?thesis
    unfolding ok_with_table [OF t(1)]
  proof (rule ok_mono [OF m [OF sh t(4,5)]])
    fix x t'
    assume b: "Q x \<and> shows_rows 1 t' rs \<and> ts_columns t' = ts_columns t \<and> same_base (ts_pager t) (ts_pager t')"
    then have rel': "table_rel (n \<in> enrolled a) t' (cs, R) (cs, mset rs0)"
      using t saved_rows_same [of t' t] by (intro table_relI) (auto simp: holds_rows_def same_base_def)
    have "db_rel (s\<lparr>tables := AList.update n t' (tables s)\<rparr>) a"
      by (rule db_rel_update [OF rel rel']) (use tab t(6) in \<open>simp_all add: fun_upd_idem\<close>)
    with b show "Q x \<and> db_rel (s\<lparr>tables := AList.update n t' (tables s)\<rparr>) a" by simp
  qed
qed

lemma select_sim:
  assumes rel: "db_rel s a" and tab: "working a n = Some c"
  shows "ok (select_all n) s (\<lambda>x s'. shows_table c x \<and> db_rel s' a)"
proof -
  obtain cs R where c: "c = (cs, R)" by force
  show ?thesis
    unfolding select_all_def
  proof (rule reader_sim [OF rel tab [unfolded c]])
    fix t rs assume t: "shows_rows 1 t rs" "ts_columns t = cs" "mset rs = R"
    have "shows_table c (map col_name cs, rs)"
      using t keys_sorted by (auto simp: shows_table_def c shows_rows_def table_img_def)
    then show "ok select_rows t (\<lambda>x t'. shows_table c x \<and> shows_rows 1 t' rs \<and> ts_columns t' = ts_columns t \<and> same_base (ts_pager t) (ts_pager t'))"
      by (intro ok_mono [OF select_rows_ok [OF t(1)]]) (use t(2) in auto)
  qed
qed

lemma dump_sim:
  assumes rel: "db_rel s a" and tab: "working a n = Some c"
  shows "ok (dump_btree n) s (\<lambda>str s'. dumps_table c str \<and> db_rel s' a)"
proof -
  obtain cs R where c: "c = (cs, R)" by force
  show ?thesis
    unfolding dump_btree_def
    by (rule reader_sim [OF rel tab [unfolded c]], rule ok_mono [OF dump_store_ok]) (auto simp: c dumps_table_def)
qed

section \<open>Operations on all tables\<close>

lemma each_store_ok:
  assumes "\<And>n t. (n, t) \<in> set ts \<Longrightarrow> ok m t (\<lambda>_. P n t)"
  shows "ok (each_store m) ts (\<lambda>_ ts'. list_all2 (\<lambda>x y. fst x = fst y \<and> P (fst x) (snd x) (snd y)) ts ts')"
  using assms
proof (induction ts)
  case (Cons x ts)
  obtain n t where x: "x = (n, t)" by force
  obtain t' where t': "m t = (Inr (), t')" "P n t t'"
    using Cons.prems [of n t] by (auto simp: x elim!: okE)
  have "ok (each_store m) ts (\<lambda>_ ts'. list_all2 (\<lambda>x y. fst x = fst y \<and> P (fst x) (snd x) (snd y)) ts ts')"
    using Cons.prems by (intro Cons.IH) auto
  then obtain ts' where "each_store m ts = (Inr (), ts')" "list_all2 (\<lambda>x y. fst x = fst y \<and> P (fst x) (snd x) (snd y)) ts ts'"
    by (auto elim!: okE)
  with t' show ?case by (simp add: ok_def x)
qed (simp add: ok_def)

lemma list_all2_map_of:
  assumes "list_all2 (\<lambda>x y. fst x = fst y \<and> P (fst x) (snd x) (snd y)) ts ts'"
  shows "map fst ts' = map fst ts"
    and "(case map_of ts n of None \<Rightarrow> map_of ts' n = None | Some t \<Rightarrow> \<exists>t'. map_of ts' n = Some t' \<and> P n t t')"
  using assms by (induction ts ts' rule: list_all2_induct) (auto split: prod.splits if_splits option.splits)

lemma all_tables_sim:
  assumes rel: "db_rel s a"
    and step: "\<And>n t c d. working a n = Some c \<Longrightarrow> durable a n = Some d \<Longrightarrow> table_rel (n \<in> enrolled a) t c d \<Longrightarrow>
      ok m t (\<lambda>_ t'. \<exists>c' d'. working a' n = Some c' \<and> durable a' n = Some d' \<and> table_rel (n \<in> enrolled a') t' c' d')"
    and none: "\<And>n. working a n = None \<Longrightarrow> durable a n = None \<Longrightarrow> n \<notin> enrolled a \<Longrightarrow> working a' n = None \<and> durable a' n = None \<and> n \<notin> enrolled a'"
  shows "ok (all_tables m) s (\<lambda>_ s'. db_rel s' a')"
proof -
  let ?P = "\<lambda>n t t'. \<exists>c' d'. working a' n = Some c' \<and> durable a' n = Some d' \<and> table_rel (n \<in> enrolled a') t' c' d'"
  have "ok m t (\<lambda>_. ?P n t)" if "(n, t) \<in> set (tables s)" for n t
  proof -
    have "map_of (tables s) n = Some t" using that rel by (simp add: db_rel_def)
    moreover have "entry_rel a n (map_of (tables s) n)" using rel by (simp add: db_rel_def)
    ultimately show ?thesis using step by (auto simp: entry_rel_def)
  qed
  note run = each_store_ok [of "tables s" m ?P, OF this]
  then obtain ts' where ts': "each_store m (tables s) = (Inr (), ts')"
    "list_all2 (\<lambda>x y. fst x = fst y \<and> ?P (fst x) (snd x) (snd y)) (tables s) ts'" by (auto elim!: okE)
  note corr = list_all2_map_of [OF ts'(2)]
  have "entry_rel a' n (map_of ts' n)" for n
  proof (cases "map_of (tables s) n")
    case None
    then have "entry_rel a n None" using rel by (metis db_rel_def)
    then show ?thesis using corr(2) [of n] None none [of n] by (simp add: entry_rel_def)
  next
    case (Some t)
    then show ?thesis using corr(2) [of n] by (auto simp: entry_rel_def)
  qed
  then show ?thesis
    using rel ts'(1) corr(1) by (simp add: ok_def all_tables_def db_rel_def)
qed

lemma begin_sim:
  assumes "db_rel s a" "enrolled a = {}"
  shows "ok storage_begin s (\<lambda>_ s'. db_rel s' (a_begin a))"
  unfolding storage_begin_def
proof (rule all_tables_sim [OF assms(1)])
  fix n t c d assume a: "working a n = Some c" "durable a n = Some d" "table_rel (n \<in> enrolled a) t c d"
  have same: "pager_ok (pg\<lparr>pg_in_txn := True\<rparr>) = pager_ok pg" "page_view (pg\<lparr>pg_in_txn := True\<rparr>) = page_view pg"
      "npages (pg\<lparr>pg_in_txn := True\<rparr>) = npages pg" for pg
    by (auto simp: pager_ok_def page_view_def npages_def fun_eq_iff split: option.split)
  have "ok (on_pager pager_begin) t (\<lambda>_ t'. table_rel True t' c d)"
    using a(3) assms(2)
    by (auto simp: ok_def on_pager_def pager_begin_def table_rel_def holds_rows_def shows_rows_def saved_rows_def same)
  then show "ok (on_pager pager_begin) t (\<lambda>_ t'. \<exists>c' d'. working (a_begin a) n = Some c' \<and> durable (a_begin a) n = Some d' \<and>
      table_rel (n \<in> enrolled (a_begin a)) t' c' d')"
    by (rule ok_mono) (use a in \<open>auto simp: a_begin_def domIff\<close>)
qed (simp add: a_begin_def dom_def)

lemma commit_sim:
  assumes "db_rel s a"
  shows "ok storage_commit s (\<lambda>_ s'. db_rel s' (a_commit a))"
  unfolding storage_commit_def
proof (rule all_tables_sim [OF assms])
  fix n t c d assume a: "working a n = Some c" "durable a n = Some d" "table_rel (n \<in> enrolled a) t c d"
  then obtain rs where rs: "holds_rows 1 t rs" "c = (ts_columns t, mset rs)" by (auto simp: table_rel_def)
  then have "ok (on_pager pager_commit) t (\<lambda>_ t'. table_rel False t' c c)"
    by (intro ok_mono [OF pager_commit_table [OF rs(1)]]) (auto simp: table_rel_def)
  then show "ok (on_pager pager_commit) t (\<lambda>_ t'. \<exists>c' d'. working (a_commit a) n = Some c' \<and> durable (a_commit a) n = Some d' \<and>
      table_rel (n \<in> enrolled (a_commit a)) t' c' d')"
    by (rule ok_mono) (use a in \<open>auto simp: a_commit_def\<close>)
qed (simp add: a_commit_def)

lemma rollback_sim:
  assumes "db_rel s a"
  shows "ok storage_rollback s (\<lambda>_ s'. db_rel s' (a_rollback a))"
  unfolding storage_rollback_def
proof (rule all_tables_sim [OF assms])
  fix n t c d assume a: "working a n = Some c" "durable a n = Some d" "table_rel (n \<in> enrolled a) t c d"
  then obtain rs0 where rs: "pager_ok (ts_pager t)" "saved_rows 1 t rs0" "d = (ts_columns t, mset rs0)"
    by (auto simp: table_rel_def holds_rows_def shows_rows_def)
  then have "ok rollback_store t (\<lambda>_ t'. table_rel False t' d d)"
    by (intro ok_mono [OF rollback_store_ok [OF rs(1,2)]]) (auto simp: table_rel_def)
  then show "ok rollback_store t (\<lambda>_ t'. \<exists>c' d'. working (a_rollback a) n = Some c' \<and> durable (a_rollback a) n = Some d' \<and>
      table_rel (n \<in> enrolled (a_rollback a)) t' c' d')"
    by (rule ok_mono) (use a in \<open>auto simp: a_rollback_def\<close>)
qed (simp add: a_rollback_def)

lemma db_rel_settled:
  assumes "db_rel s a" "enrolled a = {}"
  shows "durable a = working a"
proof
  fix n
  have "entry_rel a n (map_of (tables s) n)" using assms(1) by (simp add: db_rel_def)
  then show "durable a n = working a n"
    using assms(2) by (auto simp: entry_rel_def table_rel_def split: option.splits)
qed

end
