(* ===== verification/Simulation.thy ===== *)
theory Simulation
  imports Prelude
begin

text \<open>
  Runs of a component against its specification. A component performs commands \<open>'c\<close> one
  after the other and collects their replies; its specification says which commands are
  within its contract, which replies are right, and what the next abstract state is. The
  contract of one command lifts to runs once, in the locale \<open>simulation\<close>; the storage, a
  session and the server are its instances.
\<close>

section \<open>Runs\<close>

primrec run_seq :: "('c \<Rightarrow> ('s, 'x) sm) \<Rightarrow> 'c list \<Rightarrow> ('s, 'x list) sm" where
  "run_seq run [] = ret []"
| "run_seq run (c # cs) = sbind (run c) (\<lambda>x. sbind (run_seq run cs) (\<lambda>xs. ret (x # xs)))"

primrec all_within :: "('c \<Rightarrow> 'a \<Rightarrow> bool) \<Rightarrow> ('c \<Rightarrow> 'a \<Rightarrow> 'a) \<Rightarrow> 'c list \<Rightarrow> 'a \<Rightarrow> bool" where
  "all_within wi nxt [] a \<longleftrightarrow> True"
| "all_within wi nxt (c # cs) a \<longleftrightarrow> wi c a \<and> all_within wi nxt cs (nxt c a)"

fun all_replies :: "('a \<Rightarrow> 'c \<Rightarrow> 'x \<Rightarrow> bool) \<Rightarrow> ('c \<Rightarrow> 'a \<Rightarrow> 'a) \<Rightarrow> 'a \<Rightarrow> 'c list \<Rightarrow> 'x list \<Rightarrow> bool" where
  "all_replies rp nxt a [] [] \<longleftrightarrow> True"
| "all_replies rp nxt a (c # cs) (x # xs) \<longleftrightarrow> rp a c x \<and> all_replies rp nxt (nxt c a) cs xs"
| "all_replies rp nxt a _ _ \<longleftrightarrow> False"

lemma run_seq_map: "run_seq run (map f cs) = run_seq (\<lambda>c. run (f c)) cs"
  by (induction cs) simp_all

lemma all_within_append:
  "all_within wi nxt (xs @ ys) a \<longleftrightarrow> all_within wi nxt xs a \<and> all_within wi nxt ys (fold nxt xs a)"
  by (induction xs arbitrary: a) auto

lemma all_within_all: "all_within (\<lambda>c a. P c \<and> Q c a) nxt cs a \<Longrightarrow> list_all P cs"
  by (induction cs arbitrary: a) auto

lemma all_replies_length: "all_replies rp nxt a cs xs \<Longrightarrow> length xs = length cs"
  by (induction rp nxt a cs xs rule: all_replies.induct) auto

lemma all_replies_snoc:
  "length xs = length cs \<Longrightarrow>
   all_replies rp nxt a (cs @ [c]) (xs @ [x]) \<longleftrightarrow> all_replies rp nxt a cs xs \<and> rp (fold nxt cs a) c x"
  by (induction xs cs arbitrary: a rule: list_induct2) auto

lemma all_replies_Cons: "all_replies rp nxt a (c # cs) ys \<longleftrightarrow> (\<exists>x xs. ys = x # xs \<and> rp a c x \<and> all_replies rp nxt (nxt c a) cs xs)"
  by (cases ys) auto

lemma all_replies_Nil: "all_replies rp nxt a [] ys \<longleftrightarrow> ys = []"
  by (cases ys) auto

section \<open>The contract of one command\<close>

locale simulation =
  fixes rel :: "'s \<Rightarrow> 'a \<Rightarrow> bool"
    and run :: "'c \<Rightarrow> ('s, 'x) sm"
    and wi :: "'c \<Rightarrow> 'a \<Rightarrow> bool"
    and nxt :: "'c \<Rightarrow> 'a \<Rightarrow> 'a"
    and rp :: "'a \<Rightarrow> 'c \<Rightarrow> 'x \<Rightarrow> bool"
  assumes simulates: "rel s a \<Longrightarrow> wi c a \<Longrightarrow> ok (run c) s (\<lambda>x s'. rp a c x \<and> rel s' (nxt c a))"
begin

lemma runs:
  "rel s a \<Longrightarrow> all_within wi nxt cs a \<Longrightarrow>
   ok (run_seq run cs) s (\<lambda>xs s'. all_replies rp nxt a cs xs \<and> rel s' (fold nxt cs a))"
proof (induction cs arbitrary: s a)
  case (Cons c cs)
  let ?Q = "\<lambda>xs s'. all_replies rp nxt a (c # cs) xs \<and> rel s' (fold nxt (c # cs) a)"
  have "ok (run c) s (\<lambda>x s1. ok (sbind (run_seq run cs) (\<lambda>xs. ret (x # xs))) s1 ?Q)"
  proof (rule ok_mono [OF simulates [OF Cons.prems(1)]])
    show "wi c a" using Cons.prems(2) by simp
    fix x s1 assume x: "rp a c x \<and> rel s1 (nxt c a)"
    show "ok (sbind (run_seq run cs) (\<lambda>xs. ret (x # xs))) s1 ?Q"
      unfolding ok_bind by (rule ok_mono [OF Cons.IH [OF conjunct2 [OF x]]]) (use Cons.prems x in \<open>auto simp: ok_ret\<close>)
  qed
  then show ?case by (simp add: ok_bind)
qed (simp add: ok_ret)

text \<open>A run can be cut anywhere.\<close>

lemma runs_then:
  assumes "rel s a" "all_within wi nxt cs a"
    and "\<And>xs s'. all_replies rp nxt a cs xs \<Longrightarrow> rel s' (fold nxt cs a) \<Longrightarrow> ok (f xs) s' Q"
  shows "ok (sbind (run_seq run cs) f) s Q"
  unfolding ok_bind by (rule ok_mono [OF runs [OF assms(1,2)]]) (use assms(3) in blast)

end

end
