(* ===== verification/Storage_Runs.thy ===== *)
theory Storage_Runs
  imports Storage_Spec Simulation
begin

text \<open>
  The contract of \<open>src/storage.rs\<close> for every call, right or wrong: \<open>rejected\<close> is the error
  message the abstract database gives to a command it refuses, \<open>a_exec\<close> what a command does
  to it (nothing, when refused), \<open>answers\<close> the result that is returned. \<open>within\<close> are the
  limits under which the source keeps this contract; they say nothing of wrong commands.
\<close>

section \<open>What an INSERT checks\<close>

fun has_type :: "data_type \<Rightarrow> cell_value \<Rightarrow> bool" where
  "has_type TInteger (VInteger _) = True"
| "has_type TText (VText _) = True"
| "has_type _ _ = False"

definition typed_row :: "column list \<Rightarrow> cell_value list \<Rightarrow> bool" where
  "typed_row cs vs \<longleftrightarrow> list_all2 (\<lambda>c v. has_type (col_type c) v) cs vs"

text \<open>The first position at which a value does not have its column's type.\<close>

definition mismatch :: "column list \<Rightarrow> cell_value list \<Rightarrow> nat option" where
  "mismatch cs vs = List.find (\<lambda>i. \<not> has_type (col_type (cs ! i)) (vs ! i)) [0..<min (length cs) (length vs)]"

definition type_error :: "nat \<Rightarrow> column \<Rightarrow> cell_value \<Rightarrow> string" where
  "type_error i c v = ''Column '' @ quoted (col_name c) @ '' (position '' @ show_nat i @ '') expects '' @ debug_type (col_type c)
     @ '', got '' @ debug_value v @ ''.''"

definition row_error :: "column list \<Rightarrow> cell_value list \<Rightarrow> string option" where
  "row_error cs vs =
     (if length vs \<noteq> length cs
      then Some (''Expected '' @ show_nat (length cs) @ '' values, got '' @ show_nat (length vs) @ ''.'')
      else case mismatch cs vs of
        Some i \<Rightarrow> Some (type_error i (cs ! i) (vs ! i))
      | None \<Rightarrow>
          let n = serialized_size \<lparr>row_values = vs\<rparr> cs in
          if max_row_data_size < n
          then Some (''Row too large ('' @ show_nat n @ '' bytes). Maximum row size is '' @ show_nat max_row_data_size @ '' bytes.'')
          else None)"

lemma find_map_Suc: "List.find P (map Suc xs) = map_option Suc (List.find (\<lambda>i. P (Suc i)) xs)"
  by (induction xs) auto

lemma mismatch_simps:
  "mismatch [] vs = None" "mismatch cs [] = None"
  "mismatch (c # cs) (v # vs) = (if has_type (col_type c) v then map_option Suc (mismatch cs vs) else Some 0)"
proof -
  have "[0..<Suc n] = 0 # map Suc [0..<n]" for n by (simp add: upt_conv_Cons map_Suc_upt del: upt_Suc)
  then show "mismatch (c # cs) (v # vs) = (if has_type (col_type c) v then map_option Suc (mismatch cs vs) else Some 0)"
    by (simp add: mismatch_def find_map_Suc del: upt_Suc)
qed (simp_all add: mismatch_def)

text \<open>The loop of the source stops there.\<close>

lemma check_types_mismatch:
  "check_types k (zip cs vs) = (case mismatch cs vs of
     None \<Rightarrow> Inr () | Some i \<Rightarrow> Inl (Fail (type_error (k + i) (cs ! i) (vs ! i))))"
proof (induction cs arbitrary: vs k)
  case (Cons c cs)
  show ?case
  proof (cases vs)
    case (Cons v vs')
    then show ?thesis using Cons.IH [of "Suc k" vs']
      by (cases "col_type c"; cases v) (auto simp: mismatch_simps type_error_def split: option.splits)
  qed (simp add: mismatch_simps)
qed (simp add: mismatch_simps)

lemma mismatch_None: "length vs = length cs \<Longrightarrow> mismatch cs vs = None \<longleftrightarrow> typed_row cs vs"
proof (induction cs arbitrary: vs)
  case (Cons c cs)
  then show ?case by (cases vs) (auto simp: mismatch_simps typed_row_def)
qed (simp add: mismatch_simps typed_row_def)

lemma row_error_None:
  "row_error cs vs = None \<longleftrightarrow> typed_row cs vs \<and> serialized_size \<lparr>row_values = vs\<rparr> cs \<le> max_row_data_size"
proof (cases "length vs = length cs")
  case True
  then show ?thesis
    using mismatch_None [OF True] by (cases "mismatch cs vs") (simp_all add: row_error_def Let_def not_less)
qed (auto simp: row_error_def typed_row_def dest: list_all2_lengthD)

lemma insert_row_rejects:
  assumes "row_error (ts_columns t) vs = Some msg"
  shows "insert_row vs t = (Inl (Fail msg), t)"
proof -
  have key: "extract_key (ts_columns t) vs = Inr (row_key (ts_columns t) \<lparr>row_values = vs\<rparr>)"
    using extract_key_row_key [of "ts_columns t" "\<lparr>row_values = vs\<rparr>"] by simp
  show ?thesis
    using assms
    by (auto simp: row_error_def insert_row_def Let_def check_types_mismatch key sbind_def liftR_def raise_def
        split: option.splits if_splits)
qed

lemma insert_row_accepts:
  assumes "row_error (ts_columns t) vs = None"
  shows "insert_row vs t = store_row (row_key (ts_columns t) \<lparr>row_values = vs\<rparr>) \<lparr>row_values = vs\<rparr> t"
proof -
  have key: "extract_key (ts_columns t) vs = Inr (row_key (ts_columns t) \<lparr>row_values = vs\<rparr>)"
    using extract_key_row_key [of "ts_columns t" "\<lparr>row_values = vs\<rparr>"] by simp
  show ?thesis
    using assms
    by (auto simp: row_error_def insert_row_def Let_def check_types_mismatch key sbind_def liftR_def
        split: option.splits if_splits)
qed

section \<open>Commands\<close>

datatype cmd = CreateTable string "column list" | Insert string "cell_value list" | Select string | Dump string | Begin | Commit | Rollback

datatype answer = AUnit | ARows "string list" "row list" | AText string

fun run_cmd :: "files \<Rightarrow> cmd \<Rightarrow> (storage, answer) sm" where
  "run_cmd fs (CreateTable n cs) = sbind (create_table fs n cs) (\<lambda>_. ret AUnit)"
| "run_cmd fs (Insert n vs) = sbind (insert_into n vs) (\<lambda>_. ret AUnit)"
| "run_cmd fs (Select n) = sbind (select_all n) (\<lambda>(hs, rows). ret (ARows hs rows))"
| "run_cmd fs (Dump n) = sbind (dump_btree n) (\<lambda>str. ret (AText str))"
| "run_cmd fs Begin = sbind storage_begin (\<lambda>_. ret AUnit)"
| "run_cmd fs Commit = sbind storage_commit (\<lambda>_. ret AUnit)"
| "run_cmd fs Rollback = sbind storage_rollback (\<lambda>_. ret AUnit)"

fun a_cmd :: "cmd \<Rightarrow> adb \<Rightarrow> adb" where
  "a_cmd (CreateTable n cs) a = a_create n cs a"
| "a_cmd (Insert n vs) a = a_insert n \<lparr>row_values = vs\<rparr> a"
| "a_cmd Begin a = a_begin a"
| "a_cmd Commit a = a_commit a"
| "a_cmd Rollback a = a_rollback a"
| "a_cmd _ a = a"

definition no_table :: "string \<Rightarrow> string" where
  "no_table n = ''Table '' @ quoted n @ '' not found.''"

fun rejected :: "cmd \<Rightarrow> adb \<Rightarrow> string option" where
  "rejected (CreateTable n cs) a = (if working a n = None then None else Some (''Table '' @ quoted n @ '' already exists.''))"
| "rejected (Insert n vs) a = (case working a n of None \<Rightarrow> Some (no_table n) | Some (cs, R) \<Rightarrow> row_error cs vs)"
| "rejected (Select n) a = (if working a n = None then Some (no_table n) else None)"
| "rejected (Dump n) a = (if working a n = None then Some (no_table n) else None)"
| "rejected _ a = None"

definition a_exec :: "cmd \<Rightarrow> adb \<Rightarrow> adb" where
  "a_exec c a = (if rejected c a = None then a_cmd c a else a)"

fun good_answer :: "adb \<Rightarrow> cmd \<Rightarrow> answer \<Rightarrow> bool" where
  "good_answer a (Select n) r \<longleftrightarrow> (\<exists>c hs rows. working a n = Some c \<and> shows_table c (hs, rows) \<and> r = ARows hs rows)"
| "good_answer a (Dump n) r \<longleftrightarrow> (\<exists>c str. working a n = Some c \<and> dumps_table c str \<and> r = AText str)"
| "good_answer a c r \<longleftrightarrow> r = AUnit"

definition answers :: "string option \<Rightarrow> adb \<Rightarrow> cmd \<Rightarrow> answer result \<Rightarrow> bool" where
  "answers rejection a c r \<longleftrightarrow>
     (case rejection of Some msg \<Rightarrow> r = Inl (Fail msg) | None \<Rightarrow> \<exists>x. r = Inr x \<and> good_answer a c x)"

text \<open>
  The limits: a new table finds no file of its name, and its schema fits the metadata page; a
  row that is accepted has at most 1350 bytes of valid UTF-8 and goes into a table of at most
  511 rows. Everything that is rejected is within them. The storage itself relies on its
  sessions not to begin twice.
\<close>

fun within :: "files \<Rightarrow> cmd \<Rightarrow> adb \<Rightarrow> bool" where
  "within fs (CreateTable n cs) a \<longleftrightarrow> working a n \<noteq> None \<or> fs (n @ ''.db'') = ([], []) \<and> columns_ok cs"
| "within fs (Insert n vs) a \<longleftrightarrow>
     (case working a n of None \<Rightarrow> True
      | Some (cs, R) \<Rightarrow> row_error cs vs \<noteq> None \<or> good_row cs \<lparr>row_values = vs\<rparr> \<and> 2 * size R + 2 \<le> MAX_PAGES)"
| "within fs _ a \<longleftrightarrow> True"

definition legal :: "files \<Rightarrow> cmd \<Rightarrow> adb \<Rightarrow> bool" where
  "legal fs c a \<longleftrightarrow> within fs c a \<and> (c = Begin \<longrightarrow> enrolled a = {})"

lemma legal_simps [simp]:
  "legal fs (CreateTable n cs) a \<longleftrightarrow> within fs (CreateTable n cs) a"
  "legal fs (Insert n vs) a \<longleftrightarrow> within fs (Insert n vs) a"
  "legal fs (Select n) a" "legal fs (Dump n) a" "legal fs Commit a" "legal fs Rollback a"
  "legal fs Begin a \<longleftrightarrow> enrolled a = {}"
  by (simp_all add: legal_def)

section \<open>One command\<close>

lemma with_table_rejects: "map_of (tables s) n = None \<Longrightarrow> with_table n m s = (Inl (Fail (no_table n)), s)"
  by (simp add: with_table_def not_found_def no_table_def)

lemma rejected_run:
  assumes rel: "db_rel s a" and rej: "rejected c a = Some msg"
  shows "run_cmd fs c s = (Inl (Fail msg), s)"
proof (cases c)
  case (CreateTable n cs)
  then have "map_of (tables s) n \<noteq> None" "msg = ''Table '' @ quoted n @ '' already exists.''"
    using rej db_rel_dom [OF rel, of n] by (auto split: if_splits)
  then show ?thesis using CreateTable by (auto simp: create_table_def sbind_def)
next
  case (Insert n vs)
  show ?thesis
  proof (cases "working a n")
    case None
    then show ?thesis using Insert rej db_rel_dom [OF rel, of n] by (simp add: insert_into_def sbind_def with_table_rejects)
  next
    case (Some c)
    then obtain cs R where c: "working a n = Some (cs, R)" by (cases c) auto
    obtain t where t: "map_of (tables s) n = Some t" "ts_columns t = cs" by (rule db_rel_lookup [OF rel c])
    then have "insert_row vs t = (Inl (Fail msg), t)" using insert_row_rejects rej Insert c by simp
    then show ?thesis
      using Insert t(1) by (simp add: insert_into_def sbind_def with_table_def update_triv [OF t(1)])
  qed
qed (use rej db_rel_dom [OF rel] in \<open>auto simp: select_all_def dump_btree_def sbind_def with_table_rejects split: if_splits\<close>)

lemma accepted_sim:
  assumes rel: "db_rel s a" and leg: "legal fs c a" and acc: "rejected c a = None"
  shows "ok (run_cmd fs c) s (\<lambda>x s'. good_answer a c x \<and> db_rel s' (a_cmd c a))"
proof (cases c)
  case (CreateTable n cs)
  then show ?thesis using create_sim [OF rel] leg acc
    by (auto simp: legal_def ok_bind ok_ret split: if_splits)
next
  case (Insert n vs)
  then obtain cs R where "working a n = Some (cs, R)" "good_row cs \<lparr>row_values = vs\<rparr>" "2 * size R + 2 \<le> MAX_PAGES"
    using leg acc by (auto simp: legal_def split: option.splits)
  from insert_sim [OF rel this] Insert show ?thesis by (simp add: ok_bind ok_ret)
next
  case (Select n)
  then obtain t where "working a n = Some t" using acc by (auto split: if_splits)
  then show ?thesis
    by (auto simp: Select ok_bind ok_ret intro!: ok_mono [OF select_sim [OF rel]])
next
  case (Dump n)
  then obtain t where "working a n = Some t" using acc by (auto split: if_splits)
  then show ?thesis
    by (auto simp: Dump ok_bind ok_ret intro!: ok_mono [OF dump_sim [OF rel]])
qed (use begin_sim commit_sim rollback_sim rel leg in \<open>auto simp: ok_bind ok_ret legal_def\<close>)

lemma cmd_sim:
  assumes "db_rel s a" "legal fs c a"
  shows "ok (caught (run_cmd fs c)) s (\<lambda>r s'. answers (rejected c a) a c r \<and> db_rel s' (a_exec c a))"
proof (cases "rejected c a")
  case None
  then show ?thesis
    by (intro ok_mono [OF caught_ok [OF accepted_sim [OF assms]]]) (auto simp: answers_def a_exec_def)
next
  case (Some msg)
  then show ?thesis
    by (intro caught_fail [where m = "run_cmd fs c" and s = s, OF rejected_run [OF assms(1) Some]])
      (simp_all add: answers_def a_exec_def assms(1))
qed

section \<open>Runs\<close>

abbreviation run_cmds :: "files \<Rightarrow> cmd list \<Rightarrow> (storage, answer result list) sm" where
  "run_cmds fs \<equiv> run_seq (\<lambda>c. caught (run_cmd fs c))"

abbreviation legal_run :: "files \<Rightarrow> cmd list \<Rightarrow> adb \<Rightarrow> bool" where
  "legal_run fs \<equiv> all_within (legal fs) a_exec"

abbreviation run_answers :: "adb \<Rightarrow> cmd list \<Rightarrow> answer result list \<Rightarrow> bool" where
  "run_answers \<equiv> all_replies (\<lambda>a c. answers (rejected c a) a c) a_exec"

interpretation sto: simulation db_rel "\<lambda>c. caught (run_cmd fs c)" "legal fs" a_exec "\<lambda>a c. answers (rejected c a) a c" for fs
  by unfold_locales (rule cmd_sim)

lemma a_exec_simps [simp]:
  "working a n = None \<Longrightarrow> a_exec (CreateTable n cs) a = a_create n cs a"
  "a_exec (Select n) a = a" "a_exec (Dump n) a = a"
  "a_exec Begin a = a_begin a" "a_exec Commit a = a_commit a" "a_exec Rollback a = a_rollback a"
  by (simp_all add: a_exec_def)

lemma good_row_typed: "good_row cs r \<Longrightarrow> typed_row cs (row_values r)"
  by (auto simp: good_row_def row_ok_def typed_row_def elim!: list_all2_mono elim: cell_ok.elims)

lemma good_row_accepted: "good_row cs \<lparr>row_values = vs\<rparr> \<Longrightarrow> row_error cs vs = None"
  using good_row_typed [of cs "\<lparr>row_values = vs\<rparr>"]
  by (simp add: row_error_None good_row_def max_row_data_size_def layout)

lemma a_exec_insert [simp]:
  "working a n = Some (cs, R) \<Longrightarrow> good_row cs \<lparr>row_values = vs\<rparr> \<Longrightarrow> a_exec (Insert n vs) a = a_insert n \<lparr>row_values = vs\<rparr> a"
  by (simp add: a_exec_def good_row_accepted)

text \<open>Any INSERTs into one table: those that are accepted add their row.\<close>

lemma inserts_exec:
  assumes "list_all (\<lambda>vs. row_error cs vs = None \<longrightarrow> good_row cs \<lparr>row_values = vs\<rparr>) vss"
  shows "working a n = Some (cs, R) \<Longrightarrow> 2 * (size R + length vss) \<le> MAX_PAGES \<Longrightarrow> legal_run fs (map (Insert n) vss) a \<and>
    working (fold a_exec (map (Insert n) vss) a) n =
      Some (cs, R + mset (map (\<lambda>vs. \<lparr>row_values = vs\<rparr>) (filter (\<lambda>vs. row_error cs vs = None) vss)))"
  using assms
proof (induction vss arbitrary: a R)
  case (Cons vs vss)
  show ?case
  proof (cases "row_error cs vs")
    case None
    then have "working (a_exec (Insert n vs) a) n = Some (cs, add_mset \<lparr>row_values = vs\<rparr> R)"
      using Cons.prems by (simp add: a_exec_def a_insert_def)
    from Cons.IH [OF this] None Cons.prems show ?thesis by simp
  next
    case (Some msg)
    then have "a_exec (Insert n vs) a = a" using Cons.prems(1) by (simp add: a_exec_def)
    then show ?thesis using Cons.IH [OF Cons.prems(1)] Some Cons.prems by simp
  qed
qed simp

text \<open>Commands of a transaction that do not change the set of tables.\<close>

fun row_cmd :: "cmd \<Rightarrow> bool" where
  "row_cmd (Insert n vs) = True"
| "row_cmd (Select n) = True"
| "row_cmd (Dump n) = True"
| "row_cmd _ = False"

lemma row_cmds_keep:
  "list_all row_cmd cs \<Longrightarrow> enrolled a = dom (working a) \<Longrightarrow>
   durable (fold a_exec cs a) = durable a \<and> enrolled (fold a_exec cs a) = dom (working a) \<and> dom (working (fold a_exec cs a)) = dom (working a)"
proof (induction cs arbitrary: a)
  case (Cons c cs)
  have "durable (a_exec c a) = durable a \<and> enrolled (a_exec c a) = dom (working a) \<and> dom (working (a_exec c a)) = dom (working a)"
    using Cons.prems by (cases c) (auto simp: a_exec_def a_insert_def split: option.splits)
  then show ?case using Cons.IH [of "a_exec c a"] Cons.prems by simp
qed simp

text \<open>A transaction of row commands that is rolled back is no change at all.\<close>

lemma row_txn_rolls_back:
  assumes "db_rel s a" "enrolled a = {}" "list_all row_cmd cs"
  shows "a_rollback (fold a_exec (Begin # cs) a) = a"
  using row_cmds_keep [OF assms(3), of "a_begin a"] db_rel_settled [OF assms(1,2)] assms(2)
  by (simp add: a_rollback_def a_begin_def)

section \<open>An example: two columns\<close>

definition demo_columns :: "column list" where
  "demo_columns = [\<lparr>col_name = ''id'', col_type = TInteger\<rparr>, \<lparr>col_name = ''name'', col_type = TText\<rparr>]"

lemma demo_columns_ok: "columns_ok demo_columns"
  by (simp add: columns_ok_def column_ok_def demo_columns_def length_meta_bytes length_encode_column PAGE_SIZE_def)

lemma demo_row: "good_row demo_columns \<lparr>row_values = [VInteger n, VText s]\<rparr> \<longleftrightarrow> valid_str s \<and> length s \<le> 1338"
  by (auto simp: good_row_def row_ok_def demo_columns_def serialized_size_def)

lemma demo_created: "ok (create_table (\<lambda>_. ([], [])) ''users'' demo_columns) storage_new (\<lambda>_ s'. db_rel s' (a_create ''users'' demo_columns a_new))"
  by (rule create_sim [OF db_rel_new]) (simp_all add: a_new_def demo_columns_ok)

end
