(* ===== verification/Storage_Props.thy ===== *)
theory Storage_Props
  imports Storage_Runs
begin

text \<open>
  The properties of \<open>src/storage.rs\<close> over its specification: refinement, what SELECT shows,
  rollback, restart, crashes, rejected inserts, and two places where the code departs from
  its documentation.
\<close>

section \<open>Properties\<close>

text \<open>Property C2. Storage refines its specification: in a sequence of operations, right or wrong,
  each returns the result that the abstract database gives, the exact error message of a
  refused one included, and the tables afterwards represent the abstract database; a refused
  operation changes nothing. No operation panics. The sequence is \<open>legal\<close>: no BEGIN inside a
  transaction (sessions see to that), and the accepted operations are \<open>within\<close> the limits (a
  new table finds no file of its name and its schema fits the metadata page; a row has at most
  1350 bytes of valid UTF-8 and goes into a table of at most 511 rows). What is refused is
  not limited.\<close>

theorem storage_refines:
  assumes "db_rel s a" "legal_run fs cs a"
  shows "ok (run_cmds fs cs) s (\<lambda>rs s'. run_answers a cs rs \<and> db_rel s' (fold a_exec cs a))"
  using assms by (rule sto.runs)

definition demo_script :: "cmd list" where
  "demo_script = [CreateTable ''users'' demo_columns, Insert ''users'' [VInteger 2, VText ''bob''], Begin,
     Insert ''users'' [VInteger 1, VText ''alice''], Insert ''users'' [VText ''x'', VInteger 1], Insert ''users'' [],
     CreateTable ''users'' [], Rollback, Select ''nobody'']"

lemma demo_wrong:
  "row_error demo_columns [VText ''x'', VInteger 1] = Some ''Column 'id' (position 0) expects Integer, got Text(\"x\").''"
  "row_error demo_columns [] = Some ''Expected 2 values, got 0.''"
  by (simp_all add: row_error_def demo_columns_def mismatch_simps type_error_def quoted_def show_nat.simps debug_str_def debug_char_def)

lemma demo_legal: "legal_run (\<lambda>_. ([], [])) demo_script a_new"
  by (simp add: demo_script_def a_new_def demo_columns_ok demo_row demo_wrong a_create_def a_insert_def a_begin_def a_rollback_def
      a_exec_def good_row_accepted legal_def MAX_PAGES_def)

theorem storage_refines_witness:
  "ok (run_cmds (\<lambda>_. ([], [])) demo_script) storage_new (\<lambda>rs s'.
     rs = [Inr AUnit, Inr AUnit, Inr AUnit, Inr AUnit, Inl (Fail ''Column 'id' (position 0) expects Integer, got Text(\"x\").''),
       Inl (Fail ''Expected 2 values, got 0.''), Inl (Fail ''Table 'users' already exists.''), Inr AUnit, Inl (Fail ''Table 'nobody' not found.'')] \<and>
     (\<exists>a. db_rel s' a \<and> working a ''users'' = Some (demo_columns, {#\<lparr>row_values = [VInteger 2, VText ''bob'']\<rparr>#})))"
  by (rule ok_mono [OF storage_refines [OF db_rel_new demo_legal]])
    (auto simp: demo_script_def a_new_def a_create_def a_insert_def a_begin_def a_rollback_def all_replies_Cons all_replies_Nil
      answers_def demo_row demo_wrong good_row_accepted a_exec_def no_table_def quoted_def)

text \<open>When the process stops between two operations, in a transaction or not,
  reopening a table's files shows exactly its durable rows: those of the last commit.\<close>

theorem reopen_shows_durable:
  assumes rel: "db_rel s a" and tab: "map_of (tables s) n = Some t" and dur: "durable a n = Some (cs, R)"
    and files: "fs path = table_files t"
  shows "ok (sbind (open_table fs m path) (\<lambda>_. select_all m)) other (\<lambda>(hs, rows) _. hs = map col_name cs \<and> mset rows = R)"
proof -
  have "entry_rel a n (Some t)" using rel tab by (metis db_rel_def)
  then obtain rs rs0 where t: "holds_rows 1 t rs" "saved_rows 1 t rs0" "ts_columns t = cs" "mset rs0 = R"
    using dur by (auto simp: entry_rel_def table_rel_def)
  let ?f = "pg_file (ts_pager t)"
  obtain root where img: "table_img 1 cs (file_view ?f) (length ?f div PAGE_SIZE) root rs0"
    using t(2,3) by (auto simp: saved_rows_def)
  have d: "fs path = (?f, [])" "length ?f mod PAGE_SIZE = 0"
    using files t(1) saved_length by (auto simp: table_files_def holds_rows_def shows_rows_def)
  have "opens_to (fs path) ?f" unfolding d(1) by (rule opens_clean [OF d(2)])
  from opens_table [where fs = fs and path = path and n = m and s = other, OF this img] t(4) show ?thesis by (auto elim!: ok_mono)
qed

theorem reopen_shows_durable_witness:
  "ok (create_table (\<lambda>_. ([], [])) ''users'' demo_columns) storage_new (\<lambda>_ s'. \<exists>t. map_of (tables s') ''users'' = Some t \<and>
     ok (sbind (open_table (\<lambda>_. table_files t) ''users'' ''users.db'') (\<lambda>_. select_all ''users'')) storage_new
       (\<lambda>res _. res = ([''id'', ''name''], [])))"
proof (rule ok_mono [OF demo_created])
  fix s' assume rel: "db_rel s' (a_create ''users'' demo_columns a_new)"
  then obtain t where t: "map_of (tables s') ''users'' = Some t"
    using db_rel_dom [of s' _ "''users''"] by (fastforce simp: a_create_def)
  have "ok (sbind (open_table (\<lambda>_. table_files t) ''users'' ''users.db'') (\<lambda>_. select_all ''users'')) storage_new
      (\<lambda>(hs, rows) _. hs = map col_name demo_columns \<and> mset rows = {#})"
    by (rule reopen_shows_durable [OF rel t]) (simp_all add: a_create_def)
  with t show "\<exists>t. map_of (tables s') ''users'' = Some t \<and>
      ok (sbind (open_table (\<lambda>_. table_files t) ''users'' ''users.db'') (\<lambda>_. select_all ''users'')) storage_new
        (\<lambda>res _. res = ([''id'', ''name''], []))"
    by (intro exI [of _ t]) (auto simp: demo_columns_def elim!: ok_mono)
qed

text \<open>Property C19. A crash during the commit of a table, at any file operation and inside it,
  mixes no states: a reopened table shows the rows of the last commit or the rows being
  committed. It reopens exactly when the crash left a whole number of pages; inside the write
  of a page past the end of the file it leaves one that is refused with an error.\<close>

theorem crashed_commit_of_table:
  assumes rel: "db_rel s a" and tab: "map_of (tables s) n = Some t" "working a n = Some (cs, R)" "durable a n = Some (cs, R0)"
    and crash: "crash (commit_ops (ts_pager t)) (table_files t) d" and files: "fs path = d"
  shows "if length (fst d) mod PAGE_SIZE = 0
    then ok (sbind (open_table fs m path) (\<lambda>_. select_all m)) other
      (\<lambda>(hs, rows) _. hs = map col_name cs \<and> (mset rows = R \<or> mset rows = R0))
    else \<exists>msg. open_table fs m path other = (Inl (Fail msg), other)"
proof (cases "length (fst d) mod PAGE_SIZE = 0")
  case False
  obtain msg where "pager_open path (fst d) (snd d) = Inl (Fail msg)" using torn_refused [OF False] by blast
  with False show ?thesis by (simp add: open_table_def files)
next
  case True
  have "entry_rel a n (Some t)" using rel tab(1) by (metis db_rel_def)
  then obtain rs rs0 where t: "holds_rows 1 t rs" "saved_rows 1 t rs0" "ts_columns t = cs" "mset rs = R" "mset rs0 = R0"
    using tab by (auto simp: entry_rel_def table_rel_def)
  let ?pg = "ts_pager t" and ?f' = "write_pages (dirty_writes (ts_pager t)) (pg_file (ts_pager t))"
  have pg: "pager_ok ?pg" "wal_file (pg_wal ?pg) = []"
    and img: "table_img 1 cs (page_view ?pg) (npages ?pg) (ts_root t) rs"
    using t(1,3) by (simp_all add: holds_rows_def shows_rows_def)
  have img': "table_img 1 cs (file_view ?f') (length ?f' div PAGE_SIZE) (ts_root t) rs"
    using img committed_view [OF pg(1)] committed_length [OF pg(1)] by (simp add: npages_def)
  obtain root where img0: "table_img 1 cs (file_view (pg_file ?pg)) (length (pg_file ?pg) div PAGE_SIZE) root rs0"
    using t(2,3) by (auto simp: saved_rows_def)
  note shown = opens_table [where fs = fs and path = path and n = m and s = other]
  have "opens_to (fs path) (pg_file ?pg) \<or> opens_to (fs path) ?f'"
    using crash_opens [OF pg _ True] crash by (simp add: files table_files_def)
  then have "ok (sbind (open_table fs m path) (\<lambda>_. select_all m)) other
      (\<lambda>(hs, rows) _. hs = map col_name cs \<and> (mset rows = R \<or> mset rows = R0))"
    using shown [OF _ img0] shown [OF _ img'] t(4,5) by (auto elim!: ok_mono)
  with True show ?thesis by simp
qed

text \<open>Inside a transaction that inserted \<open>bob\<close>: the commit is killed when one byte of the log
  is written.\<close>

theorem crashed_commit_of_table_witness:
  "ok (run_cmds (\<lambda>_. ([], [])) [CreateTable ''users'' demo_columns, Begin, Insert ''users'' [VInteger 2, VText ''bob'']]) storage_new
     (\<lambda>_ s'. \<exists>t d. map_of (tables s') ''users'' = Some t \<and> crash (commit_ops (ts_pager t)) (table_files t) d \<and> length (snd d) = 1 \<and>
       ok (sbind (open_table (\<lambda>_. d) ''users'' ''users.db'') (\<lambda>_. select_all ''users'')) storage_new
         (\<lambda>(hs, rows) _. hs = [''id'', ''name''] \<and> (mset rows = {#\<lparr>row_values = [VInteger 2, VText ''bob'']\<rparr>#} \<or> mset rows = {#})))"
proof -
  let ?cs = "[CreateTable ''users'' demo_columns, Begin, Insert ''users'' [VInteger 2, VText ''bob'']]" and ?r = "\<lparr>row_values = [VInteger 2, VText ''bob'']\<rparr>"
  let ?a = "fold a_exec ?cs a_new"
  have l: "legal_run (\<lambda>_. ([], [])) ?cs a_new"
    by (simp add: a_new_def demo_columns_ok demo_row a_create_def a_begin_def a_exec_def MAX_PAGES_def)
  have a: "working ?a ''users'' = Some (demo_columns, {#?r#})" "durable ?a ''users'' = Some (demo_columns, {#})"
    by (simp_all add: a_new_def a_create_def a_begin_def a_insert_def a_exec_def demo_row good_row_accepted)
  show ?thesis
  proof (rule ok_mono [OF sto.runs [OF db_rel_new l]], elim conjE)
    fix s' assume rel: "db_rel s' ?a"
    obtain t where t: "map_of (tables s') ''users'' = Some t" by (rule db_rel_lookup [OF rel a(1)])
    have pg: "pager_ok (ts_pager t)" "wal_file (pg_wal (ts_pager t)) = []"
      using db_rel_lookup [OF rel a(1)] t by (auto simp: holds_rows_def shows_rows_def)
    obtain d where d: "crash (commit_ops (ts_pager t)) (table_files t) d" "fst d = pg_file (ts_pager t)" "length (snd d) = 1"
      using crash_first_byte [OF pg(1), of "pg_file (ts_pager t)" "[]"] pg(2) by (auto simp: table_files_def)
    have "length (fst d) mod PAGE_SIZE = 0" using pager_lengths [OF pg(1)] d(2) by simp
    with crashed_commit_of_table [OF rel t a d(1), where fs = "\<lambda>_. d" and path = "''users.db''" and m = "''users''" and other = storage_new] t d
    show "\<exists>t d. map_of (tables s') ''users'' = Some t \<and> crash (commit_ops (ts_pager t)) (table_files t) d \<and> length (snd d) = 1 \<and>
       ok (sbind (open_table (\<lambda>_. d) ''users'' ''users.db'') (\<lambda>_. select_all ''users'')) storage_new
         (\<lambda>(hs, rows) _. hs = [''id'', ''name''] \<and> (mset rows = {#?r#} \<or> mset rows = {#}))"
      by (intro exI [of _ t] exI [of _ d]) (simp add: demo_columns_def)
  qed
qed

section \<open>Types\<close>

text \<open>Property C14. INSERT is a sound and complete type check: a row that has one value per
  column, each of its column's type, and is at most \<open>max_row_data_size\<close> bytes long goes on to
  the tree, under the key of its first INTEGER column, whatever its length up to that bound;
  any other row is answered with an error and leaves the database, byte for byte, as it was.
  A row that goes on is stored when it has at most 1350 bytes of valid UTF-8 and its table at
  most 511 rows (a longer one can make the tree panic).\<close>

theorem insert_typechecks:
  assumes "db_rel s a" "working a n = Some (cs, R)"
  shows "(if typed_row cs vs \<and> serialized_size \<lparr>row_values = vs\<rparr> cs \<le> max_row_data_size
      then insert_into n vs s = with_table n (store_row (row_key cs \<lparr>row_values = vs\<rparr>) \<lparr>row_values = vs\<rparr>) s
      else \<exists>msg. insert_into n vs s = (Inl (Fail msg), s)) \<and>
    (good_row cs \<lparr>row_values = vs\<rparr> \<and> 2 * size R + 2 \<le> MAX_PAGES \<longrightarrow> fst (insert_into n vs s) = Inr ())"
proof (rule conjI)
  show "if typed_row cs vs \<and> serialized_size \<lparr>row_values = vs\<rparr> cs \<le> max_row_data_size
      then insert_into n vs s = with_table n (store_row (row_key cs \<lparr>row_values = vs\<rparr>) \<lparr>row_values = vs\<rparr>) s
      else \<exists>msg. insert_into n vs s = (Inl (Fail msg), s)"
  proof (cases "row_error cs vs")
    case None
    obtain t where "map_of (tables s) n = Some t" "ts_columns t = cs" by (rule db_rel_lookup [OF assms])
    with None show ?thesis
      by (simp add: row_error_None [symmetric] insert_into_def with_table_def insert_row_accepts)
  next
    case (Some msg)
    then have "run_cmd fs (Insert n vs) s = (Inl (Fail msg), s)" for fs using assms(2) by (intro rejected_run [OF assms(1)]) simp
    then have "insert_into n vs s = (Inl (Fail msg), s)" by (auto simp: sbind_def ret_def split: prod.splits sum.splits)
    with Some show ?thesis by (auto simp: row_error_None [symmetric])
  qed
  show "good_row cs \<lparr>row_values = vs\<rparr> \<and> 2 * size R + 2 \<le> MAX_PAGES \<longrightarrow> fst (insert_into n vs s) = Inr ()"
    using insert_sim [OF assms, of "\<lparr>row_values = vs\<rparr>"] by (auto elim!: okE)
qed

theorem insert_typechecks_witness:
  "ok (create_table (\<lambda>_. ([], [])) ''users'' demo_columns) storage_new (\<lambda>_ s.
     fst (insert_into ''users'' [VInteger 1, VText ''x''] s) = Inr () \<and>
     insert_into ''users'' [VInteger 5, VText (replicate 2018 CHR ''x'')] s = with_table ''users''
       (store_row 5 \<lparr>row_values = [VInteger 5, VText (replicate 2018 CHR ''x'')]\<rparr>) s \<and>
     (\<exists>msg. insert_into ''users'' [VInteger 5, VText (replicate 2019 CHR ''x'')] s = (Inl (Fail msg), s)) \<and>
     (\<exists>msg. insert_into ''users'' [VInteger 1, VNull] s = (Inl (Fail msg), s)))"
proof (rule ok_mono [OF demo_created])
  fix s assume rel: "db_rel s (a_create ''users'' demo_columns a_new)"
  have tab: "working (a_create ''users'' demo_columns a_new) ''users'' = Some (demo_columns, {#})" by (simp add: a_create_def)
  have ty: "typed_row demo_columns [VInteger k, VText str]" "\<not> typed_row demo_columns [VInteger k, VNull]" for k str
    by (simp_all add: typed_row_def demo_columns_def)
  have key: "row_key demo_columns \<lparr>row_values = [VInteger k, VText str]\<rparr> = k" for k str
    by (simp add: row_key_def extract_key_def demo_columns_def)
  have sz: "serialized_size \<lparr>row_values = [VInteger k, VText str]\<rparr> demo_columns \<le> max_row_data_size \<longleftrightarrow> length str \<le> 2018" for k str
    by (simp add: serialized_size_def demo_columns_def max_row_data_size_def layout)
  note check = insert_typechecks [OF rel tab]
  show "fst (insert_into ''users'' [VInteger 1, VText ''x''] s) = Inr () \<and>
     insert_into ''users'' [VInteger 5, VText (replicate 2018 CHR ''x'')] s = with_table ''users''
       (store_row 5 \<lparr>row_values = [VInteger 5, VText (replicate 2018 CHR ''x'')]\<rparr>) s \<and>
     (\<exists>msg. insert_into ''users'' [VInteger 5, VText (replicate 2019 CHR ''x'')] s = (Inl (Fail msg), s)) \<and>
     (\<exists>msg. insert_into ''users'' [VInteger 1, VNull] s = (Inl (Fail msg), s))"
    using check [of "[VInteger 1, VText ''x'']"] check [of "[VInteger 5, VText (replicate 2018 CHR ''x'')]"]
      check [of "[VInteger 5, VText (replicate 2019 CHR ''x'')]"] check [of "[VInteger 1, VNull]"]
    unfolding sz key by (auto simp: ty demo_row MAX_PAGES_def)
qed

text \<open>Property C13. What is typed comes back, and nothing else: after CREATE TABLE and any
  INSERTs, of whatever values, SELECT returns exactly the rows among them that have one value
  per column, each of its column's type, and are not too large, unchanged and as often as
  they were inserted. No value is converted, filled in or cut. (The table is new, finds no
  file and fits its metadata page; the rows that pass are at most 1350 bytes of valid UTF-8,
  and there are at most 512 INSERTs.)\<close>

theorem typed_rows_come_back:
  assumes rel: "db_rel s a" and new: "working a n = None" "within fs (CreateTable n cs) a" and few: "2 * length vss \<le> MAX_PAGES"
    and short: "list_all (\<lambda>vs. typed_row cs vs \<and> serialized_size \<lparr>row_values = vs\<rparr> cs \<le> max_row_data_size \<longrightarrow> good_row cs \<lparr>row_values = vs\<rparr>) vss"
  shows "ok (sbind (run_cmds fs (CreateTable n cs # map (Insert n) vss)) (\<lambda>_. select_all n)) s (\<lambda>(hs, rows) _.
    hs = map col_name cs \<and> mset rows = mset (map (\<lambda>vs. \<lparr>row_values = vs\<rparr>)
      (filter (\<lambda>vs. typed_row cs vs \<and> serialized_size \<lparr>row_values = vs\<rparr> cs \<le> max_row_data_size) vss)))"
proof -
  let ?a = "a_create n cs a"
  have "working ?a n = Some (cs, {#})" by (simp add: a_create_def)
  note ins = inserts_exec [OF short [folded row_error_None] this, of fs]
  have legal: "legal_run fs (CreateTable n cs # map (Insert n) vss) a" using ins new few by simp
  show ?thesis unfolding row_error_None [symmetric]
  proof (rule sto.runs_then [OF rel legal])
    fix rs s' assume "db_rel s' (fold a_exec (CreateTable n cs # map (Insert n) vss) a)"
    then have "db_rel s' (fold a_exec (map (Insert n) vss) ?a)" using new(1) by simp
    note sel = select_sim [OF this, of n]
    show "ok (select_all n) s' (\<lambda>(hs, rows) _. hs = map col_name cs \<and>
        mset rows = mset (map (\<lambda>vs. \<lparr>row_values = vs\<rparr>) (filter (\<lambda>vs. row_error cs vs = None) vss)))"
      by (rule ok_mono [OF sel]) (use ins few in \<open>auto simp: shows_table_def\<close>)
  qed
qed

theorem typed_rows_come_back_witness:
  "ok (sbind (run_cmds (\<lambda>_. ([], [])) (CreateTable ''users'' demo_columns # map (Insert ''users'')
      [[VInteger 1, VText ''x''], [VText ''x'', VInteger 1], [VInteger 2, VNull], [VInteger 1, VText ''x''], []])) (\<lambda>_. select_all ''users''))
     storage_new (\<lambda>(hs, rows) _. hs = [''id'', ''name''] \<and>
       rows = [\<lparr>row_values = [VInteger 1, VText ''x'']\<rparr>, \<lparr>row_values = [VInteger 1, VText ''x'']\<rparr>])"
proof -
  have ty: "typed_row demo_columns [VInteger 1, VText ''x'']" "\<not> typed_row demo_columns [VText ''x'', VInteger 1]"
    "\<not> typed_row demo_columns [VInteger 2, VNull]" "\<not> typed_row demo_columns []"
    by (simp_all add: typed_row_def demo_columns_def)
  have sz: "serialized_size \<lparr>row_values = [VInteger 1, VText ''x'']\<rparr> demo_columns \<le> max_row_data_size"
    by (simp add: serialized_size_def demo_columns_def max_row_data_size_def layout)
  have two: "mset rows = {#r, r#} \<Longrightarrow> rows = [r, r]" for rows and r :: row
  proof -
    assume m: "mset rows = {#r, r#}"
    have "length rows = 2" using arg_cong [OF m, of size] by simp
    moreover have "set rows = {r}" using arg_cong [OF m, of set_mset] by simp
    ultimately have "rows = replicate 2 r" using replicate_length_same [of rows r] by simp
    then show "rows = [r, r]" by (simp add: numeral_2_eq_2)
  qed
  let ?vss = "[[VInteger 1, VText ''x''], [VText ''x'', VInteger 1], [VInteger 2, VNull], [VInteger 1, VText ''x''], []]"
  have f: "filter (\<lambda>vs. typed_row demo_columns vs \<and> serialized_size \<lparr>row_values = vs\<rparr> demo_columns \<le> max_row_data_size) ?vss
      = [[VInteger 1, VText ''x''], [VInteger 1, VText ''x'']]" using ty sz by simp
  have "ok (sbind (run_cmds (\<lambda>_. ([], [])) (CreateTable ''users'' demo_columns # map (Insert ''users'') ?vss)) (\<lambda>_. select_all ''users''))
      storage_new (\<lambda>(hs, rows) _. hs = map col_name demo_columns \<and> mset rows = mset (map (\<lambda>vs. \<lparr>row_values = vs\<rparr>)
        [[VInteger 1, VText ''x''], [VInteger 1, VText ''x'']]))"
    by (rule typed_rows_come_back [OF db_rel_new, where vss = ?vss and cs = demo_columns, unfolded f])
      (use ty in \<open>simp_all add: a_new_def demo_columns_ok demo_row MAX_PAGES_def\<close>)
  then show ?thesis by (rule ok_mono) (use two in \<open>auto simp: demo_columns_def\<close>)
qed

section \<open>Departures from the documentation\<close>

text \<open>Property C37. A table created inside a transaction is not part of it: its rows are committed
  as they are inserted, and ROLLBACK keeps them.\<close>

theorem created_table_survives_rollback:
  assumes rel: "db_rel s a" and enr: "enrolled a = {}" and new: "working a n = None" "within fs (CreateTable n cs) a" and row: "good_row cs \<lparr>row_values = vs\<rparr>"
  shows "ok (run_cmds fs [Begin, CreateTable n cs, Insert n vs, Rollback]) s (\<lambda>_ s'. \<exists>a'. db_rel s' a' \<and>
    working a' n = Some (cs, {#\<lparr>row_values = vs\<rparr>#}) \<and> durable a' n = Some (cs, {#\<lparr>row_values = vs\<rparr>#}))"
proof -
  have none: "working (a_begin a) n = None" using new by (simp add: a_begin_def)
  have "legal_run fs [Begin, CreateTable n cs, Insert n vs, Rollback] a"
    using enr new row none by (simp add: a_create_def good_row_accepted MAX_PAGES_def)
  note sim = sto.runs [OF rel this]
  let ?a = "fold a_exec [Begin, CreateTable n cs, Insert n vs, Rollback] a"
  have "n \<notin> dom (working a)" using new by auto
  then have "working ?a n = Some (cs, {#\<lparr>row_values = vs\<rparr>#})" "durable ?a n = Some (cs, {#\<lparr>row_values = vs\<rparr>#})"
    using none row by (simp_all add: a_begin_def a_create_def a_insert_def a_rollback_def)
  then show ?thesis by (intro ok_mono [OF sim]) blast
qed

theorem created_table_survives_rollback_witness:
  "ok (run_cmds (\<lambda>_. ([], [])) [Begin, CreateTable ''t'' demo_columns, Insert ''t'' [VInteger 1, VText ''x''], Rollback]) storage_new
     (\<lambda>_ s'. \<exists>a'. db_rel s' a' \<and> working a' ''t'' = Some (demo_columns, {#\<lparr>row_values = [VInteger 1, VText ''x'']\<rparr>#}))"
  by (rule ok_mono [OF created_table_survives_rollback [OF db_rel_new]])
    (auto simp: a_new_def demo_columns_ok demo_row)

text \<open>Property C38. CREATE TABLE does not look at an existing file: over the files of a table that
  this process has not loaded it succeeds, and the table's rows are gone.\<close>

theorem create_over_file_loses_rows:
  assumes rel: "db_rel s a" and tab: "map_of (tables s) n = Some t" "durable a n = Some (cs, R)" and small: "2 * size R + 4 \<le> MAX_PAGES"
    and files: "fs (m @ ''.db'') = table_files t" and other: "map_of (tables other) m = None" and schema: "columns_ok cs'"
  shows "ok (sbind (create_table fs m cs') (\<lambda>_. select_all m)) other (\<lambda>(hs, rows) _. hs = map col_name cs' \<and> rows = [])"
proof -
  have "entry_rel a n (Some t)" using rel tab(1) by (metis db_rel_def)
  then obtain rs rs0 where t: "holds_rows 1 t rs" "saved_rows 1 t rs0" "ts_columns t = cs" "mset rs0 = R"
    using tab by (auto simp: entry_rel_def table_rel_def)
  let ?f = "pg_file (ts_pager t)"
  obtain root tree L where L: "tree_rep (file_view ?f) (length ?f div PAGE_SIZE) tree L" "compact 1 (length ?f div PAGE_SIZE) tree L"
    "chain_cells L = map (cell_of cs) rs0"
    using t(2,3) by (auto simp: saved_rows_def table_img_def tree_img_def)
  have d: "fs (m @ ''.db'') = (?f, [])" "length ?f mod PAGE_SIZE = 0"
    using files t(1) saved_length by (auto simp: table_files_def holds_rows_def shows_rows_def)
  obtain pg where pg: "pager_open (m @ ''.db'') ?f [] = Inr pg" "pager_ok pg" "npages pg = length ?f div PAGE_SIZE"
    "wal_file (pg_wal pg) = []" "\<not> pg_in_txn pg"
    by (rule open_clean [OF d(2), of "m @ ''.db''"]) auto
  have "npages pg + 2 \<le> MAX_PAGES"
    using compact_pages [OF L(2,1)] L(3) t(4) small pg(3) by auto
  from init_table_ok [OF pg(2) this pg(5,4) schema] obtain root pg' where r: "init_table cs' pg = (Inr root, pg')"
    "holds_rows (npages pg + 1) \<lparr>ts_pager = pg', ts_columns = cs', ts_root = root\<rparr> []"
    by (auto elim!: okE)
  let ?t = "\<lparr>ts_pager = pg', ts_columns = cs', ts_root = root\<rparr>"
  have "create_table fs m cs' other = (Inr (), other\<lparr>tables := AList.update m ?t (tables other)\<rparr>)"
    by (simp add: create_table_def other Let_def d(1) pg(1) r(1))
  moreover have "ok select_rows ?t (\<lambda>res _. res = (map col_name cs', []))"
    by (rule ok_mono [OF select_rows_ok]) (use r(2) in \<open>auto simp: holds_rows_def\<close>)
  then have "ok (select_all m) (other\<lparr>tables := AList.update m ?t (tables other)\<rparr>) (\<lambda>res _. res = (map col_name cs', []))"
    by (simp add: select_all_def ok_def with_table_def update_conv' split: prod.splits sum.splits)
  ultimately show ?thesis by (auto simp: ok_def sbind_def split: prod.splits sum.splits)
qed

theorem create_over_file_loses_rows_witness:
  "ok (run_cmds (\<lambda>_. ([], [])) [CreateTable ''users'' demo_columns, Insert ''users'' [VInteger 1, VText ''x'']]) storage_new
     (\<lambda>_ s'. \<exists>t. map_of (tables s') ''users'' = Some t \<and>
       ok (sbind (create_table (\<lambda>_. table_files t) ''users'' demo_columns) (\<lambda>_. select_all ''users'')) storage_new
         (\<lambda>(hs, rows) _. rows = []))"
proof -
  let ?cs = "[CreateTable ''users'' demo_columns, Insert ''users'' [VInteger 1, VText ''x'']]"
  let ?a = "fold a_exec ?cs a_new"
  have "legal_run (\<lambda>_. ([], [])) ?cs a_new"
    by (simp add: a_new_def demo_columns_ok demo_row good_row_accepted a_create_def MAX_PAGES_def)
  note sim = sto.runs [OF db_rel_new this]
  have a: "working ?a ''users'' = Some (demo_columns, {#\<lparr>row_values = [VInteger 1, VText ''x'']\<rparr>#})"
    "durable ?a ''users'' = Some (demo_columns, {#\<lparr>row_values = [VInteger 1, VText ''x'']\<rparr>#})"
    by (simp_all add: a_new_def a_create_def a_insert_def demo_row)
  show ?thesis
  proof (rule ok_mono [OF sim], elim conjE)
    fix s' assume rel: "db_rel s' ?a"
    obtain t where t: "map_of (tables s') ''users'' = Some t" by (rule db_rel_lookup [OF rel a(1)])
    have "ok (sbind (create_table (\<lambda>_. table_files t) ''users'' demo_columns) (\<lambda>_. select_all ''users'')) storage_new
        (\<lambda>(hs, rows) _. hs = map col_name demo_columns \<and> rows = [])"
      by (rule create_over_file_loses_rows [OF rel t a(2)]) (simp_all add: MAX_PAGES_def storage_new_def demo_columns_ok)
    with t show "\<exists>t. map_of (tables s') ''users'' = Some t \<and>
       ok (sbind (create_table (\<lambda>_. table_files t) ''users'' demo_columns) (\<lambda>_. select_all ''users'')) storage_new
         (\<lambda>(hs, rows) _. rows = [])"
      by (intro exI [of _ t]) (auto elim!: ok_mono)
  qed
qed

text \<open>Property C39. A schema whose column definitions do not fit the metadata page is not rejected:
  CREATE TABLE panics, inside the lock that guards the whole database.\<close>

theorem wide_schema_panics:
  assumes "map_of (tables s) n = None" "fs (n @ ''.db'') = ([], [])" "PAGE_SIZE < length (meta_bytes 0 cs)"
  shows "create_table fs n cs s = (Inl Panic, s)"
proof -
  obtain pg where pg: "pager_open (n @ ''.db'') [] [] = Inr pg" "pager_ok pg" "npages pg = 0" "\<not> pg_in_txn pg"
    by (rule open_clean [of "[]" "n @ ''.db''"]) auto
  have wide: "PAGE_SIZE < length (meta_bytes root cs)" for root using assms(3) by (simp add: length_meta_bytes)
  have "fails (init_table cs) pg Panic"
    unfolding init_table_def
  proof (rule fails_bind2 [OF allocate_page_ok [OF pg(2)]])
    fix m pg1 assume m: "m = of_nat (npages pg) \<and> pager_ok pg1 \<and> page_view pg1 = page_view pg \<and> npages pg1 = Suc (npages pg) \<and> same_base pg pg1"
    show "fails (sbind create_tree (\<lambda>root_page. sbind (write_metadata root_page cs) (\<lambda>_. sbind flush_unless_txn (\<lambda>_. ret root_page)))) pg1 Panic"
    proof (rule fails_bind2 [OF holds_create])
      fix root pg2
      assume t: "root = of_nat (npages pg1) \<and> holds_tree pg2 root (Lf root []) [(root, [])] \<and> npages pg2 = Suc (npages pg1) \<and>
        same_base pg1 pg2 \<and> (\<forall>p. p \<noteq> root \<longrightarrow> page_view pg2 p = page_view pg1 p)"
      then have ok2: "pager_ok pg2" "unat (0 :: u32) < npages pg2" by (simp_all add: holds_tree_def)
      show "fails (sbind (write_metadata root cs) (\<lambda>_. sbind flush_unless_txn (\<lambda>_. ret root))) pg2 Panic"
        unfolding write_metadata_def
        by (rule fails_bind1, rule with_page_mut_fails [OF ok2])
          (use page_view_length [OF ok2(1)] wide in \<open>simp_all add: MAX_PAGES_def write_meta_page_overflow\<close>)
    qed (use m pg(3) in \<open>simp_all add: MAX_PAGES_def\<close>)
  qed (use pg(3) in \<open>simp add: MAX_PAGES_def\<close>)
  then obtain pg' where "init_table cs pg = (Inl Panic, pg')" unfolding fails_def by (metis prod.collapse)
  then show ?thesis using assms pg(1) by (simp add: create_table_def Let_def)
qed

theorem wide_schema_panics_witness:
  "create_table (\<lambda>_. ([], [])) ''t'' (replicate 1000 \<lparr>col_name = ''ab'', col_type = TInteger\<rparr>) storage_new = (Inl Panic, storage_new)"
proof (rule wide_schema_panics)
  have "length (concat (map encode_column (replicate n \<lparr>col_name = ''ab'', col_type = TInteger\<rparr>))) = 5 * n" for n
    by (induction n) (simp_all add: length_encode_column)
  then show "PAGE_SIZE < length (meta_bytes 0 (replicate 1000 \<lparr>col_name = ''ab'', col_type = TInteger\<rparr>))"
    by (simp add: length_meta_bytes PAGE_SIZE_def del: map_replicate)
qed (simp_all add: storage_new_def)

end
