(* ===== verification/Session.thy ===== *)
theory Session
  imports Storage
begin

text \<open>
  \<open>src/session.rs\<close> as one client sees it: the shared storage, the owner of the transaction
  gate and this session's id and flag. Where the source would wait for another session's
  transaction, the operation has the result \<open>Diverge\<close>: nothing but another session can
  end the wait. How the operations of several sessions interleave is the subject of theory
  \<open>Concurrency\<close>, which takes them apart at the points where a lock is released.
\<close>

section \<open>State\<close>

record shared =
  sh_storage :: storage
  sh_owner :: "u64 option"

record session =
  ss_shared :: shared
  ss_id :: u64
  ss_in_txn :: bool

definition shared_new :: "storage \<Rightarrow> shared" where
  "shared_new s = \<lparr>sh_storage = s, sh_owner = None\<rparr>"

definition session_new :: "shared \<Rightarrow> u64 \<Rightarrow> session" where
  "session_new sh i = \<lparr>ss_shared = sh, ss_id = i, ss_in_txn = False\<rparr>"

text \<open>\<open>with_write\<close> and \<open>with_read\<close>: an operation on the storage under the lock. Only the
  lock's mode differs.\<close>

definition locked :: "(storage, 'a) sm \<Rightarrow> (shared, 'a) sm" where
  "locked m sh = (let (r, st) = m (sh_storage sh) in (r, sh\<lparr>sh_storage := st\<rparr>))"

definition on_shared :: "(shared, 'a) sm \<Rightarrow> (session, 'a) sm" where
  "on_shared m s = (let (r, sh) = m (ss_shared s) in (r, s\<lparr>ss_shared := sh\<rparr>))"

definition with_write :: "(storage, 'a) sm \<Rightarrow> (session, 'a) sm" where
  "with_write m = on_shared (locked m)"

definition with_read :: "(storage, 'a) sm \<Rightarrow> (session, 'a) sm" where
  "with_read m = on_shared (locked m)"

section \<open>The gate\<close>

text \<open>The condition under which \<open>wait_for_txn_clear\<close> returns.\<close>

definition gate_open :: "u64 \<Rightarrow> shared \<Rightarrow> bool" where
  "gate_open i sh \<longleftrightarrow> (case sh_owner sh of None \<Rightarrow> True | Some oid \<Rightarrow> oid = i)"

definition wait_for_txn_clear :: "(session, unit) sm" where
  "wait_for_txn_clear s = (if gate_open (ss_id s) (ss_shared s) then (Inr (), s) else (Inl Diverge, s))"

definition release_gate :: "u64 \<Rightarrow> shared \<Rightarrow> shared" where
  "release_gate i sh = (if sh_owner sh = Some i then sh\<lparr>sh_owner := None\<rparr> else sh)"

definition release_txn_gate :: "(session, unit) sm" where
  "release_txn_gate s = (Inr (), s\<lparr>ss_shared := release_gate (ss_id s) (ss_shared s)\<rparr>)"

text \<open>The first half of \<open>begin\<close>: wait until nobody owns the gate, then own it.\<close>

definition claim_gate :: "(session, unit) sm" where
  "claim_gate s =
     (if sh_owner (ss_shared s) = None
      then (Inr (), s\<lparr>ss_shared := (ss_shared s)\<lparr>sh_owner := Some (ss_id s)\<rparr>\<rparr>)
      else (Inl Diverge, s))"

definition set_in_txn :: "bool \<Rightarrow> (session, unit) sm" where
  "set_in_txn b s = (Inr (), s\<lparr>ss_in_txn := b\<rparr>)"

section \<open>The operations\<close>

definition session_create_table :: "files \<Rightarrow> string \<Rightarrow> column list \<Rightarrow> (session, unit) sm" where
  "session_create_table fs name columns =
     sbind wait_for_txn_clear (\<lambda>_. with_write (create_table fs name columns))"

definition session_insert :: "string \<Rightarrow> cell_value list \<Rightarrow> (session, unit) sm" where
  "session_insert table_name values =
     sbind wait_for_txn_clear (\<lambda>_. with_write (insert_into table_name values))"

definition session_select_all :: "string \<Rightarrow> (session, string list \<times> row list) sm" where
  "session_select_all table_name =
     sbind wait_for_txn_clear (\<lambda>_ s.
       if ss_in_txn s then with_write (select_all table_name) s else with_read (select_all table_name) s)"

definition session_dump_btree :: "string \<Rightarrow> (session, string) sm" where
  "session_dump_btree table_name =
     sbind wait_for_txn_clear (\<lambda>_ s.
       if ss_in_txn s then with_write (dump_btree table_name) s else with_read (dump_btree table_name) s)"

definition session_begin :: "(session, unit) sm" where
  "session_begin s =
     (if ss_in_txn s then (Inl (Fail ''Already in a transaction.''), s)
      else
        sbind claim_gate (\<lambda>_.
        sbind (caught (with_write storage_begin)) (\<lambda>result.
        case result of
          Inl e \<Rightarrow> sbind release_txn_gate (\<lambda>_. raise e)
        | Inr _ \<Rightarrow> set_in_txn True)) s)"

text \<open>The shared shape of \<open>commit\<close> and \<open>rollback\<close>.\<close>

definition end_txn :: "(storage, unit) sm \<Rightarrow> (session, unit) sm" where
  "end_txn m s =
     (if \<not> ss_in_txn s then (Inl (Fail ''No active transaction.''), s)
      else
        sbind (caught (with_write m)) (\<lambda>result.
        sbind (set_in_txn False) (\<lambda>_.
        sbind release_txn_gate (\<lambda>_. liftR result))) s)"

definition session_commit :: "(session, unit) sm" where
  "session_commit = end_txn storage_commit"

definition session_rollback :: "(session, unit) sm" where
  "session_rollback = end_txn storage_rollback"

text \<open>\<open>Drop\<close>: a session that ends inside a transaction rolls it back.\<close>

definition session_drop :: "(session, unit) sm" where
  "session_drop s =
     (if ss_in_txn s
      then
        sbind (caught (with_write storage_rollback)) (\<lambda>_.
        sbind (set_in_txn False) (\<lambda>_. release_txn_gate)) s
      else (Inr (), s))"

end
