(* ===== verification/Concurrency.thy ===== *)
theory Concurrency
  imports Session
begin

text \<open>
  Several sessions of \<open>src/session.rs\<close> on one storage, interleaved. A session's operation is
  taken apart where the source holds no lock between two actions: passing the gate
  (\<open>txn_owner\<close> is released again), the section under the storage lock, releasing the gate.
  Read and write sections are atomic steps here: writers exclude everybody, and readers
  change the page cache only, which no reader can see. A panic under the write lock poisons
  it; every later use of the lock panics too. \<open>sy_waiting\<close> is the wait queue of the condition
  variable \<open>txn_cv\<close>: a session in front of a closed gate suspends itself there and makes no step
  until the queue is notified, or the condition variable wakes it without reason, as
  it may at any time; then it looks at the gate again.
\<close>

section \<open>Sessions and their steps\<close>

datatype request =
    RqCreate string "column list" | RqInsert string "cell_value list" | RqSelect string | RqDump string
  | RqBegin | RqCommit | RqRollback | RqDrop

datatype reply = Done | Rows "string list" "row list" | Text string | Err error

text \<open>
  Where a session is: between requests; in the loop in front of the gate; past the gate and before the
  storage lock; owning the gate before \<open>storage.begin\<close>; after the storage section and before
  the gate is released; ended; killed by a panic.
\<close>

datatype pc = Idle | AtGate request | Passed request | Claimed | Releasing request reply | Gone | Dead

record client =
  cl_pc :: pc
  cl_in_txn :: bool
  cl_reply :: "reply option"

record system =
  sy_shared :: shared
  sy_poisoned :: bool
  sy_waiting :: "u64 set"
  sy_clients :: "u64 \<Rightarrow> client"

definition init_system :: "storage \<Rightarrow> system" where
  "init_system st = \<lparr>sy_shared = shared_new st, sy_poisoned = False, sy_waiting = {},
     sy_clients = (\<lambda>_. \<lparr>cl_pc = Idle, cl_in_txn = False, cl_reply = None\<rparr>)\<rparr>"

abbreviation pc_of :: "system \<Rightarrow> u64 \<Rightarrow> pc" where
  "pc_of y i \<equiv> cl_pc (sy_clients y i)"

abbreviation in_txn :: "system \<Rightarrow> u64 \<Rightarrow> bool" where
  "in_txn y i \<equiv> cl_in_txn (sy_clients y i)"

text \<open>Session \<open>i\<close> moves; \<open>answer\<close> is the return of an operation to its caller.\<close>

definition goto :: "u64 \<Rightarrow> pc \<Rightarrow> bool \<Rightarrow> system \<Rightarrow> system" where
  "goto i p b y = y\<lparr>sy_clients := (sy_clients y)(i := (sy_clients y i)\<lparr>cl_pc := p, cl_in_txn := b\<rparr>)\<rparr>"

definition answer :: "u64 \<Rightarrow> reply \<Rightarrow> bool \<Rightarrow> system \<Rightarrow> system" where
  "answer i rp b y = y\<lparr>sy_clients := (sy_clients y)(i := \<lparr>cl_pc = Idle, cl_in_txn = b, cl_reply = Some rp\<rparr>)\<rparr>"

text \<open>The condition of the two waiting loops: \<open>BEGIN\<close> waits for an empty gate, everything else
  for one that no other session owns.\<close>

definition must_wait :: "u64 \<Rightarrow> request \<Rightarrow> shared \<Rightarrow> bool" where
  "must_wait i rq sh \<longleftrightarrow> (if rq = RqBegin then sh_owner sh \<noteq> None else \<not> gate_open i sh)"

text \<open>\<open>release_txn_gate\<close>: empty the gate, \<open>notify_all\<close>.\<close>

definition leave_gate :: "u64 \<Rightarrow> system \<Rightarrow> system" where
  "leave_gate i y = y\<lparr>sy_shared := release_gate i (sy_shared y), sy_waiting := {}\<rparr>"

text \<open>The sections under the storage lock, and those that pass the gate first.\<close>

fun locked_section :: "files \<Rightarrow> request \<Rightarrow> (storage, reply) sm" where
  "locked_section fs (RqCreate n cs) = sbind (create_table fs n cs) (\<lambda>_. ret Done)"
| "locked_section fs (RqInsert n vs) = sbind (insert_into n vs) (\<lambda>_. ret Done)"
| "locked_section fs (RqSelect n) = sbind (select_all n) (\<lambda>(hs, rows). ret (Rows hs rows))"
| "locked_section fs (RqDump n) = sbind (dump_btree n) (\<lambda>t. ret (Text t))"
| "locked_section fs RqBegin = sbind storage_begin (\<lambda>_. ret Done)"
| "locked_section fs RqCommit = sbind storage_commit (\<lambda>_. ret Done)"
| "locked_section fs RqRollback = sbind storage_rollback (\<lambda>_. ret Done)"
| "locked_section fs RqDrop = sbind storage_rollback (\<lambda>_. ret Done)"

fun gated :: "request \<Rightarrow> bool" where
  "gated (RqCreate n cs) = True"
| "gated (RqInsert n vs) = True"
| "gated (RqSelect n) = True"
| "gated (RqDump n) = True"
| "gated _ = False"

fun ends_txn :: "request \<Rightarrow> bool" where
  "ends_txn RqCommit = True"
| "ends_txn RqRollback = True"
| "ends_txn RqDrop = True"
| "ends_txn _ = False"

text \<open>\<open>with_read\<close>: its panics do not poison the lock.\<close>

fun reads :: "request \<Rightarrow> bool" where
  "reads (RqSelect n) = True"
| "reads (RqDump n) = True"
| "reads _ = False"

fun reply_of :: "reply result \<Rightarrow> reply" where
  "reply_of (Inl e) = Err e"
| "reply_of (Inr r) = r"

definition run_section :: "files \<Rightarrow> request \<Rightarrow> system \<Rightarrow> reply result \<times> system" where
  "run_section fs rq y = (let (r, sh) = locked (locked_section fs rq) (sy_shared y) in (r, y\<lparr>sy_shared := sh\<rparr>))"

fun returns :: "'a result \<Rightarrow> bool" where
  "returns (Inl (Fail msg)) = True"
| "returns (Inr x) = True"
| "returns _ = False"

text \<open>
  A panic unwinds the session's thread and runs its \<open>Drop\<close>. Inside a transaction that takes
  the poisoned lock, panics again while unwinding, and the process aborts: every session is
  dead. \<open>Drop\<close> itself panicking, or a session outside a transaction, kills only its thread.
\<close>

definition die :: "u64 \<Rightarrow> request \<Rightarrow> system \<Rightarrow> system" where
  "die i rq y =
     (if in_txn y i \<and> rq \<noteq> RqDrop
      then y\<lparr>sy_waiting := {}, sy_clients := (\<lambda>_. \<lparr>cl_pc = Dead, cl_in_txn = False, cl_reply = None\<rparr>)\<rparr>
      else goto i Dead False y)"

text \<open>
  One step of session \<open>i\<close>. A storage section that does not return has no step: it would keep
  the lock for ever.
\<close>

inductive step :: "files \<Rightarrow> u64 \<Rightarrow> system \<Rightarrow> system \<Rightarrow> bool" for fs where
  call: "pc_of y i = Idle \<Longrightarrow> gated rq \<Longrightarrow> step fs i y (goto i (AtGate rq) (in_txn y i) y)"
| call_begin: "pc_of y i = Idle \<Longrightarrow> \<not> in_txn y i \<Longrightarrow> step fs i y (goto i (AtGate RqBegin) False y)"
| begin_again: "pc_of y i = Idle \<Longrightarrow> in_txn y i \<Longrightarrow>
    step fs i y (answer i (Err (Fail ''Already in a transaction.'')) True y)"
| call_end: "pc_of y i = Idle \<Longrightarrow> in_txn y i \<Longrightarrow> ends_txn rq \<Longrightarrow> step fs i y (goto i (Passed rq) True y)"
| end_outside: "pc_of y i = Idle \<Longrightarrow> \<not> in_txn y i \<Longrightarrow>
    step fs i y (answer i (Err (Fail ''No active transaction.'')) False y)"
| drop_outside: "pc_of y i = Idle \<Longrightarrow> \<not> in_txn y i \<Longrightarrow> step fs i y (goto i Gone False y)"
| wait: "pc_of y i = AtGate rq \<Longrightarrow> i \<notin> sy_waiting y \<Longrightarrow> must_wait i rq (sy_shared y) \<Longrightarrow>
    step fs i y (y\<lparr>sy_waiting := insert i (sy_waiting y)\<rparr>)"
| wake: "pc_of y i = AtGate rq \<Longrightarrow> i \<in> sy_waiting y \<Longrightarrow> step fs i y (y\<lparr>sy_waiting := sy_waiting y - {i}\<rparr>)"
| pass: "pc_of y i = AtGate rq \<Longrightarrow> i \<notin> sy_waiting y \<Longrightarrow> gated rq \<Longrightarrow> gate_open i (sy_shared y) \<Longrightarrow>
    step fs i y (goto i (Passed rq) (in_txn y i) y)"
| claim: "pc_of y i = AtGate RqBegin \<Longrightarrow> i \<notin> sy_waiting y \<Longrightarrow> sh_owner (sy_shared y) = None \<Longrightarrow>
    step fs i y (goto i Claimed False (y\<lparr>sy_shared := (sy_shared y)\<lparr>sh_owner := Some i\<rparr>\<rparr>))"
| exec: "pc_of y i = Passed rq \<Longrightarrow> gated rq \<Longrightarrow> \<not> sy_poisoned y \<Longrightarrow> run_section fs rq y = (r, y') \<Longrightarrow> returns r \<Longrightarrow>
    step fs i y (answer i (reply_of r) (in_txn y i) y')"
| exec_begin: "pc_of y i = Claimed \<Longrightarrow> \<not> sy_poisoned y \<Longrightarrow> run_section fs RqBegin y = (Inr r, y') \<Longrightarrow>
    step fs i y (answer i r True y')"
| fail_begin: "pc_of y i = Claimed \<Longrightarrow> \<not> sy_poisoned y \<Longrightarrow> run_section fs RqBegin y = (Inl (Fail msg), y') \<Longrightarrow>
    step fs i y (goto i (Releasing RqBegin (Err (Fail msg))) False y')"
| exec_end: "pc_of y i = Passed rq \<Longrightarrow> ends_txn rq \<Longrightarrow> \<not> sy_poisoned y \<Longrightarrow> run_section fs rq y = (r, y') \<Longrightarrow> returns r \<Longrightarrow>
    step fs i y (goto i (Releasing rq (reply_of r)) False y')"
| release: "pc_of y i = Releasing rq rp \<Longrightarrow> rq \<noteq> RqDrop \<Longrightarrow>
    step fs i y (answer i rp False (leave_gate i y))"
| release_drop: "pc_of y i = Releasing RqDrop rp \<Longrightarrow>
    step fs i y (goto i Gone False (leave_gate i y))"
| panic: "pc_of y i = Passed rq \<or> pc_of y i = Claimed \<and> rq = RqBegin \<Longrightarrow> \<not> sy_poisoned y \<Longrightarrow>
    run_section fs rq y = (Inl Panic, y') \<Longrightarrow>
    step fs i y (die i rq (y'\<lparr>sy_poisoned := \<not> (reads rq \<and> \<not> in_txn y i)\<rparr>))"
| poisoned: "pc_of y i = Passed rq \<or> pc_of y i = Claimed \<and> rq = RqBegin \<Longrightarrow> sy_poisoned y \<Longrightarrow> step fs i y (die i rq y)"

inductive reachable :: "files \<Rightarrow> storage \<Rightarrow> system \<Rightarrow> bool" for fs st where
  start: "reachable fs st (init_system st)"
| more: "reachable fs st y \<Longrightarrow> step fs i y y' \<Longrightarrow> reachable fs st y'"

inductive_cases stepE: "step fs i y y'"

section \<open>What every reachable state satisfies\<close>

text \<open>The gate belongs to the session in a transaction, or on its way in or out of one.\<close>

definition client_inv :: "u64 option \<Rightarrow> bool \<Rightarrow> u64 \<Rightarrow> client \<Rightarrow> bool" where
  "client_inv owner poisoned i c \<longleftrightarrow>
     (cl_in_txn c \<longrightarrow> owner = Some i) \<and>
     (case cl_pc c of
        Idle \<Rightarrow> True
      | AtGate rq \<Rightarrow> gated rq \<or> rq = RqBegin \<and> \<not> cl_in_txn c
      | Passed rq \<Rightarrow> gated rq \<or> ends_txn rq \<and> cl_in_txn c
      | Claimed \<Rightarrow> owner = Some i \<and> \<not> cl_in_txn c
      | Releasing rq rp \<Rightarrow> owner = Some i \<and> \<not> cl_in_txn c
      | Gone \<Rightarrow> \<not> cl_in_txn c
      | Dead \<Rightarrow> \<not> cl_in_txn c \<and> (owner = Some i \<longrightarrow> poisoned)) \<and>
     (owner = Some i \<longrightarrow> cl_in_txn c \<or> cl_pc c = Claimed \<or> cl_pc c = Dead \<or> (\<exists>rq rp. cl_pc c = Releasing rq rp))"

definition system_inv :: "system \<Rightarrow> bool" where
  "system_inv y \<longleftrightarrow> (\<forall>i. client_inv (sh_owner (sy_shared y)) (sy_poisoned y) i (sy_clients y i))"

lemma run_section_frame:
  "run_section fs rq y = (r, y') \<Longrightarrow>
   sh_owner (sy_shared y') = sh_owner (sy_shared y) \<and> sy_clients y' = sy_clients y \<and> sy_poisoned y' = sy_poisoned y \<and>
   sy_waiting y' = sy_waiting y"
  by (auto simp: run_section_def locked_def split: prod.splits)

lemma client_inv_other:
  assumes "client_inv o1 p j c" "j \<noteq> i" "o2 = o1 \<or> o1 = None \<and> o2 = Some i \<or> o1 = Some i \<and> o2 = None" "p \<Longrightarrow> p'"
  shows "client_inv o2 p' j c"
  using assms by (auto simp: client_inv_def split: pc.splits)

lemma inv_move:
  assumes inv: "system_inv y" and cl: "sy_clients y' = (sy_clients y)(i := c)"
    and own: "sh_owner (sy_shared y') = sh_owner (sy_shared y) \<or>
      sh_owner (sy_shared y) = None \<and> sh_owner (sy_shared y') = Some i \<or>
      sh_owner (sy_shared y) = Some i \<and> sh_owner (sy_shared y') = None"
    and poi: "sy_poisoned y \<Longrightarrow> sy_poisoned y'"
    and new: "client_inv (sh_owner (sy_shared y')) (sy_poisoned y') i c"
  shows "system_inv y'"
  unfolding system_inv_def cl
proof
  fix j
  show "client_inv (sh_owner (sy_shared y')) (sy_poisoned y') j (((sy_clients y)(i := c)) j)"
  proof (cases "j = i")
    case False
    have "client_inv (sh_owner (sy_shared y)) (sy_poisoned y) j (sy_clients y j)" using inv by (simp add: system_inv_def)
    from client_inv_other [OF this False own poi] False show ?thesis by simp
  qed (use new in simp)
qed

lemma inv_goto:
  assumes "system_inv y" "sy_clients y1 = sy_clients y"
    and "sh_owner (sy_shared y1) = sh_owner (sy_shared y) \<or>
      sh_owner (sy_shared y) = None \<and> sh_owner (sy_shared y1) = Some i \<or>
      sh_owner (sy_shared y) = Some i \<and> sh_owner (sy_shared y1) = None"
    and "sy_poisoned y \<Longrightarrow> sy_poisoned y1"
    and "client_inv (sh_owner (sy_shared y1)) (sy_poisoned y1) i \<lparr>cl_pc = p, cl_in_txn = b, cl_reply = cl_reply (sy_clients y i)\<rparr>"
  shows "system_inv (goto i p b y1)"
proof -
  have eq: "(sy_clients y i)\<lparr>cl_pc := p, cl_in_txn := b\<rparr> = \<lparr>cl_pc = p, cl_in_txn = b, cl_reply = cl_reply (sy_clients y i)\<rparr>"
    by (cases "sy_clients y i") simp
  show ?thesis
    unfolding goto_def assms(2) eq
    by (rule inv_move [OF assms(1), of _ i "\<lparr>cl_pc = p, cl_in_txn = b, cl_reply = cl_reply (sy_clients y i)\<rparr>"])
      (use assms in simp_all)
qed

lemma inv_answer:
  assumes "system_inv y" "sy_clients y1 = sy_clients y"
    and "sh_owner (sy_shared y1) = sh_owner (sy_shared y) \<or>
      sh_owner (sy_shared y) = Some i \<and> sh_owner (sy_shared y1) = None"
    and "sy_poisoned y \<Longrightarrow> sy_poisoned y1"
    and "b \<longleftrightarrow> sh_owner (sy_shared y1) = Some i"
  shows "system_inv (answer i rp b y1)"
  by (rule inv_move [OF assms(1), of _ i "\<lparr>cl_pc = Idle, cl_in_txn = b, cl_reply = Some rp\<rparr>"])
    (use assms in \<open>auto simp: answer_def client_inv_def\<close>)

lemma inv_die:
  assumes "system_inv y" "sy_clients y1 = sy_clients y" "sh_owner (sy_shared y1) = sh_owner (sy_shared y)"
    and "sy_poisoned y \<Longrightarrow> sy_poisoned y1" "sh_owner (sy_shared y) = Some i \<Longrightarrow> sy_poisoned y1"
  shows "system_inv (die i rq y1)"
proof (cases "in_txn y1 i \<and> rq \<noteq> RqDrop")
  case True
  then have "sh_owner (sy_shared y) = Some i"
    using assms(1,2) by (auto simp: system_inv_def client_inv_def)
  then have "sy_poisoned y1" using assms(5) by simp
  with True show ?thesis by (auto simp: die_def system_inv_def client_inv_def)
next
  case False
  then have "die i rq y1 = goto i Dead False y1" by (auto simp: die_def)
  moreover have "system_inv (goto i Dead False y1)"
    by (rule inv_goto [OF assms(1,2)]) (use assms(3-5) in \<open>auto simp: client_inv_def\<close>)
  ultimately show ?thesis by simp
qed

lemma leave_gate_simps [simp]:
  "sy_shared (leave_gate i y) = release_gate i (sy_shared y)" "sy_poisoned (leave_gate i y) = sy_poisoned y"
  "sy_waiting (leave_gate i y) = {}" "sy_clients (leave_gate i y) = sy_clients y"
  by (simp_all add: leave_gate_def)

lemma step_inv:
  assumes st: "step fs i y y'" and inv: "system_inv y"
  shows "system_inv y'"
proof -
  have ci: "client_inv (sh_owner (sy_shared y)) (sy_poisoned y) i (sy_clients y i)"
    using inv by (simp add: system_inv_def)
  note moves = inv_goto [OF inv] inv_answer [OF inv] inv_die [OF inv]
  from st show ?thesis
  proof cases
    case (exec rq r y1)
    then show ?thesis using ci run_section_frame [OF exec(5)] by (auto intro!: moves simp: client_inv_def)
  next
    case (exec_begin r y1)
    then show ?thesis using ci run_section_frame [OF exec_begin(4)] by (auto intro!: moves simp: client_inv_def)
  next
    case (fail_begin msg y1)
    then show ?thesis using ci run_section_frame [OF fail_begin(4)] by (auto intro!: moves simp: client_inv_def)
  next
    case (exec_end rq r y1)
    then show ?thesis
      using ci run_section_frame [OF exec_end(5)] by (auto intro!: moves simp: client_inv_def elim: ends_txn.elims)
  next
    case (panic rq y1)
    then show ?thesis using ci run_section_frame [OF panic(4)] by (auto intro!: moves simp: client_inv_def)
  next
    case (wait rq)
    then show ?thesis using inv by (simp add: system_inv_def)
  next
    case (wake rq)
    then show ?thesis using inv by (simp add: system_inv_def)
  qed (use ci in \<open>auto intro!: moves simp: client_inv_def release_gate_def\<close>)
qed

lemma reachable_inv: "reachable fs st y \<Longrightarrow> system_inv y"
proof (induction rule: reachable.induct)
  case start
  show ?case by (simp add: system_inv_def client_inv_def init_system_def shared_new_def)
qed (rule step_inv)

lemma goto_simps [simp]:
  "sy_shared (goto i p b y) = sy_shared y" "sy_poisoned (goto i p b y) = sy_poisoned y"
  "pc_of (goto i p b y) j = (if j = i then p else pc_of y j)" "in_txn (goto i p b y) j = (if j = i then b else in_txn y j)"
  "cl_reply (sy_clients (goto i p b y) j) = cl_reply (sy_clients y j)" "sy_waiting (goto i p b y) = sy_waiting y"
  by (simp_all add: goto_def)

lemma answer_simps [simp]:
  "sy_shared (answer i rp b y) = sy_shared y" "sy_poisoned (answer i rp b y) = sy_poisoned y"
  "pc_of (answer i rp b y) j = (if j = i then Idle else pc_of y j)" "in_txn (answer i rp b y) j = (if j = i then b else in_txn y j)"
  "cl_reply (sy_clients (answer i rp b y) j) = (if j = i then Some rp else cl_reply (sy_clients y j))"
  "sy_waiting (answer i rp b y) = sy_waiting y"
  by (simp_all add: answer_def)

lemma goto_goto: "goto i p b (goto i q c y) = goto i p b y"
  by (simp add: goto_def)

section \<open>The wait queue\<close>

text \<open>Whoever waits is in front of a gate that somebody else owns: no wake-up is lost.\<close>

definition queue_inv :: "system \<Rightarrow> bool" where
  "queue_inv y \<longleftrightarrow> (\<forall>i \<in> sy_waiting y. (\<exists>rq. pc_of y i = AtGate rq) \<and> (\<exists>j. j \<noteq> i \<and> sh_owner (sy_shared y) = Some j))"

lemma queue_move:
  assumes "queue_inv y" "sy_waiting y' = sy_waiting y" "sh_owner (sy_shared y') = sh_owner (sy_shared y)"
    and "i \<notin> sy_waiting y" "\<And>j. j \<noteq> i \<Longrightarrow> pc_of y' j = pc_of y j"
  shows "queue_inv y'"
  using assms unfolding queue_inv_def by metis

lemma queue_empty: "sy_waiting y = {} \<Longrightarrow> queue_inv y"
  by (simp add: queue_inv_def)

lemma step_queue:
  assumes st: "step fs i y y'" and inv: "system_inv y" and q: "queue_inv y"
  shows "queue_inv y'"
proof -
  have ci: "client_inv (sh_owner (sy_shared y)) (sy_poisoned y) i (sy_clients y i)"
    using inv by (simp add: system_inv_def)
  have at: "(\<exists>rq. pc_of y i = AtGate rq) \<and> sh_owner (sy_shared y) \<noteq> None" if "i \<in> sy_waiting y"
    using q that by (auto simp: queue_inv_def)
  note move = queue_move [OF q, of _ i] and framed = run_section_frame [of fs]
  have dies: "queue_inv (die i rq y1)"
    if "sy_waiting y1 = sy_waiting y" "sy_clients y1 = sy_clients y" "sh_owner (sy_shared y1) = sh_owner (sy_shared y)" "i \<notin> sy_waiting y" for y1 rq
  proof (cases "in_txn y1 i \<and> rq \<noteq> RqDrop")
    case True
    then show ?thesis by (intro queue_empty) (simp add: die_def)
  next
    case False
    then have "die i rq y1 = goto i Dead False y1" by (auto simp: die_def)
    then show ?thesis using that by (intro move) simp_all
  qed
  from st show ?thesis
  proof cases
    case (exec rq r y1)
    then show ?thesis using at framed [OF exec(5)] by (intro move) auto
  next
    case (exec_begin r y1)
    then show ?thesis using at framed [OF exec_begin(4)] by (intro move) auto
  next
    case (fail_begin msg y1)
    then show ?thesis using at framed [OF fail_begin(4)] by (intro move) auto
  next
    case (exec_end rq r y1)
    then show ?thesis using at framed [OF exec_end(5)] by (intro move) auto
  next
    case (panic rq y1)
    then have "i \<notin> sy_waiting y" using at by auto
    then show ?thesis unfolding panic(1) using framed [OF panic(4)] by (intro dies) simp_all
  next
    case (poisoned rq)
    then have "i \<notin> sy_waiting y" using at by auto
    then show ?thesis unfolding poisoned(1) by (intro dies) simp_all
  next
    case claim
    have "sy_waiting y = {}" using q claim(4) by (auto simp: queue_inv_def)
    then show ?thesis unfolding claim(1) by (intro queue_empty) simp
  next
    case (wake rq)
    then show ?thesis using q by (simp add: queue_inv_def)
  next
    case (wait rq)
    have "\<exists>j. j \<noteq> i \<and> sh_owner (sy_shared y) = Some j"
      using ci wait(2,4) by (auto simp: client_inv_def must_wait_def gate_open_def split: if_splits option.splits)
    then show ?thesis using q wait by (auto simp: queue_inv_def)
  next
    case (release rq rp)
    then show ?thesis by (intro queue_empty) simp
  next
    case (release_drop rp)
    then show ?thesis by (intro queue_empty) simp
  qed (use at in \<open>auto intro!: move\<close>)
qed

lemma reachable_queue: "reachable fs st y \<Longrightarrow> queue_inv y"
proof (induction rule: reachable.induct)
  case (more y i y')
  then show ?case using step_queue reachable_inv by blast
qed (simp add: queue_empty init_system_def)

end
