(* ===== verification/Session_Spec.thy ===== *)
theory Session_Spec
  imports Session Storage_Runs
begin

text \<open>
  A session of \<open>src/session.rs\<close> that nobody disturbs refines the abstract database of
  \<open>Storage_Spec\<close> with a flag: in a transaction or not. Every operation, right or wrong,
  returns the result of its abstract counterpart, and the gate is owned exactly while the
  flag is set. A session that is dropped rolls its transaction back and releases the gate.
\<close>

section \<open>The abstract session\<close>

type_synonym asession = "bool \<times> adb"

fun session_rel :: "session \<Rightarrow> asession \<Rightarrow> bool" where
  "session_rel s (b, a) \<longleftrightarrow>
     db_rel (sh_storage (ss_shared s)) a \<and> ss_in_txn s = b \<and>
     sh_owner (ss_shared s) = (if b then Some (ss_id s) else None) \<and>
     (\<not> b \<longrightarrow> enrolled a = {})"

fun session_cmd :: "files \<Rightarrow> cmd \<Rightarrow> (session, answer) sm" where
  "session_cmd fs (CreateTable n cs) = sbind (session_create_table fs n cs) (\<lambda>_. ret AUnit)"
| "session_cmd fs (Insert n vs) = sbind (session_insert n vs) (\<lambda>_. ret AUnit)"
| "session_cmd fs (Select n) = sbind (session_select_all n) (\<lambda>(hs, rows). ret (ARows hs rows))"
| "session_cmd fs (Dump n) = sbind (session_dump_btree n) (\<lambda>str. ret (AText str))"
| "session_cmd fs Begin = sbind session_begin (\<lambda>_. ret AUnit)"
| "session_cmd fs Commit = sbind session_commit (\<lambda>_. ret AUnit)"
| "session_cmd fs Rollback = sbind session_rollback (\<lambda>_. ret AUnit)"

text \<open>BEGIN is not nested, COMMIT and ROLLBACK end a transaction.\<close>

fun next_txn :: "cmd \<Rightarrow> bool \<Rightarrow> bool" where
  "next_txn Begin b = True"
| "next_txn Commit b = False"
| "next_txn Rollback b = False"
| "next_txn _ b = b"

fun s_rejected :: "cmd \<Rightarrow> asession \<Rightarrow> string option" where
  "s_rejected Begin (b, a) = (if b then Some ''Already in a transaction.'' else None)"
| "s_rejected Commit (b, a) = (if b then None else Some ''No active transaction.'')"
| "s_rejected Rollback (b, a) = (if b then None else Some ''No active transaction.'')"
| "s_rejected c (b, a) = rejected c a"

fun s_exec :: "cmd \<Rightarrow> asession \<Rightarrow> asession" where
  "s_exec c (b, a) = (if s_rejected c (b, a) = None then (next_txn c b, a_cmd c a) else (b, a))"

definition s_within :: "files \<Rightarrow> cmd \<Rightarrow> asession \<Rightarrow> bool" where
  "s_within fs c x = within fs c (snd x)"

definition s_answers :: "asession \<Rightarrow> cmd \<Rightarrow> answer result \<Rightarrow> bool" where
  "s_answers x c r = answers (s_rejected c x) (snd x) c r"

text \<open>The end of a session: what was not committed is undone.\<close>

fun s_drop :: "asession \<Rightarrow> asession" where
  "s_drop (b, a) = (False, if b then a_rollback a else a)"

section \<open>Behind the gate\<close>

lemma ok_with_write: "ok (with_write m) s (\<lambda>x s'. Q x (sh_storage (ss_shared s')) \<and> ss_in_txn s' = ss_in_txn s \<and> ss_id s' = ss_id s \<and>
    sh_owner (ss_shared s') = sh_owner (ss_shared s)) = ok m (sh_storage (ss_shared s)) Q"
  by (auto simp: ok_def with_write_def on_shared_def locked_def split: prod.splits sum.splits)

lemma with_read_write: "with_read m = with_write m"
  by (simp add: with_read_def with_write_def)

lemma session_readers:
  "session_select_all n = sbind wait_for_txn_clear (\<lambda>_. with_write (select_all n))"
  "session_dump_btree n = sbind wait_for_txn_clear (\<lambda>_. with_write (dump_btree n))"
  unfolding session_select_all_def session_dump_btree_def with_read_write if_cancel by simp_all

lemma with_write_value: "sbind (with_write m) (\<lambda>x. ret (f x)) = with_write (sbind m (\<lambda>x. ret (f x)))"
  by (auto simp: sbind_def ret_def with_write_def on_shared_def locked_def fun_eq_iff split: prod.splits sum.splits)

lemma caught_with_write: "caught (with_write m) = with_write (caught m)"
proof
  fix s :: session
  obtain r st where "m (sh_storage (ss_shared s)) = (r, st)" by force
  then show "caught (with_write m) s = with_write (caught m) s"
    by (cases r; cases "projl r") (auto simp: caught_def with_write_def on_shared_def locked_def)
qed

lemma gate_passes: "session_rel s x \<Longrightarrow> sbind wait_for_txn_clear f s = f () s"
  by (cases x) (simp add: sbind_def wait_for_txn_clear_def gate_open_def split: if_splits)

lemma caught_cong: "m s = m' s \<Longrightarrow> caught m s = caught m' s"
  by (simp add: caught_def)

text \<open>An operation behind the gate returns, and does to the storage, what its section does.\<close>

lemma gated_sim:
  assumes rel: "session_rel s (b, a)" and m: "ok (caught m) (sh_storage (ss_shared s)) (\<lambda>r st. Q r \<and> db_rel st a')"
    and enr: "enrolled a' = enrolled a"
  shows "ok (caught (sbind wait_for_txn_clear (\<lambda>_. with_write m))) s (\<lambda>r s'. Q r \<and> session_rel s' (b, a'))"
proof -
  have run: "caught (sbind wait_for_txn_clear (\<lambda>_. with_write m)) s = with_write (caught m) s"
    unfolding caught_with_write [symmetric] by (rule caught_cong) (rule gate_passes [OF rel])
  show ?thesis
    unfolding ok_run [where m = "caught (sbind wait_for_txn_clear (\<lambda>_. with_write m))" and m' = "with_write (caught m)" and s = s, OF run]
    by (intro ok_mono [OF ok_with_write [THEN iffD2, OF m]]) (use rel enr in auto)
qed

fun gated_cmd :: "cmd \<Rightarrow> bool" where
  "gated_cmd (CreateTable n cs) = True"
| "gated_cmd (Insert n vs) = True"
| "gated_cmd (Select n) = True"
| "gated_cmd (Dump n) = True"
| "gated_cmd _ = False"

lemma session_cmd_gated:
  assumes "gated_cmd c"
  shows "session_cmd fs c = sbind wait_for_txn_clear (\<lambda>_. with_write (run_cmd fs c))"
proof -
  have pairs: "(\<lambda>x. case x of (hs, rows) \<Rightarrow> ret (ARows hs rows)) = (\<lambda>x. ret (case x of (hs, rows) \<Rightarrow> ARows hs rows))"
    by (auto simp: fun_eq_iff)
  show ?thesis
    using assms
    by (cases c) (simp_all add: session_create_table_def session_insert_def session_readers
        sbind_assoc with_write_value pairs)
qed

lemma gated_enrolled: "gated_cmd c \<Longrightarrow> enrolled (a_exec c a) = enrolled a"
  by (cases c) (auto simp: a_exec_def a_create_def a_insert_def split: option.splits)

lemma gated_exec: "gated_cmd c \<Longrightarrow> s_rejected c (b, a) = rejected c a \<and> s_exec c (b, a) = (b, a_exec c a)"
  by (cases c) (auto simp: a_exec_def)

lemma session_gated_sim:
  assumes rel: "session_rel s (b, a)" and wi: "within fs c a" and g: "gated_cmd c"
  shows "ok (caught (session_cmd fs c)) s (\<lambda>r s'. answers (rejected c a) a c r \<and> session_rel s' (b, a_exec c a))"
  unfolding session_cmd_gated [OF g]
proof (rule gated_sim [OF rel _ gated_enrolled [OF g]])
  have "legal fs c a" using wi g by (cases c) (simp_all add: legal_def)
  then show "ok (caught (run_cmd fs c)) (sh_storage (ss_shared s)) (\<lambda>r st. answers (rejected c a) a c r \<and> db_rel st (a_exec c a))"
    using rel by (intro cmd_sim) simp_all
qed

text \<open>The rows themselves, for the executor.\<close>

definition rows_of :: "adb \<Rightarrow> string \<Rightarrow> (string list \<times> row list) result \<Rightarrow> bool" where
  "rows_of a n r \<longleftrightarrow> (case working a n of
     None \<Rightarrow> r = Inl (Fail (no_table n))
   | Some c \<Rightarrow> \<exists>x. r = Inr x \<and> shows_table c x)"

lemma session_select_sim:
  assumes "session_rel s (b, a)"
  shows "ok (caught (session_select_all n)) s (\<lambda>r s'. rows_of a n r \<and> session_rel s' (b, a))"
  unfolding session_readers
proof (rule gated_sim [OF assms _ refl])
  have db: "db_rel (sh_storage (ss_shared s)) a" using assms by simp
  show "ok (caught (select_all n)) (sh_storage (ss_shared s)) (\<lambda>r st. rows_of a n r \<and> db_rel st a)"
  proof (cases "working a n")
    case None
    then have "select_all n (sh_storage (ss_shared s)) = (Inl (Fail (no_table n)), sh_storage (ss_shared s))"
      using db_rel_dom [OF db, of n] by (simp add: select_all_def with_table_rejects)
    then show ?thesis by (rule caught_fail) (simp add: rows_of_def None db)
  next
    case (Some c)
    show ?thesis by (rule ok_mono [OF caught_ok [OF select_sim [OF db Some]]]) (auto simp: rows_of_def Some)
  qed
qed

section \<open>Transactions\<close>

lemma session_begin_sim:
  assumes rel: "session_rel s (False, a)"
  shows "ok session_begin s (\<lambda>_ s'. session_rel s' (True, a_begin a))"
proof -
  let ?s = "s\<lparr>ss_shared := (ss_shared s)\<lparr>sh_owner := Some (ss_id s)\<rparr>\<rparr>"
  have r: "db_rel (sh_storage (ss_shared s)) a" "enrolled a = {}" "sh_owner (ss_shared s) = None" "\<not> ss_in_txn s"
    using rel by simp_all
  have "ok storage_begin (sh_storage (ss_shared ?s)) (\<lambda>_ st. db_rel st (a_begin a))"
    using begin_sim [OF r(1,2)] by simp
  from caught_ok [OF ok_with_write [THEN iffD2, OF this]]
  have "ok (caught (with_write storage_begin)) ?s (\<lambda>r s'. (\<exists>x. r = Inr x) \<and>
      db_rel (sh_storage (ss_shared s')) (a_begin a) \<and> sh_owner (ss_shared s') = Some (ss_id s'))"
    by (rule ok_mono) auto
  then have "ok (sbind (caught (with_write storage_begin)) (\<lambda>result. case result of Inl e \<Rightarrow> sbind release_txn_gate (\<lambda>_. raise e)
      | Inr _ \<Rightarrow> set_in_txn True)) ?s (\<lambda>_ s'. session_rel s' (True, a_begin a))"
    unfolding ok_bind by (rule ok_mono) (auto simp: ok_def set_in_txn_def)
  then show ?thesis
    using r(3,4) by (simp add: ok_def session_begin_def sbind_def [of claim_gate] claim_gate_def)
qed

lemma end_txn_sim:
  assumes rel: "session_rel s (True, a)"
    and m: "ok m (sh_storage (ss_shared s)) (\<lambda>_ st. db_rel st a')" and enr: "enrolled a' = {}"
  shows "ok (end_txn m) s (\<lambda>_ s'. session_rel s' (False, a'))"
proof -
  have "ok (sbind (caught (with_write m)) (\<lambda>result. sbind (set_in_txn False) (\<lambda>_. sbind release_txn_gate (\<lambda>_. liftR result)))) s
      (\<lambda>_ s'. session_rel s' (False, a'))"
    unfolding ok_bind
    by (rule ok_mono [OF caught_ok [OF ok_with_write [THEN iffD2, OF m]]])
      (use rel enr in \<open>auto simp: ok_def set_in_txn_def release_txn_gate_def release_gate_def liftR_def\<close>)
  then show ?thesis using rel by (simp add: ok_def end_txn_def)
qed

lemma session_drop_sim:
  assumes "session_rel s x"
  shows "ok session_drop s (\<lambda>_ s'. session_rel s' (s_drop x))"
proof -
  obtain b a where x: "x = (b, a)" by force
  show ?thesis
  proof (cases b)
    case True
    have "ok storage_rollback (sh_storage (ss_shared s)) (\<lambda>_ st. db_rel st (a_rollback a))"
      using assms by (intro rollback_sim) (simp add: x)
    from caught_ok [OF ok_with_write [THEN iffD2, OF this]]
    have "ok (sbind (caught (with_write storage_rollback)) (\<lambda>_. sbind (set_in_txn False) (\<lambda>_. release_txn_gate))) s
        (\<lambda>_ s'. session_rel s' (False, a_rollback a))"
      unfolding ok_bind
      by (rule ok_mono)
        (use assms True in \<open>auto simp: x ok_def set_in_txn_def release_txn_gate_def release_gate_def a_rollback_def\<close>)
    with True assms show ?thesis by (simp add: x ok_def session_drop_def)
  qed (use assms in \<open>simp add: x ok_def session_drop_def\<close>)
qed

section \<open>One command\<close>

lemma sbind_unit_ok: "ok m s (\<lambda>_ s'. Q s') \<Longrightarrow> ok (caught (sbind m (\<lambda>_. ret AUnit))) s (\<lambda>r s'. r = Inr AUnit \<and> Q s')"
  by (rule ok_mono [OF caught_ok [where Q = "\<lambda>x s'. x = AUnit \<and> Q s'"]]) (auto simp: ok_bind ok_ret)

lemma sbind_unit_fail: "m s = (Inl (Fail msg), s) \<Longrightarrow> Q s \<Longrightarrow> ok (caught (sbind m (\<lambda>_. ret AUnit))) s (\<lambda>r s'. r = Inl (Fail msg) \<and> Q s')"
  by (simp add: ok_def caught_def sbind_def)

lemma end_cmd_sim:
  assumes rel: "session_rel s (b, a)" and m: "ok m (sh_storage (ss_shared s)) (\<lambda>_ st. db_rel st a')" and enr: "enrolled a' = {}"
  shows "ok (caught (sbind (end_txn m) (\<lambda>_. ret AUnit))) s (\<lambda>r s'.
    r = (if b then Inr AUnit else Inl (Fail ''No active transaction.'')) \<and> session_rel s' (False, if b then a' else a))"
proof (cases b)
  case True
  then have "session_rel s (True, a)" using rel by simp
  from sbind_unit_ok [OF end_txn_sim [OF this m enr]] True show ?thesis by simp
next
  case False
  then have "end_txn m s = (Inl (Fail ''No active transaction.''), s)" using rel by (simp add: end_txn_def)
  from sbind_unit_fail [where s = s and m = "end_txn m" and Q = "\<lambda>s'. session_rel s' (False, a)", OF this] False rel show ?thesis by simp
qed

lemma begin_cmd_sim:
  assumes rel: "session_rel s (b, a)"
  shows "ok (caught (sbind session_begin (\<lambda>_. ret AUnit))) s (\<lambda>r s'.
    r = (if b then Inl (Fail ''Already in a transaction.'') else Inr AUnit) \<and> session_rel s' (True, if b then a else a_begin a))"
proof (cases b)
  case True
  then have "session_begin s = (Inl (Fail ''Already in a transaction.''), s)" using rel by (simp add: session_begin_def)
  from sbind_unit_fail [where s = s and m = session_begin and Q = "\<lambda>s'. session_rel s' (True, a)", OF this] True rel show ?thesis by simp
next
  case False
  then show ?thesis using sbind_unit_ok [OF session_begin_sim] rel by simp
qed

lemma session_cmd_sim:
  assumes rel: "session_rel s x" and wi: "s_within fs c x"
  shows "ok (caught (session_cmd fs c)) s (\<lambda>r s'. s_answers x c r \<and> session_rel s' (s_exec c x))"
proof -
  obtain b a where x: "x = (b, a)" by force
  have r: "session_rel s (b, a)" "db_rel (sh_storage (ss_shared s)) a" using rel by (simp_all add: x)
  consider (gated) "gated_cmd c" | (beg) "c = Begin" | (commit) "c = Commit" | (rollback) "c = Rollback"
    by (cases c) auto
  then show ?thesis
  proof cases
    case gated
    then show ?thesis
      using session_gated_sim [OF r(1) _ gated] gated_exec [OF gated, of b a] wi
      by (simp add: x s_within_def s_answers_def del: session_rel.simps s_exec.simps)
  next
    case beg
    from begin_cmd_sim [OF r(1)] show ?thesis
      by (auto simp: x beg s_answers_def answers_def elim!: ok_mono)
  next
    case commit
    have "enrolled (a_commit a) = {}" by (simp add: a_commit_def)
    from end_cmd_sim [OF r(1) commit_sim [OF r(2)] this] show ?thesis
      by (auto simp: x commit session_commit_def s_answers_def answers_def elim!: ok_mono)
  next
    case rollback
    have "enrolled (a_rollback a) = {}" by (simp add: a_rollback_def)
    from end_cmd_sim [OF r(1) rollback_sim [OF r(2)] this] show ?thesis
      by (auto simp: x rollback session_rollback_def s_answers_def answers_def elim!: ok_mono)
  qed
qed

section \<open>Runs\<close>

abbreviation session_cmds :: "files \<Rightarrow> cmd list \<Rightarrow> (session, answer result list) sm" where
  "session_cmds fs \<equiv> run_seq (\<lambda>c. caught (session_cmd fs c))"

abbreviation session_legal :: "files \<Rightarrow> cmd list \<Rightarrow> asession \<Rightarrow> bool" where
  "session_legal fs \<equiv> all_within (s_within fs) s_exec"

abbreviation session_answers :: "asession \<Rightarrow> cmd list \<Rightarrow> answer result list \<Rightarrow> bool" where
  "session_answers \<equiv> all_replies s_answers s_exec"

interpretation ses: simulation session_rel "\<lambda>c. caught (session_cmd fs c)" "s_within fs" s_exec s_answers for fs
  by unfold_locales (rule session_cmd_sim)

lemma session_rel_new: "db_rel st a \<Longrightarrow> enrolled a = {} \<Longrightarrow> session_rel (session_new (shared_new st) i) (False, a)"
  by (simp add: session_new_def shared_new_def)

text \<open>A row command never ends or begins a transaction.\<close>

lemma row_cmd_exec: "row_cmd c \<Longrightarrow> s_exec c (b, a) = (b, a_exec c a)"
  using gated_exec [of c b a] by (cases c) simp_all

lemma row_cmds_exec: "list_all row_cmd cs \<Longrightarrow> fold s_exec cs (b, a) = (b, fold a_exec cs a)"
  by (induction cs arbitrary: a) (simp_all add: row_cmd_exec del: s_exec.simps)

section \<open>An example: a session with a table of one row\<close>

definition demo_session :: session where
  "demo_session = session_new (shared_new storage_new) 1"

lemma demo_session_rel: "session_rel demo_session (False, a_new)"
  unfolding demo_session_def by (rule session_rel_new [OF db_rel_new]) (simp add: a_new_def)

lemma demo_session_out: "\<not> ss_in_txn demo_session"
  by (simp add: demo_session_def session_new_def)

definition bob :: row where
  "bob = \<lparr>row_values = [VInteger 2, VText ''bob'']\<rparr>"

definition demo_cmds :: "cmd list" where
  "demo_cmds = [CreateTable ''users'' demo_columns, Insert ''users'' [VInteger 2, VText ''bob'']]"

definition demo_db :: adb where
  "demo_db = fold a_exec demo_cmds a_new"

lemma demo_db: "working demo_db ''users'' = Some (demo_columns, {#bob#})" "enrolled demo_db = {}"
  "durable demo_db = working demo_db" "working demo_db n = (if n = ''users'' then Some (demo_columns, {#bob#}) else None)"
  by (simp_all add: demo_db_def demo_cmds_def bob_def a_new_def a_create_def a_insert_def demo_row)

lemma demo_run: "ok (session_cmds (\<lambda>_. ([], [])) demo_cmds) demo_session (\<lambda>_ s. session_rel s (False, demo_db))"
proof -
  have "session_legal (\<lambda>_. ([], [])) demo_cmds (False, a_new)"
    by (simp add: demo_cmds_def demo_columns_ok demo_row good_row_accepted a_new_def a_create_def s_within_def MAX_PAGES_def)
  from ses.runs [OF demo_session_rel this] show ?thesis
    by (rule ok_mono) (simp add: demo_db_def demo_cmds_def a_new_def a_create_def demo_row good_row_accepted)
qed

end
