(* ===== verification/Concurrency_Spec.thy ===== *)
theory Concurrency_Spec
  imports Concurrency Session_Spec
begin

text \<open>
  Interleaved sessions are serializable at the granularity of storage sections: the history
  of a run lists the sections in the order in which they held the storage lock; running
  their commands one after the other on the abstract database gives every reply and the
  final tables. Between two sections of one session those of others may come, transactions
  included, as far as the gate allows.
\<close>

section \<open>Histories\<close>

record event =
  ev_session :: u64
  ev_request :: request
  ev_reply :: reply

type_synonym history = "event list"

definition section_of :: "files \<Rightarrow> u64 \<Rightarrow> system \<Rightarrow> history" where
  "section_of fs i y =
     (let ran = (\<lambda>rq. [\<lparr>ev_session = i, ev_request = rq, ev_reply = reply_of (fst (run_section fs rq y))\<rparr>]) in
      if sy_poisoned y then []
      else case pc_of y i of Passed rq \<Rightarrow> ran rq | Claimed \<Rightarrow> ran RqBegin | _ \<Rightarrow> [])"

inductive execution :: "files \<Rightarrow> storage \<Rightarrow> history \<Rightarrow> system \<Rightarrow> bool" for fs st where
  start: "execution fs st [] (init_system st)"
| more: "execution fs st h y \<Longrightarrow> step fs i y y' \<Longrightarrow> execution fs st (h @ section_of fs i y) y'"

lemma execution_reachable: "execution fs st h y \<Longrightarrow> reachable fs st y"
  by (induction rule: execution.induct) (auto intro: reachable.intros)

section \<open>Serial runs\<close>

fun cmd_of :: "request \<Rightarrow> cmd" where
  "cmd_of (RqCreate n cs) = CreateTable n cs"
| "cmd_of (RqInsert n vs) = Insert n vs"
| "cmd_of (RqSelect n) = Select n"
| "cmd_of (RqDump n) = Dump n"
| "cmd_of RqBegin = Begin"
| "cmd_of RqCommit = Commit"
| "cmd_of RqRollback = Rollback"
| "cmd_of RqDrop = Rollback"

fun reply_for :: "answer \<Rightarrow> reply" where
  "reply_for AUnit = Done"
| "reply_for (ARows hs rows) = Rows hs rows"
| "reply_for (AText str) = Text str"

definition serial_reply :: "adb \<Rightarrow> cmd \<Rightarrow> reply \<Rightarrow> bool" where
  "serial_reply a c rp \<longleftrightarrow> (case rejected c a of
     Some msg \<Rightarrow> rp = Err (Fail msg)
   | None \<Rightarrow> \<exists>x. rp = reply_for x \<and> good_answer a c x)"

abbreviation ev_exec :: "event \<Rightarrow> adb \<Rightarrow> adb" where
  "ev_exec e \<equiv> a_exec (cmd_of (ev_request e))"

abbreviation ev_within :: "files \<Rightarrow> event \<Rightarrow> adb \<Rightarrow> bool" where
  "ev_within fs e \<equiv> within fs (cmd_of (ev_request e))"

primrec serial :: "adb \<Rightarrow> history \<Rightarrow> bool" where
  "serial a [] \<longleftrightarrow> True"
| "serial a (e # h) \<longleftrightarrow> serial_reply a (cmd_of (ev_request e)) (ev_reply e) \<and> serial (ev_exec e a) h"

lemma serial_append: "serial a (h @ h') \<longleftrightarrow> serial a h \<and> serial (fold ev_exec h a) h'"
  by (induction h arbitrary: a) auto

text \<open>Transactions in a history: \<open>turns h None\<close> is the session that is left inside one, or \<open>None\<close>
  when a transaction begins inside another or is ended by somebody else.\<close>

definition turn :: "event \<Rightarrow> u64 option \<Rightarrow> u64 option option" where
  "turn e ow = (if ev_request e = RqBegin then (if ow = None then Some (Some (ev_session e)) else None)
     else if ends_txn (ev_request e) then (if ow = Some (ev_session e) then Some None else None)
     else Some ow)"

primrec turns :: "history \<Rightarrow> u64 option \<Rightarrow> u64 option option" where
  "turns [] ow = Some ow"
| "turns (e # h) ow = (case turn e ow of None \<Rightarrow> None | Some ow' \<Rightarrow> turns h ow')"

lemma turns_append: "turns (h @ h') ow = (case turns h ow of None \<Rightarrow> None | Some ow' \<Rightarrow> turns h' ow')"
  by (induction h arbitrary: ow) (auto split: option.split)

section \<open>One section\<close>

lemma locked_section_cmd: "locked_section fs rq = sbind (run_cmd fs (cmd_of rq)) (\<lambda>x. ret (reply_for x))"
  by (cases rq) (auto simp: sbind_assoc fun_eq_iff sbind_def ret_def split: prod.splits sum.splits)

lemma section_runs:
  assumes rel: "db_rel (sh_storage (sy_shared y)) a" and leg: "legal fs (cmd_of rq) a"
  obtains r st' where "run_section fs rq y = (r, y\<lparr>sy_shared := (sy_shared y)\<lparr>sh_storage := st'\<rparr>\<rparr>)" "returns r"
    "db_rel st' (a_exec (cmd_of rq) a)" "serial_reply a (cmd_of rq) (reply_of r)"
proof -
  let ?c = "cmd_of rq" and ?st = "sh_storage (sy_shared y)"
  obtain r st' where r: "run_cmd fs ?c ?st = (r, st')" "r \<noteq> Inl Panic" "r \<noteq> Inl Diverge"
    "answers (rejected ?c a) a ?c r" "db_rel st' (a_exec ?c a)"
    using cmd_sim [OF rel leg] by (auto simp: ok_caught)
  let ?r = "case r of Inl e \<Rightarrow> Inl e | Inr x \<Rightarrow> Inr (reply_for x)"
  have "locked_section fs rq ?st = (?r, st')"
    using r(1) by (simp add: locked_section_cmd sbind_def ret_def split: sum.split)
  then have run: "run_section fs rq y = (?r, y\<lparr>sy_shared := (sy_shared y)\<lparr>sh_storage := st'\<rparr>\<rparr>)"
    by (simp add: run_section_def locked_def)
  have "returns ?r"
  proof (cases r)
    case (Inl e)
    then show ?thesis using r(2,3) by (cases e) simp_all
  qed simp
  moreover have "serial_reply a ?c (reply_of ?r)"
    using r(4) by (auto simp: answers_def serial_reply_def split: option.splits)
  ultimately show ?thesis using run r(5) by (intro that) simp_all
qed

section \<open>The invariant\<close>

text \<open>A reply that session \<open>i\<close> was given: from one of its sections, or a refusal that needs none.\<close>

definition made :: "history \<Rightarrow> u64 \<Rightarrow> reply \<Rightarrow> bool" where
  "made h i rp \<longleftrightarrow> rp = Err (Fail ''Already in a transaction.'') \<or> rp = Err (Fail ''No active transaction.'') \<or>
     (\<exists>e \<in> set h. ev_session e = i \<and> ev_reply e = rp)"

definition replied :: "history \<Rightarrow> u64 \<Rightarrow> client \<Rightarrow> bool" where
  "replied h i c \<longleftrightarrow> (\<forall>rp. cl_reply c = Some rp \<longrightarrow> made h i rp) \<and> (\<forall>rq rp. cl_pc c = Releasing rq rp \<longrightarrow> made h i rp)"

definition holder :: "system \<Rightarrow> u64 option \<Rightarrow> bool" where
  "holder y ow \<longleftrightarrow> (\<forall>i. in_txn y i \<longleftrightarrow> ow = Some i)"

definition serial_inv :: "adb \<Rightarrow> history \<Rightarrow> system \<Rightarrow> bool" where
  "serial_inv a h y \<longleftrightarrow> serial a h \<and> db_rel (sh_storage (sy_shared y)) (fold ev_exec h a) \<and> \<not> sy_poisoned y \<and>
     (enrolled (fold ev_exec h a) = {} \<or> (\<exists>i. in_txn y i)) \<and>
     (\<exists>ow. turns h None = Some ow \<and> holder y ow) \<and> (\<forall>i. replied h i (sy_clients y i))"

lemma made_append: "made h i rp \<Longrightarrow> made (h @ h') i rp"
  by (auto simp: made_def)

lemma replied_append: "replied h i c \<Longrightarrow> replied (h @ h') i c"
  by (auto simp: replied_def made_append)

lemma replied_goto:
  "\<forall>j. replied h j (sy_clients y j) \<Longrightarrow> (\<And>rq rp. p = Releasing rq rp \<Longrightarrow> made h i rp) \<Longrightarrow> replied h j (sy_clients (goto i p b y) j)"
  by (auto simp: replied_def)

lemma replied_answer:
  "\<forall>j. replied h j (sy_clients y j) \<Longrightarrow> made h i rp \<Longrightarrow> replied h j (sy_clients (answer i rp b y) j)"
  by (auto simp: replied_def)

lemma plain_move:
  assumes "serial_inv a h y" "sh_storage (sy_shared y') = sh_storage (sy_shared y)" "sy_poisoned y' = sy_poisoned y"
    "\<And>j. in_txn y' j = in_txn y j" "\<And>j. replied h j (sy_clients y' j)"
  shows "serial_inv a h y'"
  using assms by (simp add: serial_inv_def holder_def)

lemma turn_simps:
  "gated rq \<Longrightarrow> turn \<lparr>ev_session = i, ev_request = rq, ev_reply = rp\<rparr> ow = Some ow"
  "turn \<lparr>ev_session = i, ev_request = RqBegin, ev_reply = rp\<rparr> None = Some (Some i)"
  "ends_txn rq \<Longrightarrow> turn \<lparr>ev_session = i, ev_request = rq, ev_reply = rp\<rparr> (Some i) = Some None"
  by (cases rq; simp add: turn_def)+

text \<open>A section: the history grows by its event, and its session answers or goes on to the gate.\<close>

lemma section_move:
  assumes inv: "serial_inv a h y" and y1: "y1 = y\<lparr>sy_shared := (sy_shared y)\<lparr>sh_storage := st'\<rparr>\<rparr>"
    and sec: "db_rel st' (a_exec (cmd_of rq) (fold ev_exec h a))" "serial_reply (fold ev_exec h a) (cmd_of rq) rp"
    and enr: "enrolled (a_exec (cmd_of rq) (fold ev_exec h a)) = {} \<or> b \<or> (\<exists>j. j \<noteq> i \<and> in_txn y j)"
    and tn: "turns h None = Some ow" "holder y ow"
      "turn \<lparr>ev_session = i, ev_request = rq, ev_reply = rp\<rparr> ow = Some (if b then Some i else if ow = Some i then None else ow)"
      "b \<Longrightarrow> ow = None \<or> ow = Some i"
  shows section_answer: "serial_inv a (h @ [\<lparr>ev_session = i, ev_request = rq, ev_reply = rp\<rparr>]) (answer i rp b y1)" (is ?A)
    and section_release: "serial_inv a (h @ [\<lparr>ev_session = i, ev_request = rq, ev_reply = rp\<rparr>]) (goto i (Releasing rq rp) b y1)" (is ?G)
proof -
  let ?h = "h @ [\<lparr>ev_session = i, ev_request = rq, ev_reply = rp\<rparr>]"
  have rep: "\<forall>j. replied ?h j (sy_clients y1 j)" using inv by (simp add: serial_inv_def replied_append y1)
  have "made ?h i rp" by (auto simp: made_def)
  then have "replied ?h j (sy_clients (answer i rp b y1) j)" "replied ?h j (sy_clients (goto i (Releasing rq rp) b y1) j)" for j
    by (auto intro!: replied_answer [OF rep] replied_goto [OF rep])
  moreover have "(\<exists>j. in_txn (answer i rp b y1) j) \<and> (\<exists>j. in_txn (goto i (Releasing rq rp) b y1) j)"
    if "b \<or> (\<exists>j. j \<noteq> i \<and> in_txn y j)"
    using that by (auto simp: y1)
  moreover have "holder (answer i rp b y1) (if b then Some i else if ow = Some i then None else ow)"
    "holder (goto i (Releasing rq rp) b y1) (if b then Some i else if ow = Some i then None else ow)"
    using tn(2,4) by (auto simp: holder_def y1)
  moreover have "turns ?h None = Some (if b then Some i else if ow = Some i then None else ow)"
    using tn(1,3) by (simp add: turns_append)
  ultimately show ?A ?G
    using inv sec enr by (auto simp: serial_inv_def serial_append y1 simp del: answer_simps(3,4) goto_simps(3,4) turns.simps)
qed

lemma gated_cmd_of: "gated rq \<Longrightarrow> gated_cmd (cmd_of rq)"
  by (cases rq) simp_all

lemma ends_cmd_of: "ends_txn rq \<Longrightarrow> cmd_of rq = Commit \<or> cmd_of rq = Rollback"
  by (cases rq) simp_all

lemma enrolled_end: "ends_txn rq \<Longrightarrow> enrolled (a_exec (cmd_of rq) a) = {}"
  using ends_cmd_of [of rq] by (auto simp: a_commit_def a_rollback_def)

lemma section_of_simps:
  "\<not> sy_poisoned y \<Longrightarrow> pc_of y i = Passed rq \<Longrightarrow> run_section fs rq y = (r, y') \<Longrightarrow>
   section_of fs i y = [\<lparr>ev_session = i, ev_request = rq, ev_reply = reply_of r\<rparr>]"
  "\<not> sy_poisoned y \<Longrightarrow> pc_of y i = Claimed \<Longrightarrow> run_section fs RqBegin y = (r, y') \<Longrightarrow>
   section_of fs i y = [\<lparr>ev_session = i, ev_request = RqBegin, ev_reply = reply_of r\<rparr>]"
  "pc_of y i = Idle \<or> pc_of y i = AtGate rq \<or> pc_of y i = Releasing rq rp \<Longrightarrow> section_of fs i y = []"
  by (auto simp: section_of_def Let_def)

text \<open>What the section of session \<open>i\<close> does: behind the gate, and with the claim of a transaction.\<close>

lemma passed_runs:
  assumes inv: "serial_inv a h y" and sys: "system_inv y" and pc: "pc_of y i = Passed rq"
    and wi: "all_within (ev_within fs) ev_exec (h @ section_of fs i y) a"
  shows "\<exists>r st'. run_section fs rq y = (r, y\<lparr>sy_shared := (sy_shared y)\<lparr>sh_storage := st'\<rparr>\<rparr>) \<and> returns r \<and>
    db_rel st' (a_exec (cmd_of rq) (fold ev_exec h a)) \<and> serial_reply (fold ev_exec h a) (cmd_of rq) (reply_of r)"
proof -
  have rel: "db_rel (sh_storage (sy_shared y)) (fold ev_exec h a)" and up: "\<not> sy_poisoned y"
    using inv by (simp_all add: serial_inv_def)
  obtain r y1 where "run_section fs rq y = (r, y1)" by force
  then have "within fs (cmd_of rq) (fold ev_exec h a)" using wi section_of_simps(1) [OF up pc] by (simp add: all_within_append)
  moreover have "client_inv (sh_owner (sy_shared y)) (sy_poisoned y) i (sy_clients y i)" using sys by (simp add: system_inv_def)
  then have "cmd_of rq \<noteq> Begin" using pc by (cases rq) (auto simp: client_inv_def)
  ultimately have "legal fs (cmd_of rq) (fold ev_exec h a)" by (simp add: legal_def)
  then show ?thesis by (rule section_runs [OF rel]) blast
qed

lemma claimed_alone: "system_inv y \<Longrightarrow> pc_of y i = Claimed \<Longrightarrow> \<not> in_txn y j"
proof
  assume "system_inv y" "pc_of y i = Claimed" "in_txn y j"
  then have "client_inv (sh_owner (sy_shared y)) (sy_poisoned y) k (sy_clients y k)" for k by (simp add: system_inv_def)
  from this [of i] this [of j] show False using \<open>pc_of y i = Claimed\<close> \<open>in_txn y j\<close> by (auto simp: client_inv_def)
qed

lemma claimed_runs:
  assumes inv: "serial_inv a h y" and sys: "system_inv y" and pc: "pc_of y i = Claimed"
  shows "\<exists>st'. run_section fs RqBegin y = (Inr Done, y\<lparr>sy_shared := (sy_shared y)\<lparr>sh_storage := st'\<rparr>\<rparr>) \<and>
    db_rel st' (a_exec Begin (fold ev_exec h a))"
proof -
  have rel: "db_rel (sh_storage (sy_shared y)) (fold ev_exec h a)" using inv by (simp add: serial_inv_def)
  have "legal fs (cmd_of RqBegin) (fold ev_exec h a)" using inv claimed_alone [OF sys pc] by (simp add: serial_inv_def)
  then show ?thesis
  proof (rule section_runs [OF rel])
    fix r st' assume "run_section fs RqBegin y = (r, y\<lparr>sy_shared := (sy_shared y)\<lparr>sh_storage := st'\<rparr>\<rparr>)" "returns r"
      "db_rel st' (a_exec (cmd_of RqBegin) (fold ev_exec h a))" "serial_reply (fold ev_exec h a) (cmd_of RqBegin) (reply_of r)"
    then show ?thesis by (cases r) (auto simp: serial_reply_def)
  qed
qed

text \<open>Steps without a section.\<close>

lemma idle_goto:
  assumes "serial_inv a h y" "section_of fs i y = []" "sh_storage (sy_shared y1) = sh_storage (sy_shared y)" "sy_poisoned y1 = sy_poisoned y"
    "sy_clients y1 = sy_clients y" "b = in_txn y i" "\<And>rq rp. p \<noteq> Releasing rq rp"
  shows "serial_inv a (h @ section_of fs i y) (goto i p b y1)"
proof -
  have "\<forall>j. replied h j (sy_clients y j)" using assms(1) by (simp add: serial_inv_def)
  then show ?thesis
    using assms(2-7) plain_move [OF assms(1), of "goto i p b y1"] replied_goto [of h y1 p i] by auto
qed

lemma idle_answer:
  assumes "serial_inv a h y" "section_of fs i y = []" "sh_storage (sy_shared y1) = sh_storage (sy_shared y)" "sy_poisoned y1 = sy_poisoned y"
    "sy_clients y1 = sy_clients y" "b = in_txn y i" "made h i rp"
  shows "serial_inv a (h @ section_of fs i y) (answer i rp b y1)"
proof -
  have "\<forall>j. replied h j (sy_clients y j)" using assms(1) by (simp add: serial_inv_def)
  then show ?thesis
    using assms(2-7) plain_move [OF assms(1), of "answer i rp b y1"] replied_answer [of h y1 i rp] by auto
qed

lemma idle_queue:
  assumes "serial_inv a h y" "section_of fs i y = []"
  shows "serial_inv a (h @ section_of fs i y) (y\<lparr>sy_waiting := W\<rparr>)"
  using assms by (simp add: serial_inv_def holder_def)

lemma step_serial:
  assumes st: "step fs i y y'" and inv: "serial_inv a h y" and sys: "system_inv y"
    and wi: "all_within (ev_within fs) ev_exec (h @ section_of fs i y) a"
  shows "serial_inv a (h @ section_of fs i y) y'"
proof -
  have ci: "client_inv (sh_owner (sy_shared y)) (sy_poisoned y) i (sy_clients y i)"
    using sys by (simp add: system_inv_def)
  have up: "\<not> sy_poisoned y" and enr: "enrolled (fold ev_exec h a) = {} \<or> in_txn y i \<or> (\<exists>j. j \<noteq> i \<and> in_txn y j)"
    using inv unfolding serial_inv_def by (blast, metis)
  obtain ow where ow: "turns h None = Some ow" "holder y ow" using inv by (auto simp: serial_inv_def)
  note passed = passed_runs [OF inv sys _ wi] and plain = idle_goto [OF inv] idle_answer [OF inv]
  from st show ?thesis
  proof cases
    case (exec rq r y1)
    then show ?thesis
      using enr passed [OF exec(2)] gated_enrolled [OF gated_cmd_of [OF exec(3)]] turn_simps(1) [OF exec(3)] ow(2)
      unfolding section_of_simps(1) [OF up exec(2,5)] exec(1)
      by (auto simp: holder_def intro!: section_answer [OF inv _ _ _ _ ow])
  next
    case (exec_begin r y1)
    have "ow = None" using claimed_alone [OF sys exec_begin(2)] ow(2) by (cases ow) (auto simp: holder_def)
    with exec_begin show ?thesis
      using claimed_runs [where fs = fs, OF inv sys exec_begin(2)]
      unfolding section_of_simps(2) [OF up exec_begin(2,4)] exec_begin(1)
      by (auto simp: serial_reply_def turn_simps intro!: section_answer [OF inv _ _ _ _ ow] exI [of _ AUnit])
  next
    case (fail_begin msg y1)
    then show ?thesis using claimed_runs [where fs = fs, OF inv sys fail_begin(2)] by auto
  next
    case (exec_end rq r y1)
    have "ow = Some i" using ow(2) ci exec_end(2,3) by (cases rq) (auto simp: client_inv_def holder_def)
    with exec_end show ?thesis
      using turn_simps(3) [OF exec_end(3)] passed [OF exec_end(2)] enrolled_end [OF exec_end(3)]
      unfolding section_of_simps(1) [OF up exec_end(2,5)] exec_end(1)
      by (auto intro!: section_release [OF inv _ _ _ _ ow])
  next
    case (panic rq y1)
    then show ?thesis using passed [of rq] claimed_runs [where fs = fs and i = i, OF inv sys] by auto
  next
    case (release rq rp)
    have "made h i rp" using inv release(2) by (auto simp: replied_def serial_inv_def)
    then show ?thesis
      unfolding release(1)
      by (intro plain) (use release ci section_of_simps(3) in \<open>auto simp: release_gate_def client_inv_def\<close>)
  next
    case (release_drop rp)
    then show ?thesis
      unfolding release_drop(1)
      by (intro plain) (use ci section_of_simps(3) in \<open>auto simp: release_gate_def client_inv_def\<close>)
  next
    case (wait rq)
    then show ?thesis unfolding wait(1) by (intro idle_queue [OF inv] section_of_simps(3)) simp
  next
    case (wake rq)
    then show ?thesis unfolding wake(1) by (intro idle_queue [OF inv] section_of_simps(3)) simp
  qed (use ci up in \<open>auto intro!: plain section_of_simps(3) simp: client_inv_def made_def\<close>)
qed

text \<open>The whole run.\<close>

lemma execution_serial:
  assumes "execution fs st h y" "db_rel st a" "enrolled a = {}" "all_within (ev_within fs) ev_exec h a"
  shows "serial_inv a h y"
  using assms
proof (induction rule: execution.induct)
  case start
  then show ?case by (simp add: serial_inv_def init_system_def shared_new_def replied_def holder_def)
next
  case (more h y i y')
  then have "serial_inv a h y" by (simp add: all_within_append)
  then show ?case
    using step_serial [OF more(2)] reachable_inv [OF execution_reachable [OF more(1)]] more.prems by blast
qed

section \<open>One request while the others rest\<close>

definition resting :: "system \<Rightarrow> bool" where
  "resting y \<longleftrightarrow> (\<forall>i. pc_of y i = Idle \<and> \<not> in_txn y i) \<and> sh_owner (sy_shared y) = None \<and> \<not> sy_poisoned y \<and> sy_waiting y = {}"

lemma resting_init: "resting (init_system st)"
  by (simp add: resting_def init_system_def shared_new_def)

lemma request_steps:
  assumes rest: "resting y" and g: "gated rq" and rel: "db_rel (sh_storage (sy_shared y)) a" and wi: "within fs (cmd_of rq) a"
  obtains rp y2 y3 where "step fs i y (goto i (AtGate rq) False y)" "step fs i (goto i (AtGate rq) False y) y2" "step fs i y2 y3"
    "section_of fs i (goto i (AtGate rq) False y) = []" "pc_of y2 i = Passed rq"
    "section_of fs i y2 = [\<lparr>ev_session = i, ev_request = rq, ev_reply = rp\<rparr>]" "resting y3" "cl_reply (sy_clients y3 i) = Some rp"
    "db_rel (sh_storage (sy_shared y3)) (a_exec (cmd_of rq) a)" "serial_reply a (cmd_of rq) rp"
proof -
  let ?y1 = "goto i (AtGate rq) False y" and ?y2 = "goto i (Passed rq) False y"
  have r: "pc_of y j = Idle" "\<not> in_txn y j" "sh_owner (sy_shared y) = None" "\<not> sy_poisoned y" "sy_waiting y = {}" for j
    using rest by (simp_all add: resting_def)
  have "legal fs (cmd_of rq) a" using wi g by (cases rq) (simp_all add: legal_def)
  then obtain r st' where sec: "run_section fs rq ?y2 = (r, ?y2\<lparr>sy_shared := (sy_shared ?y2)\<lparr>sh_storage := st'\<rparr>\<rparr>)" "returns r"
    "db_rel st' (a_exec (cmd_of rq) a)" "serial_reply a (cmd_of rq) (reply_of r)"
    using section_runs [of ?y2 a fs rq] rel by (metis goto_simps(1))
  let ?y3 = "answer i (reply_of r) False (?y2\<lparr>sy_shared := (sy_shared ?y2)\<lparr>sh_storage := st'\<rparr>\<rparr>)"
  show ?thesis
  proof (rule that)
    show "step fs i y ?y1" using step.call [of y i rq fs] r g by simp
    show "step fs i ?y1 ?y2" using step.pass [of ?y1 i rq fs] r g by (simp add: goto_goto gate_open_def)
    show "step fs i ?y2 ?y3" using step.exec [of ?y2 i rq fs r] r g sec by simp
    show "section_of fs i ?y1 = []" using section_of_simps(3) [of ?y1 i rq] by simp
    show "section_of fs i ?y2 = [\<lparr>ev_session = i, ev_request = rq, ev_reply = reply_of r\<rparr>]"
      using section_of_simps(1) [of ?y2 i rq fs, OF _ _ sec(1)] r by simp
  qed (use r sec in \<open>simp_all add: resting_def\<close>)
qed

lemma request_run:
  assumes ex: "execution fs st h y" and rest: "resting y" and g: "gated rq"
    and rel: "db_rel (sh_storage (sy_shared y)) a" and wi: "within fs (cmd_of rq) a"
  shows "\<exists>rp y'. execution fs st (h @ [\<lparr>ev_session = i, ev_request = rq, ev_reply = rp\<rparr>]) y' \<and> resting y' \<and>
    db_rel (sh_storage (sy_shared y')) (a_exec (cmd_of rq) a)"
proof (rule request_steps [where i = i, OF rest g rel wi])
  fix rp y2 y3
  assume s: "step fs i y (goto i (AtGate rq) False y)" "step fs i (goto i (AtGate rq) False y) y2" "step fs i y2 y3"
    "section_of fs i (goto i (AtGate rq) False y) = []" "section_of fs i y2 = [\<lparr>ev_session = i, ev_request = rq, ev_reply = rp\<rparr>]"
    and y3: "resting y3" "db_rel (sh_storage (sy_shared y3)) (a_exec (cmd_of rq) a)"
  have "section_of fs i y = []" using rest section_of_simps(3) by (auto simp: resting_def)
  from execution.more [OF execution.more [OF execution.more [OF ex s(1)] s(2)] s(3)] this s(4,5) y3 show ?thesis by auto
qed

end
