(* ===== verification/Session_Props.thy ===== *)
theory Session_Props
  imports Concurrency_Spec
begin

text \<open>
  The properties of \<open>src/session.rs\<close>: one transaction at a time, no deadlock at the gate,
  isolation once nobody is past the gate, the interleaving that breaks isolation, and the
  rollback of a session that ends inside a transaction.
\<close>

section \<open>Who moves when\<close>

definition quiet :: "u64 \<Rightarrow> system \<Rightarrow> bool" where
  "quiet i y \<longleftrightarrow> sh_owner (sy_shared y) = Some i \<and> (\<forall>j rq. j \<noteq> i \<longrightarrow> pc_of y j \<noteq> Passed rq)"

inductive others :: "files \<Rightarrow> u64 \<Rightarrow> system \<Rightarrow> system \<Rightarrow> bool" for fs i y where
  none: "others fs i y y"
| one: "others fs i y y' \<Longrightarrow> step fs j y' y'' \<Longrightarrow> j \<noteq> i \<Longrightarrow> others fs i y y''"

lemma step_quiet:
  assumes st: "step fs j y y'" and inv: "system_inv y" and q: "quiet i y" and other: "j \<noteq> i"
  shows "sy_shared y' = sy_shared y \<and> quiet i y' \<and> sy_clients y' i = sy_clients y i"
proof -
  have cj: "client_inv (sh_owner (sy_shared y)) (sy_poisoned y) j (sy_clients y j)"
    using inv by (simp add: system_inv_def)
  have own: "sh_owner (sy_shared y) = Some i" and np: "pc_of y j \<noteq> Passed rq" for rq
    using q other by (simp_all add: quiet_def)
  have out: "\<not> in_txn y j" "pc_of y j \<noteq> Claimed" "pc_of y j \<noteq> Releasing rq rp" for rq rp
    using cj own other by (auto simp: client_inv_def split: pc.splits)
  show ?thesis
    using st
    by cases (use q out np own other in \<open>auto simp: quiet_def gate_open_def goto_def answer_def\<close>)
qed

lemma storage_begin_returns: "\<exists>r s'. storage_begin s = (r, s') \<and> (r = Inr () \<or> (\<exists>msg. r = Inl (Fail msg)))"
proof -
  have "\<exists>r ts'. each_store (on_pager pager_begin) ts = (r, ts') \<and> (r = Inr () \<or> (\<exists>msg. r = Inl (Fail msg)))" for ts
  proof (induction ts)
    case (Cons x ts)
    obtain n t where x: "x = (n, t)" by force
    show ?case using Cons by (auto simp: x on_pager_def pager_begin_def split: prod.splits)
  qed simp
  then obtain r ts' where "each_store (on_pager pager_begin) (tables s) = (r, ts')" "r = Inr () \<or> (\<exists>msg. r = Inl (Fail msg))"
    by blast
  then show ?thesis by (simp add: storage_begin_def all_tables_def)
qed

section \<open>Runs\<close>

definition some_step :: "files \<Rightarrow> system \<Rightarrow> system \<Rightarrow> bool" where
  "some_step fs y y' \<longleftrightarrow> (\<exists>i. step fs i y y')"

abbreviation steps :: "files \<Rightarrow> system \<Rightarrow> system \<Rightarrow> bool" where
  "steps fs \<equiv> (some_step fs)\<^sup>*\<^sup>*"

lemma reachable_steps: "steps fs y y' \<Longrightarrow> reachable fs st y \<Longrightarrow> reachable fs st y'"
  by (induction rule: rtranclp_induct) (auto simp: some_step_def intro: reachable.more)

lemma stepsI: "step fs i y y1 \<Longrightarrow> steps fs y1 y2 \<Longrightarrow> steps fs y y2"
  by (rule converse_rtranclp_into_rtranclp [of "some_step fs"]) (auto simp: some_step_def)

text \<open>A BEGIN that nobody disturbs, a request brought past the gate, its section, a ROLLBACK.\<close>

lemma answer_goto: "answer i rp b (goto i p c y) = answer i rp b y"
  by (simp add: goto_def answer_def)

lemma shared_goto: "(goto i p b y)\<lparr>sy_shared := sh\<rparr> = goto i p b (y\<lparr>sy_shared := sh\<rparr>)"
  by (simp add: goto_def)

lemma begin_run:
  assumes "pc_of y i = Idle" "\<not> in_txn y i" "sy_shared y = \<lparr>sh_storage = st, sh_owner = None\<rparr>" "\<not> sy_poisoned y" "sy_waiting y = {}"
    and "storage_begin st = (Inr (), st')"
  shows "steps fs y (answer i Done True (y\<lparr>sy_shared := \<lparr>sh_storage = st', sh_owner = Some i\<rparr>\<rparr>))"
proof -
  let ?y1 = "goto i (AtGate RqBegin) False y"
  let ?y2 = "goto i Claimed False (?y1\<lparr>sy_shared := (sy_shared ?y1)\<lparr>sh_owner := Some i\<rparr>\<rparr>)"
  let ?y3 = "?y2\<lparr>sy_shared := \<lparr>sh_storage = st', sh_owner = Some i\<rparr>\<rparr>"
  have "step fs i y ?y1" using assms by (intro step.call_begin)
  moreover have "step fs i ?y1 ?y2" using assms by (intro step.claim) simp_all
  moreover have "run_section fs RqBegin ?y2 = (Inr Done, ?y3)"
    using assms by (simp add: run_section_def locked_def sbind_def ret_def)
  then have "step fs i ?y2 (answer i Done True ?y3)" using assms by (intro step.exec_begin) simp_all
  moreover have "answer i Done True ?y3 = answer i Done True (y\<lparr>sy_shared := \<lparr>sh_storage = st', sh_owner = Some i\<rparr>\<rparr>)"
    by (simp add: shared_goto answer_goto)
  ultimately show ?thesis by (metis stepsI rtranclp.rtrancl_refl)
qed

lemma pass_run:
  assumes "pc_of y i = Idle" "\<not> in_txn y i" "gated rq" "gate_open i (sy_shared y)" "sy_waiting y = {}"
  shows "steps fs y (goto i (Passed rq) False y)"
proof -
  have "step fs i y (goto i (AtGate rq) False y)" using step.call [of y i rq fs] assms by simp
  moreover have "step fs i (goto i (AtGate rq) False y) (goto i (Passed rq) False y)"
    using step.pass [of "goto i (AtGate rq) False y" i rq fs] assms by (simp add: goto_goto)
  ultimately show ?thesis by (metis stepsI rtranclp.rtrancl_refl)
qed

lemma rollback_run:
  assumes "pc_of y i = Idle" "in_txn y i" "sy_shared y = \<lparr>sh_storage = st, sh_owner = Some i\<rparr>" "\<not> sy_poisoned y" "sy_waiting y = {}"
    and "storage_rollback st = (Inr (), st')"
  shows "steps fs y (answer i Done False (y\<lparr>sy_shared := \<lparr>sh_storage = st', sh_owner = None\<rparr>\<rparr>))"
proof -
  let ?y1 = "goto i (Passed RqRollback) True y"
  let ?y2 = "?y1\<lparr>sy_shared := \<lparr>sh_storage = st', sh_owner = Some i\<rparr>\<rparr>"
  let ?y3 = "goto i (Releasing RqRollback Done) False ?y2"
  have "step fs i y ?y1" using assms by (intro step.call_end) simp_all
  moreover have "run_section fs RqRollback ?y1 = (Inr Done, ?y2)"
    using assms by (simp add: run_section_def locked_def sbind_def ret_def)
  then have "step fs i ?y1 ?y3" using step.exec_end [of ?y1 i RqRollback fs "Inr Done" ?y2] assms by simp
  moreover have "step fs i ?y3 (answer i Done False (leave_gate i ?y3))"
    by (rule step.release [where rq = RqRollback and rp = Done]) simp_all
  moreover have "y\<lparr>sy_waiting := {}\<rparr> = y" using assms(5) by (cases y) simp
  then have "leave_gate i ?y3 = goto i (Releasing RqRollback Done) False (goto i (Passed RqRollback) True
      (y\<lparr>sy_shared := \<lparr>sh_storage = st', sh_owner = None\<rparr>\<rparr>))"
    by (cases y) (simp add: leave_gate_def release_gate_def goto_def)
  then have "answer i Done False (leave_gate i ?y3) = answer i Done False (y\<lparr>sy_shared := \<lparr>sh_storage = st', sh_owner = None\<rparr>\<rparr>)"
    by (simp add: goto_goto answer_goto)
  ultimately show ?thesis by (metis stepsI rtranclp.rtrancl_refl)
qed

text \<open>Session 1 in a transaction, all others between requests.\<close>

definition begun_system :: system where
  "begun_system = answer 1 Done True ((init_system storage_new)\<lparr>sy_shared := \<lparr>sh_storage = storage_new, sh_owner = Some 1\<rparr>\<rparr>)"

lemma begun_reachable: "reachable fs storage_new begun_system"
proof -
  have "storage_begin storage_new = (Inr (), storage_new)"
    by (simp add: storage_begin_def all_tables_def storage_new_def)
  then have "steps fs (init_system storage_new) begun_system"
    unfolding begun_system_def by (intro begin_run) (simp_all add: init_system_def shared_new_def)
  then show ?thesis using reachable_steps reachable.start by blast
qed

lemma begun_simps: "pc_of begun_system j = Idle" "in_txn begun_system j \<longleftrightarrow> j = 1" "sh_owner (sy_shared begun_system) = Some 1"
  "\<not> sy_poisoned begun_system" "sy_waiting begun_system = {}"
  by (simp_all add: begun_system_def init_system_def)

section \<open>Properties\<close>

text \<open>Property C3. A session that nobody disturbs refines the abstract database: in any sequence
  of its operations, right or wrong, transactions included, each returns the result of the
  abstract operation (a nested BEGIN and a COMMIT outside a transaction their messages), and
  afterwards the tables represent the abstract database and the gate is owned exactly while
  the session is in a transaction. The accepted operations are \<open>within\<close> the limits of the
  storage (files, schema size, row length, rows per table); what is refused is not limited.\<close>

theorem session_refines:
  assumes "session_rel s x" "session_legal fs cs x"
  shows "ok (session_cmds fs cs) s (\<lambda>rs s'. session_answers x cs rs \<and> session_rel s' (fold s_exec cs x))"
  using assms by (rule ses.runs)

definition demo_mixed :: "cmd list" where
  "demo_mixed = [CreateTable ''users'' demo_columns, Commit, Begin, Insert ''users'' [VInteger 2, VText ''bob''], Begin,
     Insert ''cars'' [], Commit]"

lemma demo_mixed_legal: "session_legal (\<lambda>_. ([], [])) demo_mixed (False, a_new)"
  by (simp add: demo_mixed_def a_new_def demo_columns_ok demo_row a_create_def a_begin_def a_insert_def MAX_PAGES_def
      s_within_def good_row_accepted)

theorem session_refines_witness:
  "ok (session_cmds (\<lambda>_. ([], [])) demo_mixed) demo_session
     (\<lambda>rs s'. rs = [Inr AUnit, Inl (Fail ''No active transaction.''), Inr AUnit, Inr AUnit, Inl (Fail ''Already in a transaction.''),
         Inl (Fail ''Table 'cars' not found.''), Inr AUnit] \<and>
       sh_owner (ss_shared s') = None \<and> (\<exists>a. db_rel (sh_storage (ss_shared s')) a \<and> durable a ''users'' = Some (demo_columns, {#bob#})))"
  by (rule ok_mono [OF session_refines [OF demo_session_rel demo_mixed_legal]])
    (auto simp: demo_mixed_def bob_def a_new_def a_create_def a_begin_def a_insert_def a_commit_def demo_row good_row_accepted
      all_replies_Cons all_replies_Nil s_answers_def answers_def no_table_def quoted_def)

text \<open>Property C20. A client that disconnects inside a transaction of INSERT, SELECT and \<open>.btree\<close>
  commands leaves no trace: its session's \<open>Drop\<close> undoes the rows it inserted and opens the gate
  for the others. (The commands are within the limits of the storage; a table created in the
  transaction would survive it, as another property shows.)\<close>

theorem disconnect_rolls_back:
  assumes rel: "session_rel s (False, a)" and cmds: "list_all row_cmd cs" "session_legal fs (Begin # cs) (False, a)"
  shows "ok (sbind (session_cmds fs (Begin # cs)) (\<lambda>_. session_drop)) s
    (\<lambda>_ s'. db_rel (sh_storage (ss_shared s')) a \<and> sh_owner (ss_shared s') = None)"
proof (rule ses.runs_then [OF rel cmds(2)])
  fix rs s' assume s': "session_rel s' (fold s_exec (Begin # cs) (False, a))"
  have "s_drop (fold s_exec (Begin # cs) (False, a)) = (False, a)"
    using row_cmds_exec [OF cmds(1)] row_txn_rolls_back [OF _ _ cmds(1)] rel by fastforce
  with session_drop_sim [OF s']
  show "ok session_drop s' (\<lambda>_ s''. db_rel (sh_storage (ss_shared s'')) a \<and> sh_owner (ss_shared s'') = None)"
    by (auto elim!: ok_mono)
qed

theorem disconnect_rolls_back_witness:
  "ok (session_cmds (\<lambda>_. ([], [])) [CreateTable ''users'' demo_columns]) demo_session (\<lambda>_ s.
     ok (sbind (session_cmds (\<lambda>_. ([], [])) [Begin, Insert ''users'' [VInteger 7, VText ''eve'']]) (\<lambda>_. session_drop)) s
       (\<lambda>_ s'. db_rel (sh_storage (ss_shared s')) (a_create ''users'' demo_columns a_new)))"
proof -
  have c: "session_legal (\<lambda>_. ([], [])) [CreateTable ''users'' demo_columns] (False, a_new)"
    by (simp add: demo_columns_ok a_new_def s_within_def)
  have l: "session_legal (\<lambda>_. ([], [])) [Begin, Insert ''users'' [VInteger 7, VText ''eve'']] (False, a_create ''users'' demo_columns a_new)"
    by (simp add: a_new_def demo_row a_create_def a_begin_def s_within_def MAX_PAGES_def)
  show ?thesis
  proof (rule ok_mono [OF ses.runs [OF demo_session_rel c]])
    fix rs s assume "session_answers (False, a_new) [CreateTable ''users'' demo_columns] rs \<and>
      session_rel s (fold s_exec [CreateTable ''users'' demo_columns] (False, a_new))"
    then have "session_rel s (False, a_create ''users'' demo_columns a_new)" by (simp add: a_new_def)
    from disconnect_rolls_back [OF this _ l]
    show "ok (sbind (session_cmds (\<lambda>_. ([], [])) [Begin, Insert ''users'' [VInteger 7, VText ''eve'']]) (\<lambda>_. session_drop)) s
       (\<lambda>_ s'. db_rel (sh_storage (ss_shared s')) (a_create ''users'' demo_columns a_new))"
      by (auto elim!: ok_mono)
  qed
qed

text \<open>Property C4. Interleaved sessions whose performed sections are \<open>within\<close> the limits of the
  storage (files, schema size, row length, rows per table) are serializable: whatever the schedule, performing the
  sections of all sessions one after the other, in the order in which they held the storage
  lock, on the abstract database gives every reply and the tables at the end. Transactions in
  this order never overlap, the session inside one is the one that says so, every reply a
  client has seen comes from one of its sections (or refuses a nested BEGIN or a COMMIT
  outside a transaction), and no panic poisons the lock. (Beyond the limits a panic can: a
  wide schema poisons it.)\<close>

theorem sessions_serializable:
  assumes "execution fs st h y" "db_rel st a" "enrolled a = {}" "all_within (ev_within fs) ev_exec h a"
  shows "serial a h \<and> db_rel (sh_storage (sy_shared y)) (fold ev_exec h a) \<and> \<not> sy_poisoned y \<and>
    (\<exists>ow. turns h None = Some ow \<and> (\<forall>i. in_txn y i \<longleftrightarrow> ow = Some i)) \<and>
    (\<forall>i rp. cl_reply (sy_clients y i) = Some rp \<longrightarrow> made h i rp)"
  using execution_serial [OF assms] by (simp add: serial_inv_def holder_def replied_def)

theorem sessions_serializable_witness:
  "\<exists>h y. execution (\<lambda>_. ([], [])) storage_new h y \<and> map ev_session h = [1, 2, 1] \<and>
     map ev_request h = [RqCreate ''users'' demo_columns, RqInsert ''users'' [VInteger 2, VText ''bob''], RqSelect ''users''] \<and>
     serial a_new h \<and> ev_reply (h ! 2) = Rows [''id'', ''name''] [bob] \<and> db_rel (sh_storage (sy_shared y)) demo_db"
proof -
  let ?fs = "\<lambda>_. ([], [])" and ?a1 = "a_create ''users'' demo_columns a_new"
  let ?r1 = "RqCreate ''users'' demo_columns" and ?r2 = "RqInsert ''users'' [VInteger 2, VText ''bob'']" and ?r3 = "RqSelect ''users''"
  have w1: "within ?fs (cmd_of ?r1) a_new" and e1: "a_exec (cmd_of ?r1) a_new = ?a1" by (simp_all add: a_new_def demo_columns_ok)
  have t1: "working ?a1 ''users'' = Some (demo_columns, {#})" by (simp add: a_create_def)
  have w2: "within ?fs (cmd_of ?r2) ?a1" and e2: "a_exec (cmd_of ?r2) ?a1 = demo_db"
    using t1 e1 by (simp_all add: demo_row MAX_PAGES_def demo_db_def demo_cmds_def)
  have w3: "within ?fs (cmd_of ?r3) demo_db" and e3: "a_exec (cmd_of ?r3) demo_db = demo_db" by simp_all
  have start: "resting (init_system storage_new)" "db_rel (sh_storage (sy_shared (init_system storage_new))) a_new"
    using db_rel_new by (simp_all add: resting_def init_system_def shared_new_def)
  obtain p1 y1 where y1: "execution ?fs storage_new [\<lparr>ev_session = 1, ev_request = ?r1, ev_reply = p1\<rparr>] y1" "resting y1"
    "db_rel (sh_storage (sy_shared y1)) ?a1"
    using request_run [OF execution.start start(1) _ start(2) w1, of 1] e1 by auto
  obtain p2 y2 where y2: "execution ?fs storage_new [\<lparr>ev_session = 1, ev_request = ?r1, ev_reply = p1\<rparr>,
      \<lparr>ev_session = 2, ev_request = ?r2, ev_reply = p2\<rparr>] y2" "resting y2" "db_rel (sh_storage (sy_shared y2)) demo_db"
    using request_run [OF y1(1,2) _ y1(3) w2, of 2] unfolding e2 by auto
  obtain p3 y3 where y3: "execution ?fs storage_new [\<lparr>ev_session = 1, ev_request = ?r1, ev_reply = p1\<rparr>,
      \<lparr>ev_session = 2, ev_request = ?r2, ev_reply = p2\<rparr>, \<lparr>ev_session = 1, ev_request = ?r3, ev_reply = p3\<rparr>] y3"
    using request_run [OF y2(1,2) _ y2(3) w3, of 1] by auto
  let ?h = "[\<lparr>ev_session = 1, ev_request = ?r1, ev_reply = p1\<rparr>, \<lparr>ev_session = 2, ev_request = ?r2, ev_reply = p2\<rparr>,
    \<lparr>ev_session = 1, ev_request = ?r3, ev_reply = p3\<rparr>] :: history"
  have "all_within (ev_within ?fs) ev_exec ?h a_new" unfolding all_within.simps event.simps using w1 w2 w3 e1 e2 by simp
  from sessions_serializable [OF y3 db_rel_new _ this]
  have s: "serial a_new ?h" "db_rel (sh_storage (sy_shared y3)) (fold ev_exec ?h a_new)" by (simp_all add: a_new_def)
  have f: "fold ev_exec ?h a_new = demo_db" using e1 e2 by simp
  have "serial_reply demo_db (cmd_of ?r3) p3" using s(1) e1 e2 by simp
  then have "p3 = Rows [''id'', ''name''] [bob]"
    using demo_db(1) by (auto simp: serial_reply_def shows_table_def demo_columns_def)
  with y3 s f show ?thesis by (intro exI [of _ ?h] exI [of _ y3]) simp
qed

text \<open>Property C10. At most one session is inside a transaction, and it owns the gate.\<close>

theorem one_transaction_at_a_time:
  assumes "reachable fs st y" "in_txn y i" "in_txn y j"
  shows "i = j \<and> sh_owner (sy_shared y) = Some i"
proof -
  have "client_inv (sh_owner (sy_shared y)) (sy_poisoned y) k (sy_clients y k)" for k
    using reachable_inv [OF assms(1)] by (simp add: system_inv_def)
  from this [of i] this [of j] assms(2,3) show ?thesis by (simp add: client_inv_def)
qed

theorem one_transaction_at_a_time_witness: "in_txn begun_system 1 \<and> sh_owner (sy_shared begun_system) = Some 1"
  using one_transaction_at_a_time [OF begun_reachable, of 1 1] by (simp add: begun_simps)

text \<open>Property C17. Once a session owns the gate and no other session is between the gate and the
  storage lock, the others cannot touch the storage, however they move: nothing changes but
  what the owner does.\<close>

theorem transaction_isolated:
  assumes "reachable fs st y" "quiet i y" "others fs i y y'"
  shows "sy_shared y' = sy_shared y \<and> quiet i y'"
proof -
  from assms(3) have "sy_shared y' = sy_shared y \<and> quiet i y' \<and> system_inv y'"
  proof (induction rule: others.induct)
    case none
    show ?case using assms(2) reachable_inv [OF assms(1)] by simp
  next
    case (one y1 j y2)
    then show ?case using step_quiet [OF one(2) _ _ one(3)] step_inv [OF one(2)] by metis
  qed
  then show ?thesis by simp
qed

theorem transaction_isolated_witness:
  "\<exists>y'. others (\<lambda>_. ([], [])) 1 begun_system y' \<and> pc_of y' 2 = AtGate (RqSelect ''t'') \<and> sy_shared y' = sy_shared begun_system"
proof -
  let ?y = "goto 2 (AtGate (RqSelect ''t'')) False begun_system"
  have "step (\<lambda>_. ([], [])) 2 begun_system ?y"
    using step.call [of begun_system 2 "RqSelect ''t''" "\<lambda>_. ([], [])"] by (simp add: begun_simps)
  then have o: "others (\<lambda>_. ([], [])) 1 begun_system ?y" by (rule others.one [OF others.none]) simp
  have "quiet 1 begun_system" by (simp add: quiet_def begun_simps)
  from transaction_isolated [OF begun_reachable this o] o show ?thesis by (intro exI [of _ ?y]) simp
qed

text \<open>The session that holds the gate does not wait, and can move, unless its section does not
  return.\<close>

lemma waiting_owner: "reachable fs st y \<Longrightarrow> i \<in> sy_waiting y \<Longrightarrow> \<exists>j. j \<noteq> i \<and> sh_owner (sy_shared y) = Some j"
  using reachable_queue by (auto simp: queue_inv_def)

lemma owner_moves:
  assumes reach: "reachable fs st y" and healthy: "\<not> sy_poisoned y" and owner: "sh_owner (sy_shared y) = Some j"
  shows "(\<exists>y'. step fs j y y') \<or> (\<exists>rq. pc_of y j = Passed rq \<and> fst (run_section fs rq y) = Inl Diverge)"
proof -
  have inv: "client_inv (sh_owner (sy_shared y)) (sy_poisoned y) j (sy_clients y j)"
    using reachable_inv [OF reach] by (simp add: system_inv_def)
  show ?thesis
  proof (cases "pc_of y j")
    case Idle
    then show ?thesis using step.end_outside step.begin_again by blast
  next
    case (AtGate q)
    then have "gated q" "gate_open j (sy_shared y)" "j \<notin> sy_waiting y"
      using inv owner waiting_owner [OF reach, of j] by (auto simp: client_inv_def gate_open_def)
    then show ?thesis using step.pass [OF AtGate] by blast
  next
    case (Passed q)
    obtain r y' where run: "run_section fs q y = (r, y')" by force
    have q: "gated q \<or> ends_txn q" using inv Passed by (auto simp: client_inv_def)
    show ?thesis
    proof (cases "returns r")
      case True
      then show ?thesis using q step.exec [OF Passed _ healthy run True] step.exec_end [OF Passed _ healthy run True] by blast
    next
      case False
      then have "r = Inl Panic \<or> r = Inl Diverge" by (cases r rule: returns.cases) auto
      then show ?thesis using Passed run step.panic [of y j q fs y'] healthy by auto
    qed
  next
    case Claimed
    obtain r s' where "storage_begin (sh_storage (sy_shared y)) = (r, s')" "r = Inr () \<or> (\<exists>msg. r = Inl (Fail msg))"
      using storage_begin_returns by blast
    then have "\<exists>y' r. run_section fs RqBegin y = (Inr r, y') \<or> (\<exists>msg. run_section fs RqBegin y = (Inl (Fail msg), y'))"
      by (auto simp: run_section_def locked_def sbind_def ret_def)
    then show ?thesis using step.exec_begin [OF Claimed healthy] step.fail_begin [OF Claimed healthy] by blast
  next
    case (Releasing q rp)
    then show ?thesis using step.release [of y j q rp] step.release_drop [of y j rp] by blast
  qed (use inv owner healthy in \<open>auto simp: client_inv_def\<close>)
qed

text \<open>Property C18. Nobody waits at the gate for nothing, and no wake-up is lost. In every reachable
  state a session that sleeps on the condition variable finds the gate owned by another
  session (whoever leaves the gate wakes all sleepers). While no panic has poisoned the
  storage lock, a session in front of the gate is awake and can pass it at once, or another
  session owns the gate, which can make a step itself, unless the storage operation it is
  performing never returns.\<close>

theorem gate_no_deadlock:
  assumes reach: "reachable fs st y" and wait: "pc_of y i = AtGate rq"
  shows "(i \<in> sy_waiting y \<longrightarrow> (\<exists>j. j \<noteq> i \<and> sh_owner (sy_shared y) = Some j)) \<and>
    (\<not> sy_poisoned y \<longrightarrow>
      (i \<notin> sy_waiting y \<and> (\<exists>y'. step fs i y y' \<and> pc_of y' i \<in> {Passed rq, Claimed})) \<or>
      (\<exists>j. j \<noteq> i \<and> sh_owner (sy_shared y) = Some j \<and>
        ((\<exists>y'. step fs j y y') \<or> (\<exists>rq. pc_of y j = Passed rq \<and> fst (run_section fs rq y) = Inl Diverge))))"
proof (rule conjI, use waiting_owner [OF reach] in blast, rule impI)
  assume healthy: "\<not> sy_poisoned y"
  have inv: "client_inv (sh_owner (sy_shared y)) (sy_poisoned y) k (sy_clients y k)" for k
    using reachable_inv [OF reach] by (simp add: system_inv_def)
  have rq: "gated rq \<or> rq = RqBegin \<and> sh_owner (sy_shared y) \<noteq> Some i"
    using inv [of i] wait by (auto simp: client_inv_def)
  show "(i \<notin> sy_waiting y \<and> (\<exists>y'. step fs i y y' \<and> pc_of y' i \<in> {Passed rq, Claimed})) \<or>
    (\<exists>j. j \<noteq> i \<and> sh_owner (sy_shared y) = Some j \<and>
      ((\<exists>y'. step fs j y y') \<or> (\<exists>rq. pc_of y j = Passed rq \<and> fst (run_section fs rq y) = Inl Diverge)))"
  proof (cases "\<exists>j. j \<noteq> i \<and> sh_owner (sy_shared y) = Some j")
    case False
    then have awake: "i \<notin> sy_waiting y" using waiting_owner [OF reach] by blast
    from False have "gate_open i (sy_shared y)" "rq = RqBegin \<longrightarrow> \<not> gated rq \<longrightarrow> sh_owner (sy_shared y) = None"
      using rq by (cases "sh_owner (sy_shared y)"; auto simp: gate_open_def)+
    then have "\<exists>y'. step fs i y y' \<and> pc_of y' i \<in> {Passed rq, Claimed}"
      using rq wait awake step.pass [of y i rq fs] step.claim [of y i fs]
      by (cases "gated rq") (fastforce, fastforce)
    with awake show ?thesis by blast
  next
    case True
    then obtain j where j: "j \<noteq> i" "sh_owner (sy_shared y) = Some j" by blast
    with owner_moves [OF reach healthy j(2)] show ?thesis by blast
  qed
qed

theorem gate_no_deadlock_witness:
  "\<exists>y. reachable (\<lambda>_. ([], [])) storage_new y \<and> pc_of y 2 = AtGate RqBegin \<and> 2 \<in> sy_waiting y \<and>
     (\<exists>j. j \<noteq> 2 \<and> sh_owner (sy_shared y) = Some j \<and> ((\<exists>y'. step (\<lambda>_. ([], [])) j y y') \<or>
        (\<exists>rq. pc_of y j = Passed rq \<and> fst (run_section (\<lambda>_. ([], [])) rq y) = Inl Diverge)))"
proof -
  let ?y1 = "goto 2 (AtGate RqBegin) False begun_system"
  let ?y = "?y1\<lparr>sy_waiting := insert 2 (sy_waiting ?y1)\<rparr>"
  have "step (\<lambda>_. ([], [])) 2 begun_system ?y1"
    by (rule step.call_begin) (simp_all add: begun_simps)
  moreover have "step (\<lambda>_. ([], [])) 2 ?y1 ?y"
    by (rule step.wait [where rq = RqBegin]) (simp_all add: begun_simps must_wait_def)
  ultimately have r: "reachable (\<lambda>_. ([], [])) storage_new ?y" by (blast intro: reachable.more begun_reachable)
  from gate_no_deadlock [OF r, of 2 RqBegin] r show ?thesis
    by (intro exI [of _ ?y]) (simp add: begun_simps)
qed

text \<open>Property C36. The gate is checked and released before the storage lock is taken: an INSERT that
  passed the gate can run inside a transaction that began meanwhile. Its session is told
  that the row is in, the row is not on disk, and the other session's ROLLBACK removes it.\<close>

theorem insert_slips_into_transaction:
  assumes rel: "db_rel st a" "enrolled a = {}" and tab: "working a n = Some (cs, R)"
    and row: "good_row cs \<lparr>row_values = vs\<rparr>" "2 * size R + 2 \<le> MAX_PAGES" and ij: "i \<noteq> j"
  shows "\<exists>y1 y2 y3. reachable fs st y1 \<and> in_txn y1 i \<and> step fs j y1 y2 \<and> cl_reply (sy_clients y2 j) = Some Done \<and>
    \<not> in_txn y2 j \<and> steps fs y2 y3 \<and> (\<forall>k. pc_of y3 k = Idle \<and> \<not> in_txn y3 k) \<and> db_rel (sh_storage (sy_shared y3)) a"
proof -
  let ?rq = "RqInsert n vs"
  obtain st1 where b: "storage_begin st = (Inr (), st1)" "db_rel st1 (a_begin a)"
    using begin_sim [OF rel] by (auto elim!: okE)
  have tab': "working (a_begin a) n = Some (cs, R)" using tab by (simp add: a_begin_def)
  obtain st2 where ins: "insert_into n vs st1 = (Inr (), st2)" "db_rel st2 (a_insert n \<lparr>row_values = vs\<rparr> (a_begin a))"
    using insert_sim [OF b(2) tab' row] by (auto elim!: okE)
  obtain st3 where rb: "storage_rollback st2 = (Inr (), st3)" "db_rel st3 (a_rollback (a_insert n \<lparr>row_values = vs\<rparr> (a_begin a)))"
    using rollback_sim [OF ins(2)] by (auto elim!: okE)
  have "a_rollback (a_insert n \<lparr>row_values = vs\<rparr> (a_begin a)) = a"
    using db_rel_settled [OF rel] rel(2) tab by (auto simp: a_rollback_def a_insert_def a_begin_def)
  then have same: "db_rel st3 a" using rb(2) by simp
  let ?y0 = "init_system st"
  let ?w = "goto j (Passed ?rq) False ?y0"
  let ?y1 = "answer i Done True (?w\<lparr>sy_shared := \<lparr>sh_storage = st1, sh_owner = Some i\<rparr>\<rparr>)"
  let ?y1' = "?y1\<lparr>sy_shared := \<lparr>sh_storage = st2, sh_owner = Some i\<rparr>\<rparr>"
  let ?y2 = "answer j Done False ?y1'"
  let ?y3 = "answer i Done False (?y2\<lparr>sy_shared := \<lparr>sh_storage = st3, sh_owner = None\<rparr>\<rparr>)"
  have "steps fs ?y0 ?w"
    by (rule pass_run) (simp_all add: init_system_def shared_new_def gate_open_def)
  moreover have "steps fs ?w ?y1"
    by (rule begin_run [OF _ _ _ _ _ b(1)]) (use ij in \<open>simp_all add: init_system_def shared_new_def\<close>)
  ultimately have "reachable fs st ?y1" using reachable_steps reachable.start by (metis rtranclp_trans)
  moreover have "run_section fs ?rq ?y1 = (Inr Done, ?y1')"
    using ins(1) by (simp add: run_section_def locked_def sbind_def ret_def)
  then have "step fs j ?y1 ?y2"
    using step.exec [of ?y1 j ?rq fs "Inr Done" ?y1'] ij by (simp add: init_system_def)
  moreover have "steps fs ?y2 ?y3"
    by (rule rollback_run [OF _ _ _ _ _ rb(1)]) (use ij in \<open>simp_all add: init_system_def\<close>)
  ultimately show ?thesis
    using same ij by (intro exI [of _ ?y1] exI [of _ ?y2] exI [of _ ?y3]) (simp add: init_system_def)
qed

theorem insert_slips_into_transaction_witness:
  "ok (create_table (\<lambda>_. ([], [])) ''users'' demo_columns) storage_new (\<lambda>_ st. \<exists>y1 y2 y3.
     reachable (\<lambda>_. ([], [])) st y1 \<and> in_txn y1 1 \<and> step (\<lambda>_. ([], [])) 2 y1 y2 \<and>
     cl_reply (sy_clients y2 2) = Some Done \<and> \<not> in_txn y2 2 \<and> steps (\<lambda>_. ([], [])) y2 y3 \<and>
     (\<forall>k. pc_of y3 k = Idle \<and> \<not> in_txn y3 k) \<and>
     db_rel (sh_storage (sy_shared y3)) (a_create ''users'' demo_columns a_new))"
proof (rule ok_mono [OF demo_created])
  fix st assume rel: "db_rel st (a_create ''users'' demo_columns a_new)"
  show "\<exists>y1 y2 y3. reachable (\<lambda>_. ([], [])) st y1 \<and> in_txn y1 1 \<and> step (\<lambda>_. ([], [])) 2 y1 y2 \<and>
     cl_reply (sy_clients y2 2) = Some Done \<and> \<not> in_txn y2 2 \<and> steps (\<lambda>_. ([], [])) y2 y3 \<and>
     (\<forall>k. pc_of y3 k = Idle \<and> \<not> in_txn y3 k) \<and>
     db_rel (sh_storage (sy_shared y3)) (a_create ''users'' demo_columns a_new)"
    by (rule insert_slips_into_transaction [OF rel, of "''users''" demo_columns "{#}" "[VInteger 7, VText ''eve'']"])
      (simp_all only: demo_row, simp_all add: a_create_def a_new_def MAX_PAGES_def)
qed

end
