(* ===== verification/Strings.thy ===== *)
theory Strings
  imports Utf8
begin

text \<open>
  The methods of \<open>str\<close> that the parser, the executor and the server use, on the bytes of a
  string: search, checked slices, splitting, trimming, number parsing and case mapping.
  Slices panic where Rust's do: out of range, or inside a character. \<open>to_uppercase\<close> maps
  ASCII letters itself; the upper case of a character outside ASCII is Unicode data, a
  parameter \<open>uc\<close> of everything that depends on it.
\<close>

section \<open>Searching\<close>

fun starts_with :: "string \<Rightarrow> string \<Rightarrow> bool" where
  "starts_with [] s = True"
| "starts_with (p # ps) [] = False"
| "starts_with (p # ps) (c # cs) = (p = c \<and> starts_with ps cs)"

definition ends_with :: "string \<Rightarrow> string \<Rightarrow> bool" where
  "ends_with p s = starts_with (rev p) (rev s)"

text \<open>\<open>find\<close> and \<open>rfind\<close>: the first and the last place where a pattern occurs.\<close>

fun str_find :: "string \<Rightarrow> string \<Rightarrow> nat option" where
  "str_find p [] = (if starts_with p [] then Some 0 else None)"
| "str_find p (c # cs) = (if starts_with p (c # cs) then Some 0 else map_option Suc (str_find p cs))"

fun str_rfind :: "char \<Rightarrow> string \<Rightarrow> nat option" where
  "str_rfind p [] = None"
| "str_rfind p (c # cs) =
     (case str_rfind p cs of Some i \<Rightarrow> Some (Suc i) | None \<Rightarrow> if c = p then Some 0 else None)"

definition contains :: "string \<Rightarrow> string \<Rightarrow> bool" where
  "contains p s \<longleftrightarrow> str_find p s \<noteq> None"

text \<open>\<open>strip_prefix\<close>\<close>

definition strip_prefix :: "string \<Rightarrow> string \<Rightarrow> string option" where
  "strip_prefix p s = (if starts_with p s then Some (drop (length p) s) else None)"

section \<open>Slices\<close>

definition continues :: "char \<Rightarrow> bool" where
  "continues c \<longleftrightarrow> 128 \<le> (of_char c :: nat) \<and> of_char c < (192 :: nat)"

definition is_char_boundary :: "string \<Rightarrow> nat \<Rightarrow> bool" where
  "is_char_boundary s i \<longleftrightarrow> i = length s \<or> i < length s \<and> \<not> continues (s ! i)"

text \<open>\<open>&s[a..]\<close>, \<open>&s[..b]\<close> and \<open>s.get(a..b)\<close>\<close>

definition slice_from :: "nat \<Rightarrow> string \<Rightarrow> string result" where
  "slice_from a s = (if is_char_boundary s a then Inr (drop a s) else Inl Panic)"

definition slice_to :: "nat \<Rightarrow> string \<Rightarrow> string result" where
  "slice_to b s = (if is_char_boundary s b then Inr (take b s) else Inl Panic)"

definition str_get :: "nat \<Rightarrow> nat \<Rightarrow> string \<Rightarrow> string option" where
  "str_get a b s =
     (if a \<le> b \<and> is_char_boundary s a \<and> is_char_boundary s b then Some (drop a (take b s)) else None)"

section \<open>Splitting and trimming\<close>

fun split_on :: "char \<Rightarrow> string \<Rightarrow> string list" where
  "split_on d [] = [[]]"
| "split_on d (c # cs) =
     (if c = d then [] # split_on d cs
      else (case split_on d cs of [] \<Rightarrow> [[c]] | w # ws \<Rightarrow> (c # w) # ws))"

text \<open>\<open>splitn(2, d)\<close>\<close>

definition splitn2 :: "char \<Rightarrow> string \<Rightarrow> string list" where
  "splitn2 d s = (case str_find [d] s of None \<Rightarrow> [s] | Some i \<Rightarrow> [take i s, drop (Suc i) s])"

text \<open>Drop matches of a set of patterns from the front as long as there is one.\<close>

function strip_front :: "string list \<Rightarrow> string \<Rightarrow> string" where
  "strip_front ps s =
     (case find (\<lambda>p. p \<noteq> [] \<and> starts_with p s) ps of
        None \<Rightarrow> s
      | Some p \<Rightarrow> strip_front ps (drop (length p) s))"
  by pat_completeness auto
termination
proof (relation "measure (\<lambda>(ps, s). length s)")
  fix ps :: "string list" and s p
  assume "find (\<lambda>p. p \<noteq> [] \<and> starts_with p s) ps = Some p"
  then have "p \<noteq> []" "starts_with p s" by (auto simp: find_Some_iff)
  then show "((ps, drop (length p) s), ps, s) \<in> measure (\<lambda>(ps, s). length s)"
    by (cases s; cases p) auto
qed simp

declare strip_front.simps [simp del]

definition strip_back :: "string list \<Rightarrow> string \<Rightarrow> string" where
  "strip_back ps s = rev (strip_front (map rev ps) (rev s))"

text \<open>The characters with Unicode's \<open>White_Space\<close> property, in UTF-8.\<close>

definition white_space :: "string list" where
  "white_space =
     [[CHR 0x20], [CHR 0x09], [CHR 0x0A], [CHR 0x0B], [CHR 0x0C], [CHR 0x0D],
      [CHR 0xC2, CHR 0x85], [CHR 0xC2, CHR 0xA0], [CHR 0xE1, CHR 0x9A, CHR 0x80],
      [CHR 0xE2, CHR 0x80, CHR 0x80], [CHR 0xE2, CHR 0x80, CHR 0x81], [CHR 0xE2, CHR 0x80, CHR 0x82],
      [CHR 0xE2, CHR 0x80, CHR 0x83], [CHR 0xE2, CHR 0x80, CHR 0x84], [CHR 0xE2, CHR 0x80, CHR 0x85],
      [CHR 0xE2, CHR 0x80, CHR 0x86], [CHR 0xE2, CHR 0x80, CHR 0x87], [CHR 0xE2, CHR 0x80, CHR 0x88],
      [CHR 0xE2, CHR 0x80, CHR 0x89], [CHR 0xE2, CHR 0x80, CHR 0x8A], [CHR 0xE2, CHR 0x80, CHR 0xA8],
      [CHR 0xE2, CHR 0x80, CHR 0xA9], [CHR 0xE2, CHR 0x80, CHR 0xAF], [CHR 0xE2, CHR 0x81, CHR 0x9F],
      [CHR 0xE3, CHR 0x80, CHR 0x80]]"

definition trim :: "string \<Rightarrow> string" where
  "trim s = strip_back white_space (strip_front white_space s)"

definition trim_matches :: "char \<Rightarrow> string \<Rightarrow> string" where
  "trim_matches c s = strip_back [[c]] (strip_front [[c]] s)"

text \<open>\<open>join(sep)\<close>\<close>

fun join_with :: "string \<Rightarrow> string list \<Rightarrow> string" where
  "join_with sep [] = ''''"
| "join_with sep [x] = x"
| "join_with sep (x # xs) = x @ sep @ join_with sep xs"

section \<open>Numbers\<close>

definition is_digit :: "char \<Rightarrow> bool" where
  "is_digit c \<longleftrightarrow> 48 \<le> (of_char c :: nat) \<and> of_char c \<le> (57 :: nat)"

definition digit_value :: "char \<Rightarrow> nat" where
  "digit_value c = of_char c - 48"

definition parse_digits :: "string \<Rightarrow> nat option" where
  "parse_digits s =
     (if s \<noteq> [] \<and> list_all is_digit s then Some (fold (\<lambda>c n. 10 * n + digit_value c) s 0) else None)"

text \<open>\<open>parse::<i64>()\<close> and \<open>parse::<u16>()\<close>\<close>

definition parse_i64 :: "string \<Rightarrow> i64 option" where
  "parse_i64 s =
     (case s of
        [] \<Rightarrow> None
      | c # cs \<Rightarrow>
          if c = CHR ''-'' then
            (case parse_digits cs of None \<Rightarrow> None | Some n \<Rightarrow> if n \<le> 2 ^ 63 then Some (word_of_int (- int n)) else None)
          else
            (case parse_digits (if c = CHR ''+'' then cs else s) of
               None \<Rightarrow> None
             | Some n \<Rightarrow> if n < 2 ^ 63 then Some (word_of_int (int n)) else None))"

definition parse_u16 :: "string \<Rightarrow> u16 option" where
  "parse_u16 s =
     (case s of
        [] \<Rightarrow> None
      | c # cs \<Rightarrow>
          (case parse_digits (if c = CHR ''+'' then cs else s) of
             None \<Rightarrow> None
           | Some n \<Rightarrow> if n < 2 ^ 16 then Some (of_nat n) else None))"

section \<open>Case\<close>

definition ascii_upper :: "char \<Rightarrow> char" where
  "ascii_upper c = (if 97 \<le> (of_char c :: nat) \<and> of_char c \<le> (122 :: nat) then char_of (of_char c - (32 :: nat)) else c)"

definition ascii_lower :: "char \<Rightarrow> char" where
  "ascii_lower c = (if 65 \<le> (of_char c :: nat) \<and> of_char c \<le> (90 :: nat) then char_of (of_char c + (32 :: nat)) else c)"

definition eq_ignore_ascii_case :: "string \<Rightarrow> string \<Rightarrow> bool" where
  "eq_ignore_ascii_case s t \<longleftrightarrow> map ascii_lower s = map ascii_lower t"

definition char_width :: "char \<Rightarrow> nat" where
  "char_width c =
     (let n = (of_char c :: nat) in if n < 128 then 1 else if n < 224 then 2 else if n < 240 then 3 else 4)"

function to_uppercase :: "(string \<Rightarrow> string) \<Rightarrow> string \<Rightarrow> string" where
  "to_uppercase uc [] = []"
| "to_uppercase uc (c # cs) =
     (if (of_char c :: nat) < 128 then ascii_upper c # to_uppercase uc cs
      else uc (take (char_width c) (c # cs)) @ to_uppercase uc (drop (char_width c) (c # cs)))"
  by pat_completeness auto
termination
  by (relation "measure (\<lambda>(uc, s). length s)") (auto simp: char_width_def Let_def)

section \<open>Facts: searching\<close>

lemma starts_with_append: "starts_with p (p @ s)"
  by (induction p) auto

lemma starts_with_iff: "starts_with p s \<longleftrightarrow> take (length p) s = p"
  by (induction p s rule: starts_with.induct) auto

lemma starts_with_length: "starts_with p s \<Longrightarrow> length p \<le> length s"
  by (induction p s rule: starts_with.induct) auto

lemma starts_with_cut: "d \<notin> set p \<Longrightarrow> starts_with p (xs @ d # ys) = starts_with p xs"
proof (induction p arbitrary: xs)
  case (Cons c p)
  then show ?case by (cases xs) auto
qed simp

lemma starts_with_nil [simp]: "starts_with p [] \<longleftrightarrow> p = []"
  by (cases p) auto

text \<open>A pattern without the separator occurs before it or behind it.\<close>

lemma str_find_sep:
  assumes "d \<notin> set p" "p \<noteq> []"
  shows "str_find p (xs @ d # ys) =
    (case str_find p xs of Some i \<Rightarrow> Some i | None \<Rightarrow> map_option (\<lambda>i. Suc (length xs + i)) (str_find p ys))"
proof (induction xs)
  case Nil
  have "\<not> starts_with p (d # ys)" using assms by (cases p) auto
  then show ?case using assms(2) by simp
next
  case (Cons c xs)
  show ?case
    using Cons starts_with_cut [OF assms(1), of "c # xs" ys]
    by (auto simp: option.map_comp o_def split: option.splits)
qed

lemma str_find_at: "str_find p (p @ s) = Some 0"
  using starts_with_append [of p s] by (cases "p @ s") auto

lemma str_find_char: "c \<notin> set xs \<Longrightarrow> str_find [c] (xs @ c # ys) = Some (length xs)"
  by (induction xs) auto

lemma str_find_char_none: "str_find [c] xs = None \<longleftrightarrow> c \<notin> set xs"
  by (induction xs) auto

lemma str_find_bound: "str_find p s = Some i \<Longrightarrow> i + length p \<le> length s"
proof (induction s arbitrary: i)
  case (Cons c cs)
  then show ?case using starts_with_length [of p "c # cs"] by (fastforce split: if_splits)
qed (simp split: if_splits)

lemma str_rfind_none: "str_rfind c xs = None \<longleftrightarrow> c \<notin> set xs"
  by (induction xs) (auto split: option.splits)

lemma str_rfind_char: "c \<notin> set ys \<Longrightarrow> str_rfind c (xs @ c # ys) = Some (length xs)"
  using str_rfind_none [of c ys] by (induction xs) (auto split: option.splits)

section \<open>Facts: slices\<close>

definition ascii :: "string \<Rightarrow> bool" where
  "ascii s \<longleftrightarrow> list_all (\<lambda>c. (of_char c :: nat) < 128) s"

lemma ascii_append [simp]: "ascii (xs @ ys) \<longleftrightarrow> ascii xs \<and> ascii ys"
  by (simp add: ascii_def)

lemma ascii_Cons [simp]: "ascii (c # xs) \<longleftrightarrow> (of_char c :: nat) < 128 \<and> ascii xs"
  by (simp add: ascii_def)

lemma ascii_Nil [simp]: "ascii []"
  by (simp add: ascii_def)

lemma ascii_sub: "set xs \<subseteq> set ys \<Longrightarrow> ascii ys \<Longrightarrow> ascii xs"
  by (auto simp: ascii_def list_all_iff)

lemma ascii_take: "ascii s \<Longrightarrow> ascii (take n s)"
  by (rule ascii_sub [OF set_take_subset])

lemma ascii_drop: "ascii s \<Longrightarrow> ascii (drop n s)"
  by (rule ascii_sub [OF set_drop_subset])

lemma ascii_boundary: "ascii s \<Longrightarrow> is_char_boundary s i \<longleftrightarrow> i \<le> length s"
  by (auto simp: ascii_def list_all_length is_char_boundary_def continues_def not_le)

lemma ascii_slice: "ascii s \<Longrightarrow> slice_from a s = (if a \<le> length s then Inr (drop a s) else Inl Panic)"
  "ascii s \<Longrightarrow> slice_to a s = (if a \<le> length s then Inr (take a s) else Inl Panic)"
  by (simp_all add: slice_from_def slice_to_def ascii_boundary)

lemma boundary_at: "s = [] \<or> \<not> continues (hd s) \<Longrightarrow> is_char_boundary (xs @ s) (length xs)"
  by (cases s) (auto simp: is_char_boundary_def nth_append)

lemma slice_append:
  assumes "s = [] \<or> \<not> continues (hd s)"
  shows "slice_from (length xs) (xs @ s) = Inr s" "slice_to (length xs) (xs @ s) = Inr xs"
  using boundary_at [OF assms] by (simp_all add: slice_from_def slice_to_def)

lemma str_get_middle:
  assumes "ys = [] \<or> \<not> continues (hd ys)" "zs = [] \<or> \<not> continues (hd zs)" "ys \<noteq> [] \<or> zs \<noteq> []"
  shows "str_get (length xs) (length xs + length ys) (xs @ ys @ zs) = Some ys"
proof -
  have "is_char_boundary (xs @ ys @ zs) (length xs)" using assms by (intro boundary_at) (cases ys; auto)
  moreover have "is_char_boundary (xs @ ys @ zs) (length xs + length ys)"
    using boundary_at [of zs "xs @ ys"] assms(2) by simp
  ultimately show ?thesis by (simp add: str_get_def)
qed

section \<open>Facts: trimming\<close>

definition trimmed :: "string \<Rightarrow> bool" where
  "trimmed s \<longleftrightarrow> s = [] \<or> list_all (\<lambda>w. \<not> starts_with w s \<and> \<not> ends_with w s) white_space"

lemma strip_front_stop: "(\<And>p. p \<in> set ps \<Longrightarrow> p = [] \<or> \<not> starts_with p s) \<Longrightarrow> strip_front ps s = s"
proof -
  assume "\<And>p. p \<in> set ps \<Longrightarrow> p = [] \<or> \<not> starts_with p s"
  then have "find (\<lambda>p. p \<noteq> [] \<and> starts_with p s) ps = None" by (auto simp: find_None_iff)
  then show ?thesis by (simp add: strip_front.simps)
qed

lemma strip_front_sub: "set (strip_front ps s) \<subseteq> set s"
proof (induction ps s rule: strip_front.induct)
  case (1 ps s)
  then show ?case
    by (subst strip_front.simps) (auto split: option.split dest: set_drop_subset [THEN subsetD])
qed

lemma trim_sub: "set (trim s) \<subseteq> set s"
  using strip_front_sub [of white_space s] strip_front_sub [of "map rev white_space" "rev (strip_front white_space s)"]
  by (auto simp: trim_def strip_back_def)

lemma ascii_trim: "ascii s \<Longrightarrow> ascii (trim s)"
  by (rule ascii_sub [OF trim_sub])

lemma trim_trimmed:
  assumes "trimmed s"
  shows "trim s = s"
proof -
  have st: "\<not> starts_with p s" "\<not> ends_with p s" if "p \<in> set white_space" "s \<noteq> []" for p
    using assms that by (auto simp: trimmed_def list_all_iff)
  have "strip_front white_space s = s"
    using st by (intro strip_front_stop) (metis starts_with_nil)
  moreover have "strip_front (map rev white_space) (rev s) = rev s"
    using st(2) by (intro strip_front_stop) (cases "s = []"; auto simp: ends_with_def)
  ultimately show ?thesis by (simp add: trim_def strip_back_def)
qed

lemma strip_front_done: "p \<in> set ps \<Longrightarrow> p \<noteq> [] \<Longrightarrow> \<not> starts_with p (strip_front ps s)"
proof (induction ps s rule: strip_front.induct)
  case (1 ps s)
  show ?case
  proof (cases "find (\<lambda>p. p \<noteq> [] \<and> starts_with p s) ps")
    case None
    then have "strip_front ps s = s" by (simp add: strip_front.simps)
    then show ?thesis using None 1(2,3) by (auto simp: find_None_iff)
  next
    case (Some q)
    then show ?thesis using 1 by (subst strip_front.simps) simp
  qed
qed

lemma strip_front_suffix: "\<exists>xs. s = xs @ strip_front ps s"
proof (induction ps s rule: strip_front.induct)
  case (1 ps s)
  show ?case
  proof (cases "find (\<lambda>p. p \<noteq> [] \<and> starts_with p s) ps")
    case (Some q)
    then obtain xs where "drop (length q) s = xs @ strip_front ps (drop (length q) s)" using 1 by blast
    moreover have "strip_front ps s = strip_front ps (drop (length q) s)" using Some by (simp add: strip_front.simps [of ps s])
    ultimately have "s = (take (length q) s @ xs) @ strip_front ps s" by (metis append.assoc append_take_drop_id)
    then show ?thesis by blast
  qed (subst strip_front.simps, simp)
qed

lemma trim_trim: "trim (trim s) = trim s"
proof (rule trim_trimmed)
  let ?t = "strip_front white_space s"
  have ne: "w \<noteq> []" if "w \<in> set white_space" for w using that by (auto simp: white_space_def)
  obtain xs where "rev ?t = xs @ strip_front (map rev white_space) (rev ?t)" using strip_front_suffix by blast
  then have "?t = trim s @ rev xs" unfolding trim_def strip_back_def by (metis rev_append rev_rev_ident)
  then have "\<not> starts_with w (trim s)" if "w \<in> set white_space" for w
    using strip_front_done [OF that ne [OF that], of s] by (auto simp: starts_with_iff)
  moreover have "\<not> ends_with w (trim s)" if "w \<in> set white_space" for w
    using strip_front_done [of "rev w" "map rev white_space" "rev ?t"] that ne [OF that]
    by (auto simp: trim_def strip_back_def ends_with_def)
  ultimately show "trimmed (trim s)" by (simp add: trimmed_def list_all_iff)
qed

lemma strip_front_space: "strip_front white_space (CHR '' '' # s) = strip_front white_space s"
  by (subst strip_front.simps) (simp add: white_space_def)

lemma trim_space: "trim (CHR '' '' # s) = trim s"
  by (simp add: trim_def strip_front_space)

lemma trimmed_Nil [simp]: "trimmed []"
  by (simp add: trimmed_def)

text \<open>An ASCII character other than the six white ones starts or ends no white space.\<close>

definition solid :: "char \<Rightarrow> bool" where
  "solid c \<longleftrightarrow> 32 < (of_char c :: nat) \<and> of_char c < (128 :: nat)"

lemma solid_ends:
  assumes "s \<noteq> []" "solid (hd s)" "solid (last s)"
  shows "trimmed s"
proof -
  have w: "\<not> solid (hd p) \<and> \<not> solid (last p) \<and> p \<noteq> []" if "p \<in> set white_space" for p
    using that by (auto simp: white_space_def solid_def)
  have "\<not> starts_with p s \<and> \<not> ends_with p s" if p: "p \<in> set white_space" for p
  proof -
    have st: "\<not> starts_with q t" if "q \<noteq> []" "t \<noteq> []" "hd q \<noteq> hd t" for q t :: string
      using that by (cases q; cases t) auto
    have "p \<noteq> []" "hd p \<noteq> hd s" "last p \<noteq> last s" using w [OF p] assms(2,3) by metis+
    then show ?thesis using assms(1) st [of p s] st [of "rev p" "rev s"] by (simp add: ends_with_def hd_rev)
  qed
  then show ?thesis by (simp add: trimmed_def list_all_iff)
qed

section \<open>Facts: splitting\<close>

lemma split_on_nonempty [simp]: "split_on d s \<noteq> []"
  by (induction s) (auto split: list.split)

lemma split_on_none: "d \<notin> set s \<Longrightarrow> split_on d s = [s]"
  by (induction s) auto

lemma split_on_append: "d \<notin> set xs \<Longrightarrow> split_on d (xs @ d # ys) = xs # split_on d ys"
  by (induction xs) auto

section \<open>Facts: case mapping\<close>

lemma to_uppercase_ascii_append: "ascii xs \<Longrightarrow> to_uppercase uc (xs @ ys) = map ascii_upper xs @ to_uppercase uc ys"
  by (induction xs) auto

lemma to_uppercase_ascii: "ascii xs \<Longrightarrow> to_uppercase uc xs = map ascii_upper xs"
  using to_uppercase_ascii_append [of xs uc "[]"] by simp

lemma length_to_uppercase: "ascii xs \<Longrightarrow> length (to_uppercase uc xs) = length xs"
  by (simp add: to_uppercase_ascii)

end
