(* ===== verification/Parser.thy ===== *)
theory Parser
  imports Types Strings
begin

text \<open>
  \<open>src/parser.rs\<close>: statements from text. The parser finds keywords in an upper-cased copy
  of the text and cuts the text itself at the positions found; a cut out of range or inside
  a character is a panic. \<open>uc\<close> is the upper case of characters outside ASCII.
\<close>

section \<open>Statements\<close>

datatype statement =
    SCreateTable string "column list"
  | SInsert string "cell_value list"
  | SSelect string "join_clause option" "expr option"
  | SBegin | SCommit | SRollback
  | SUnknown string

section \<open>The parts\<close>

text \<open>\<open>unwrap_or\<close>\<close>

definition unwrap_or :: "'a option \<Rightarrow> 'a \<Rightarrow> 'a" where
  "unwrap_or v d = (case v of Some x \<Rightarrow> x | None \<Rightarrow> d)"

definition parse_column :: "(string \<Rightarrow> string) \<Rightarrow> string \<Rightarrow> column option" where
  "parse_column uc col_def =
     (case splitn2 (CHR '' '') (trim col_def) of
        [name, ty] \<Rightarrow>
          (let t = to_uppercase uc (trim ty) in
           if t = ''INTEGER'' then Some \<lparr>col_name = name, col_type = TInteger\<rparr>
           else if t = ''TEXT'' then Some \<lparr>col_name = name, col_type = TText\<rparr>
           else None)
      | _ \<Rightarrow> None)"

definition parse_create_table :: "(string \<Rightarrow> string) \<Rightarrow> string \<Rightarrow> statement result" where
  "parse_create_table uc input =
     rbind (slice_from (length ''CREATE TABLE'') input) (\<lambda>rest. let rest = trim rest;
       paren_start = unwrap_or (str_find ''('' rest) (length rest) in
     rbind (slice_to paren_start rest) (\<lambda>name. let table_name = trim name;
       cols_str = trim (unwrap_or (str_get (paren_start + 1) (unwrap_or (str_rfind (CHR '')'') rest) (length rest)) rest) '''');
       columns = List.map_filter (parse_column uc) (split_on (CHR '','') cols_str) in
     Inr (SCreateTable table_name columns)))"

text \<open>A literal: a number, or text without its quotes.\<close>

definition parse_literal :: "string \<Rightarrow> cell_value" where
  "parse_literal v =
     (case parse_i64 v of
        Some n \<Rightarrow> VInteger n
      | None \<Rightarrow> VText (trim_matches (CHR 0x22) (trim_matches (CHR 0x27) v)))"

definition parse_insert :: "(string \<Rightarrow> string) \<Rightarrow> string \<Rightarrow> statement result" where
  "parse_insert uc input =
     rbind (slice_from (length ''INSERT INTO'') input) (\<lambda>rest. let rest = trim rest;
       values_keyword = unwrap_or (str_find ''VALUES'' (to_uppercase uc rest)) (length rest) in
     rbind (slice_to values_keyword rest) (\<lambda>name. let table_name = trim name;
       paren_start = unwrap_or (str_find ''('' rest) (length rest);
       paren_end = unwrap_or (str_rfind (CHR '')'') rest) (length rest);
       vals_str = trim (unwrap_or (str_get (paren_start + 1) paren_end rest) '''') in
     Inr (SInsert table_name (map (\<lambda>v. parse_literal (trim v)) (split_on (CHR '','') vals_str)))))"

text \<open>The operators in the order in which they are tried.\<close>

fun parse_where_ops :: "(string \<times> comp_op) list \<Rightarrow> string \<Rightarrow> expr option result" where
  "parse_where_ops [] cond = Inr None"
| "parse_where_ops ((pat, op) # ops) cond =
     (case str_find pat cond of
        None \<Rightarrow> parse_where_ops ops cond
      | Some pos \<Rightarrow>
          rbind (slice_to pos cond) (\<lambda>col.
          rbind (slice_from (pos + length pat) cond) (\<lambda>raw.
          Inr (Some \<lparr>expr_column = trim col, expr_op = op, expr_value = parse_literal (trim raw)\<rparr>))))"

definition parse_where :: "string \<Rightarrow> expr option result" where
  "parse_where = parse_where_ops [(''='', CEq), (''>'', CGt), (''<'', CLt)]"

text \<open>\<open>if let Some(w) = rem_upper.find("WHERE")\<close>: the text before it and the condition behind it.\<close>

definition split_where :: "(string \<Rightarrow> string) \<Rightarrow> string \<Rightarrow> (string \<times> expr option) result" where
  "split_where uc remainder =
     (case str_find ''WHERE'' (to_uppercase uc remainder) of
        Some w \<Rightarrow>
          rbind (slice_to w remainder) (\<lambda>tname.
          rbind (slice_from (w + length ''WHERE'') remainder) (\<lambda>cond.
          rbind (parse_where (trim cond)) (\<lambda>e. Inr (trim tname, e))))
      | None \<Rightarrow> Inr (trim remainder, None))"

text \<open>The WHERE clause behind a JOIN; what stands before the keyword is not looked at.\<close>

definition where_behind :: "(string \<Rightarrow> string) \<Rightarrow> string \<Rightarrow> expr option result" where
  "where_behind uc remainder =
     (case str_find ''WHERE'' (to_uppercase uc remainder) of
        Some w \<Rightarrow> rbind (slice_from (w + length ''WHERE'') remainder) (\<lambda>cond. parse_where (trim cond))
      | None \<Rightarrow> Inr None)"

text \<open>The JOIN at position \<open>j\<close>: the left table, the clause and the text behind its condition.\<close>

definition parse_join :: "(string \<Rightarrow> string) \<Rightarrow> nat \<Rightarrow> string \<Rightarrow> (string \<times> join_clause option \<times> string) result" where
  "parse_join uc j after_from =
     rbind (slice_to j after_from) (\<lambda>tname.
     rbind (slice_from (j + length ''JOIN'') after_from) (\<lambda>aj. let after_join = trim aj;
       on_pos = unwrap_or (str_find '' ON '' (to_uppercase uc after_join)) (length after_join) in
     rbind (slice_to on_pos after_join) (\<lambda>rt. let right_table = trim rt;
       after_on = trim (unwrap_or (str_get (on_pos + 4) (length after_join) after_join) '''') in
     rbind (case str_find ''WHERE'' (to_uppercase uc after_on) of
              Some w \<Rightarrow> rbind (slice_to w after_on) (\<lambda>c. rbind (slice_from w after_on) (\<lambda>r. Inr (trim c, trim r)))
            | None \<Rightarrow> Inr (after_on, '''')) (\<lambda>(on_cond, rest).
     rbind (case str_find ''='' on_cond of
              Some eq \<Rightarrow>
                rbind (slice_to eq on_cond) (\<lambda>lc. rbind (slice_from (eq + 1) on_cond) (\<lambda>rc.
                Inr (Some \<lparr>right_table = right_table, left_col = trim lc, right_col = trim rc\<rparr>)))
            | None \<Rightarrow> Inr None) (\<lambda>join.
     Inr (trim tname, join, rest))))))"

definition parse_select :: "(string \<Rightarrow> string) \<Rightarrow> string \<Rightarrow> statement result" where
  "parse_select uc input =
     (let from_pos = unwrap_or (str_find ''FROM'' (to_uppercase uc input)) (length input) in
      rbind (slice_from (from_pos + length ''FROM'') input) (\<lambda>af. let after_from = trim af in
      rbind (case str_find ''JOIN'' (to_uppercase uc after_from) of
               Some j \<Rightarrow> parse_join uc j after_from
             | None \<Rightarrow> Inr ('''', None, after_from)) (\<lambda>(table_name, join, remainder).
      rbind (if join = None then split_where uc remainder
             else rbind (where_behind uc remainder) (\<lambda>e. Inr (table_name, e))) (\<lambda>(table_name, where_clause).
      Inr (SSelect table_name join where_clause)))))"

section \<open>Statements from text\<close>

definition parse :: "(string \<Rightarrow> string) \<Rightarrow> string \<Rightarrow> statement result" where
  "parse uc input =
     (let input = trim input; upper = to_uppercase uc input in
      if starts_with ''CREATE TABLE'' upper then parse_create_table uc input
      else if starts_with ''INSERT INTO'' upper then parse_insert uc input
      else if starts_with ''SELECT'' upper then parse_select uc input
      else if upper = ''BEGIN'' then Inr SBegin
      else if upper = ''COMMIT'' then Inr SCommit
      else if upper = ''ROLLBACK'' then Inr SRollback
      else Inr (SUnknown input))"

end
