(* ===== verification/Parser_Spec.thy ===== *)
theory Parser_Spec
  imports Parser
begin

text \<open>
  Statements printed in a plain form, and the lemmas by which the parser reads them back.
  \<open>plain\<close> says which statements have such a form: names are words, no name contains a
  keyword that the parser looks for, text holds no comma and does not start or end with a
  quote. These are limits of the parser, not of SQL.
\<close>

section \<open>Words\<close>

definition word_char :: "char \<Rightarrow> bool" where
  "word_char c \<longleftrightarrow> (let n = (of_char c :: nat) in
     48 \<le> n \<and> n \<le> 57 \<or> 65 \<le> n \<and> n \<le> 90 \<or> 97 \<le> n \<and> n \<le> 122 \<or> n = 95)"

definition word :: "string \<Rightarrow> bool" where
  "word s \<longleftrightarrow> s \<noteq> [] \<and> list_all word_char s"

text \<open>A column reference, with or without its table.\<close>

definition col_ref :: "string \<Rightarrow> bool" where
  "col_ref s \<longleftrightarrow> s \<noteq> [] \<and> list_all (\<lambda>c. word_char c \<or> c = CHR ''.'') s"

definition solid_str :: "string \<Rightarrow> bool" where
  "solid_str s \<longleftrightarrow> s \<noteq> [] \<and> solid (hd s) \<and> solid (last s)"

lemma word_ref: "word s \<Longrightarrow> col_ref s"
  by (auto simp: word_def col_ref_def list_all_iff)

lemma ref_char: "word_char c \<or> c = CHR ''.'' \<Longrightarrow> solid c"
  by (auto simp: word_char_def solid_def Let_def)

lemma ref_solid: "col_ref s \<Longrightarrow> solid_str s"
  unfolding col_ref_def solid_str_def list_all_iff using ref_char hd_in_set last_in_set by metis

lemma ref_ascii: "col_ref s \<Longrightarrow> ascii s"
  using ref_char by (fastforce simp: col_ref_def ascii_def list_all_iff solid_def)

lemma ref_notin: "col_ref s \<Longrightarrow> \<not> word_char c \<Longrightarrow> c \<noteq> CHR ''.'' \<Longrightarrow> c \<notin> set s"
  by (auto simp: col_ref_def list_all_iff)

lemma word_notin: "word s \<Longrightarrow> \<not> word_char c \<Longrightarrow> c \<notin> set s"
  by (auto simp: word_def list_all_iff)

lemma solid_trimmed: "solid_str s \<Longrightarrow> trim s = s"
  by (rule trim_trimmed, rule solid_ends) (simp_all add: solid_str_def)

lemma solid_append: "solid_str s \<Longrightarrow> solid_str t \<Longrightarrow> solid_str (s @ u @ t)"
  by (auto simp: solid_str_def)

lemma solid_starts:
  assumes "solid c" "p \<in> set white_space"
  shows "\<not> starts_with p (c # s)" "\<not> starts_with (rev p) (c # s)" "p \<noteq> []"
proof -
  have "p \<noteq> [] \<and> \<not> solid (hd p) \<and> \<not> solid (hd (rev p))"
    using assms(2) by (auto simp: white_space_def solid_def)
  moreover have "\<not> starts_with q (c # s)" if "q \<noteq> []" "\<not> solid (hd q)" for q
    using that assms(1) by (cases q) auto
  ultimately show "\<not> starts_with p (c # s)" "\<not> starts_with (rev p) (c # s)" "p \<noteq> []"
    by simp_all
qed

lemma trim_space_end:
  assumes "solid_str s"
  shows "trim (s @ '' '') = s"
proof -
  obtain c cs where s: "s = c # cs" "solid c" using assms by (cases s) (auto simp: solid_str_def)
  have "strip_front white_space (s @ '' '') = s @ '' ''"
    unfolding s(1) by (rule strip_front_stop) (use solid_starts(1) [OF s(2)] in auto)
  moreover obtain d ds where r: "rev s = d # ds" "solid d"
    using assms by (cases s rule: rev_cases) (auto simp: solid_str_def)
  then have "strip_front (map rev white_space) (rev s) = rev s"
    using solid_starts(2) [OF r(2)] by (intro strip_front_stop) auto
  moreover have "strip_front (map rev white_space) (CHR '' '' # rev s) = strip_front (map rev white_space) (rev s)"
    by (subst strip_front.simps) (simp add: white_space_def)
  ultimately show ?thesis by (simp add: trim_def strip_back_def)
qed

lemma solid_not_continues: "solid c \<Longrightarrow> \<not> continues c"
  by (simp add: solid_def continues_def)

section \<open>Literals\<close>

fun sql_literal :: "cell_value \<Rightarrow> string" where
  "sql_literal (VInteger n) = show_int (sint n)"
| "sql_literal (VText s) = quoted s"
| "sql_literal VNull = ''NULL''"

definition is_quote :: "char \<Rightarrow> bool" where
  "is_quote c \<longleftrightarrow> c = CHR 0x27 \<or> c = CHR 0x22"

fun literal_ok :: "cell_value \<Rightarrow> bool" where
  "literal_ok (VInteger n) \<longleftrightarrow> True"
| "literal_ok (VText s) \<longleftrightarrow> CHR '','' \<notin> set s \<and> (s \<noteq> [] \<longrightarrow> \<not> is_quote (hd s) \<and> \<not> is_quote (last s))"
| "literal_ok VNull \<longleftrightarrow> False"

lemma show_nat_digits: "show_nat n \<noteq> [] \<and> list_all is_digit (show_nat n)"
proof (induction n rule: show_nat.induct)
  case (1 n)
  have "is_digit (char_of (48 + k))" if "k < 10" for k :: nat
    using that by (simp add: is_digit_def)
  then show ?case using 1 by (subst (1 2) show_nat.simps) auto
qed

lemma parse_show_nat: "parse_digits (show_nat n) = Some n"
proof -
  have "fold (\<lambda>c n. 10 * n + digit_value c) (show_nat n) 0 = n"
  proof (induction n rule: show_nat.induct)
    case (1 n)
    have "digit_value (char_of (48 + k)) = k" if "k < 10" for k :: nat
      using that by (simp add: digit_value_def)
    then show ?case using 1 by (subst show_nat.simps) auto
  qed
  then show ?thesis using show_nat_digits by (simp add: parse_digits_def)
qed

lemma parse_i64_show: "parse_i64 (show_int (sint (n :: i64))) = Some n"
proof -
  have r: "- (2 ^ 63) \<le> sint n" "sint n < 2 ^ 63"
    using sint_range_size [of n] by (simp_all add: word_size)
  show ?thesis
  proof (cases "sint n < 0")
    case True
    then have "parse_i64 (show_int (sint n)) = (if nat (- sint n) \<le> 2 ^ 63 then Some (word_of_int (sint n)) else None)"
      by (simp add: parse_i64_def show_int_def parse_show_nat)
    then show ?thesis using r by simp
  next
    case False
    obtain c cs where s: "show_nat (nat (sint n)) = c # cs" "is_digit c"
      using show_nat_digits [of "nat (sint n)"] by (cases "show_nat (nat (sint n))") auto
    then have "c \<noteq> CHR ''-''" "c \<noteq> CHR ''+''" by (auto simp: is_digit_def)
    then have "parse_i64 (show_int (sint n)) = (if nat (sint n) < 2 ^ 63 then Some (word_of_int (sint n)) else None)"
      using s False parse_show_nat [of "nat (sint n)"] by (simp add: parse_i64_def show_int_def)
    then show ?thesis using r by simp
  qed
qed

lemma strip_front_char:
  "strip_front [[c]] s = dropWhile (\<lambda>x. x = c) s"
proof (induction s)
  case (Cons x s)
  then show ?case by (subst strip_front.simps) auto
qed (simp add: strip_front.simps)

lemma trim_matches_alt: "trim_matches c s = rev (dropWhile (\<lambda>x. x = c) (rev (dropWhile (\<lambda>x. x = c) s)))"
  by (simp add: trim_matches_def strip_back_def strip_front_char)

lemma dropWhile_keep: "s = [] \<or> hd s \<noteq> c \<Longrightarrow> dropWhile (\<lambda>x. x = c) s = s"
  by (cases s) auto

lemma parse_literal_sql:
  assumes "literal_ok v"
  shows "parse_literal (sql_literal v) = v"
proof (cases v)
  case (VInteger n)
  then show ?thesis by (simp add: parse_literal_def parse_i64_show)
next
  case (VText s)
  have "parse_i64 (quoted s) = None"
    by (simp add: parse_i64_def quoted_def parse_digits_def is_digit_def)
  moreover have "trim_matches (CHR 0x27) (quoted s) = s"
  proof (cases "s = []")
    case False
    then have "hd s \<noteq> CHR 0x27" "hd (rev s) \<noteq> CHR 0x27" using assms VText by (auto simp: is_quote_def hd_rev)
    with False show ?thesis by (simp add: trim_matches_alt quoted_def dropWhile_keep)
  qed (simp add: trim_matches_alt quoted_def)
  moreover have "trim_matches (CHR 0x22) s = s"
  proof (cases "s = []")
    case False
    then have "hd s \<noteq> CHR 0x22" "hd (rev s) \<noteq> CHR 0x22" using assms VText by (auto simp: is_quote_def hd_rev)
    then show ?thesis by (simp add: trim_matches_alt dropWhile_keep)
  qed (simp add: trim_matches_alt)
  ultimately show ?thesis using VText by (simp add: parse_literal_def)
qed (use assms in simp)

lemma digit_solid: "is_digit c \<Longrightarrow> solid c"
  by (simp add: is_digit_def solid_def)

lemma show_int_solid: "solid_str (show_int i)"
proof -
  have "solid_str (show_nat n)" for n
    using show_nat_digits [of n] digit_solid by (auto simp: solid_str_def list_all_iff)
  then show ?thesis by (auto simp: show_int_def solid_str_def solid_def)
qed

lemma literal_solid: "solid_str (sql_literal v)"
proof (cases v)
  case (VInteger n)
  then show ?thesis by (simp add: show_int_solid)
qed (simp_all add: quoted_def solid_str_def solid_def)

lemma show_int_chars: "c \<in> set (show_int i) \<Longrightarrow> is_digit c \<or> c = CHR ''-''"
  using show_nat_digits by (auto simp: show_int_def list_all_iff split: if_splits)

lemma literal_no_comma: "literal_ok v \<Longrightarrow> CHR '','' \<notin> set (sql_literal v)"
  by (cases v) (auto simp: quoted_def is_digit_def dest: show_int_chars)

section \<open>Lists\<close>

abbreviation commas :: "string list \<Rightarrow> string" where
  "commas \<equiv> join_with '', ''"

lemma split_space: "map trim (split_on (CHR '','') (CHR '' '' # s)) = map trim (split_on (CHR '','') s)"
  by (auto simp: trim_space split: list.split)

lemma split_commas:
  "xs \<noteq> [] \<Longrightarrow> \<forall>x \<in> set xs. CHR '','' \<notin> set x \<Longrightarrow> map trim (split_on (CHR '','') (commas xs)) = map trim xs"
proof (induction "'', ''" xs rule: join_with.induct)
  case (3 x y ys)
  have "split_on (CHR '','') (commas (x # y # ys)) = x # split_on (CHR '','') (CHR '' '' # commas (y # ys))"
    using 3 by (simp add: split_on_append)
  then have "map trim (split_on (CHR '','') (commas (x # y # ys))) = trim x # map trim (split_on (CHR '','') (commas (y # ys)))"
    using split_space [of "commas (y # ys)"] by (simp only: list.map)
  with 3 show ?case by simp
qed (simp_all add: split_on_none)

lemma commas_solid: "xs \<noteq> [] \<Longrightarrow> \<forall>x \<in> set xs. solid_str x \<Longrightarrow> solid_str (commas xs)"
proof (induction "'', ''" xs rule: join_with.induct)
  case (3 x y ys)
  then show ?case using solid_append [of x "commas (y # ys)" "'', ''"] by simp
qed simp_all

section \<open>Statements\<close>

fun sql_type :: "data_type \<Rightarrow> string" where
  "sql_type TInteger = ''INTEGER''"
| "sql_type TText = ''TEXT''"

definition sql_column :: "column \<Rightarrow> string" where
  "sql_column c = col_name c @ '' '' @ sql_type (col_type c)"

fun sql_op :: "comp_op \<Rightarrow> string" where
  "sql_op CEq = ''=''"
| "sql_op CLt = ''<''"
| "sql_op CGt = ''>''"

definition sql_cond :: "expr \<Rightarrow> string" where
  "sql_cond e = expr_column e @ '' '' @ sql_op (expr_op e) @ '' '' @ sql_literal (expr_value e)"

definition sql_join :: "join_clause option \<Rightarrow> string" where
  "sql_join j = (case j of None \<Rightarrow> ''''
     | Some jc \<Rightarrow> '' JOIN '' @ right_table jc @ '' ON '' @ left_col jc @ '' = '' @ right_col jc)"

definition sql_where :: "expr option \<Rightarrow> string" where
  "sql_where w = (case w of None \<Rightarrow> '''' | Some e \<Rightarrow> '' WHERE '' @ sql_cond e)"

fun sql_of :: "statement \<Rightarrow> string" where
  "sql_of (SCreateTable n cs) = ''CREATE TABLE '' @ n @ '' ('' @ commas (map sql_column cs) @ '')''"
| "sql_of (SInsert n vs) = ''INSERT INTO '' @ n @ '' VALUES ('' @ commas (map sql_literal vs) @ '')''"
| "sql_of (SSelect n j w) = ''SELECT * FROM '' @ n @ sql_join j @ sql_where w"
| "sql_of SBegin = ''BEGIN''"
| "sql_of SCommit = ''COMMIT''"
| "sql_of SRollback = ''ROLLBACK''"
| "sql_of (SUnknown s) = s"

text \<open>No keyword inside: the parser looks for it in the upper-cased text, words or not.\<close>

definition free :: "(string \<Rightarrow> string) \<Rightarrow> string \<Rightarrow> string \<Rightarrow> bool" where
  "free uc p s \<longleftrightarrow> str_find p (to_uppercase uc s) = None"

fun plain_cond :: "expr \<Rightarrow> bool" where
  "plain_cond e \<longleftrightarrow> col_ref (expr_column e) \<and> literal_ok (expr_value e) \<and>
     (case expr_op e of
        CEq \<Rightarrow> True
      | CGt \<Rightarrow> CHR ''='' \<notin> set (sql_literal (expr_value e))
      | CLt \<Rightarrow> CHR ''='' \<notin> set (sql_literal (expr_value e)) \<and> CHR ''>'' \<notin> set (sql_literal (expr_value e)))"

fun plain_join :: "(string \<Rightarrow> string) \<Rightarrow> join_clause \<Rightarrow> bool" where
  "plain_join uc jc \<longleftrightarrow> word (right_table jc) \<and> col_ref (left_col jc) \<and> col_ref (right_col jc) \<and>
     free uc ''WHERE'' (left_col jc) \<and> free uc ''WHERE'' (right_col jc)"

fun plain :: "(string \<Rightarrow> string) \<Rightarrow> statement \<Rightarrow> bool" where
  "plain uc (SCreateTable n cs) \<longleftrightarrow> word n \<and> (\<forall>c \<in> set cs. word (col_name c))"
| "plain uc (SInsert n vs) \<longleftrightarrow> word n \<and> free uc ''VALUES'' n \<and> vs \<noteq> [] \<and> (\<forall>v \<in> set vs. literal_ok v)"
| "plain uc (SSelect n j w) \<longleftrightarrow> word n \<and> free uc ''JOIN'' n \<and>
     (case w of None \<Rightarrow> True | Some e \<Rightarrow> plain_cond e) \<and>
     (case j of
        Some jc \<Rightarrow> plain_join uc jc
      | None \<Rightarrow> free uc ''WHERE'' n \<and> (case w of None \<Rightarrow> True | Some e \<Rightarrow> free uc ''JOIN'' (sql_cond e)))"
| "plain uc (SUnknown s) \<longleftrightarrow> False"
| "plain uc _ \<longleftrightarrow> True"

section \<open>Reading them back\<close>

lemma parse_column_trim: "parse_column uc x = parse_column uc y" if "trim x = trim y"
  using that by (simp add: parse_column_def)

lemma parse_sql_column:
  assumes "word (col_name c)"
  shows "parse_column uc (sql_column c) = Some c"
proof -
  have ty: "solid_str (sql_type (col_type c))" by (cases "col_type c") (simp_all add: solid_str_def solid_def)
  have solid: "solid_str (sql_column c)"
    unfolding sql_column_def by (rule solid_append [OF ref_solid [OF word_ref [OF assms]] ty])
  have "CHR '' '' \<notin> set (col_name c)" using assms by (rule word_notin) (simp add: word_char_def)
  then have split: "splitn2 (CHR '' '') (sql_column c) = [col_name c, sql_type (col_type c)]"
    by (simp add: splitn2_def sql_column_def str_find_char)
  have "parse_column uc (sql_column c) = (let t = sql_type (col_type c) in
      if t = ''INTEGER'' then Some \<lparr>col_name = col_name c, col_type = TInteger\<rparr>
      else if t = ''TEXT'' then Some \<lparr>col_name = col_name c, col_type = TText\<rparr> else None)"
  proof -
    have "to_uppercase uc (sql_type (col_type c)) = sql_type (col_type c)"
      by (cases "col_type c") (simp_all add: ascii_upper_def)
    then show ?thesis unfolding parse_column_def solid_trimmed [OF solid] split by (simp add: solid_trimmed [OF ty])
  qed
  then show ?thesis by (cases c; cases "col_type c") simp_all
qed

lemma parse_columns:
  assumes "\<forall>c \<in> set cs. word (col_name c)"
  shows "List.map_filter (parse_column uc) (split_on (CHR '','') (trim (commas (map sql_column cs)))) = cs"
proof (cases "cs = []")
  case True
  have "parse_column uc '''' = None" by (simp add: parse_column_def splitn2_def trim_trimmed)
  with True show ?thesis by (simp add: trim_trimmed List.map_filter_simps)
next
  case False
  have ty: "solid_str (sql_type t)" "CHR '','' \<notin> set (sql_type t)" for t
    by (cases t; simp add: solid_str_def solid_def)+
  have "solid_str (sql_column c) \<and> CHR '','' \<notin> set (sql_column c)" if "c \<in> set cs" for c
    using solid_append [OF ref_solid [OF word_ref] ty(1), of "col_name c" "'' ''"]
      word_notin [of "col_name c" "CHR '',''"] ty assms that by (simp add: sql_column_def word_char_def)
  then have solid: "\<forall>x \<in> set (map sql_column cs). solid_str x" and nocomma: "\<forall>x \<in> set (map sql_column cs). CHR '','' \<notin> set x"
    by simp_all
  let ?parts = "split_on (CHR '','') (commas (map sql_column cs))"
  have "trim (commas (map sql_column cs)) = commas (map sql_column cs)"
    using commas_solid [OF _ solid] False by (simp add: solid_trimmed)
  moreover have "map trim ?parts = map trim (map sql_column cs)"
    by (rule split_commas) (use nocomma False in auto)
  moreover have filter_trim: "List.map_filter (parse_column uc) xs = List.map_filter (parse_column uc) ys" if "map trim xs = map trim ys" for xs ys
    using that
  proof (induction xs arbitrary: ys)
    case (Cons x xs)
    then obtain y ys' where y: "ys = y # ys'" "trim x = trim y" "map trim xs = map trim ys'" by auto
    show ?case using Cons.IH [OF y(3)] parse_column_trim [OF y(2), of uc] y(1) by (simp add: List.map_filter_simps split: option.split)
  qed (simp add: List.map_filter_simps)
  ultimately have "List.map_filter (parse_column uc) (split_on (CHR '','') (trim (commas (map sql_column cs))))
      = List.map_filter (parse_column uc) (map sql_column cs)"
    using filter_trim by metis
  also have "\<dots> = cs"
    using assms by (induction cs) (simp_all add: List.map_filter_simps parse_sql_column)
  finally show ?thesis .
qed

text \<open>Cutting a text in front of a character that does not continue another one.\<close>

lemma cut_at:
  assumes "\<not> continues c"
  shows "slice_from (length xs) (xs @ c # ys) = Inr (c # ys)" "slice_to (length xs) (xs @ c # ys) = Inr xs"
  using slice_append [of "c # ys" xs] assms by simp_all

lemma ascii_continues [simp]: "(of_char c :: nat) < 128 \<Longrightarrow> \<not> continues c"
  by (simp add: continues_def)

lemma solid_str_hd: "solid_str s \<Longrightarrow> \<not> continues (hd s)"
  by (simp add: solid_str_def solid_not_continues)

text \<open>\<open>name (inside)\<close>, with a keyword or nothing between the name and the parenthesis.\<close>

lemma paren_parts:
  assumes "CHR ''('' \<notin> set xs" "inside = [] \<or> solid_str inside"
  shows "str_find ''('' (xs @ CHR ''('' # inside @ '')'') = Some (length xs)"
    and "str_rfind (CHR '')'') (xs @ CHR ''('' # inside @ '')'') = Some (length xs + 1 + length inside)"
    and "str_get (length xs + 1) (length xs + 1 + length inside) (xs @ CHR ''('' # inside @ '')'') = Some inside"
proof -
  show "str_find ''('' (xs @ CHR ''('' # inside @ '')'') = Some (length xs)" using assms(1) by (rule str_find_char)
  show "str_rfind (CHR '')'') (xs @ CHR ''('' # inside @ '')'') = Some (length xs + 1 + length inside)"
    using str_rfind_char [of "CHR '')''" "[]" "xs @ CHR ''('' # inside"] by simp
  show "str_get (length xs + 1) (length xs + 1 + length inside) (xs @ CHR ''('' # inside @ '')'') = Some inside"
    using str_get_middle [of inside "'')''" "xs @ ''(''"] assms(2) solid_str_hd by auto
qed

lemma solid_str_paren: "solid_str n \<Longrightarrow> solid_str (n @ s @ '')'')"
  by (rule solid_append) (simp_all add: solid_str_def solid_def)

lemma parse_create_sql:
  assumes "word n" "\<forall>c \<in> set cs. word (col_name c)"
  shows "parse_create_table uc (sql_of (SCreateTable n cs)) = Inr (SCreateTable n cs)"
proof -
  let ?inside = "commas (map sql_column cs)"
  have n: "solid_str n" "trim n = n" "trim (n @ '' '') = n" "CHR ''('' \<notin> set (n @ '' '')"
    using assms(1) ref_solid [OF word_ref] solid_trimmed trim_space_end word_notin [of n "CHR ''(''"]
    by (auto simp: word_char_def)
  have inside: "?inside = [] \<or> solid_str ?inside"
  proof (cases "cs = []")
    case False
    have "solid_str (sql_column c)" if "c \<in> set cs" for c
      using that assms(2) ref_solid [OF word_ref, of "col_name c"]
      by (cases "col_type c") (auto simp: sql_column_def solid_str_def solid_def)
    then show ?thesis using commas_solid [of "map sql_column cs"] False by simp
  qed simp
  let ?rest = "(n @ '' '') @ CHR ''('' # ?inside @ '')''"
  have "slice_from (length ''CREATE TABLE'') (''CREATE TABLE'' @ CHR '' '' # ?rest) = Inr (CHR '' '' # ?rest)"
    by (rule cut_at) simp
  moreover have "trim (CHR '' '' # ?rest) = ?rest"
    using solid_trimmed [OF solid_str_paren [OF n(1), of "'' ('' @ ?inside"]] by (simp add: trim_space)
  moreover have "slice_to (length (n @ '' '')) ?rest = Inr (n @ '' '')" by (rule cut_at) simp
  moreover have "sql_of (SCreateTable n cs) = ''CREATE TABLE'' @ CHR '' '' # ?rest" by simp
  ultimately show ?thesis
    using paren_parts [OF n(4) inside] parse_columns [OF assms(2), of uc] n(3)
    by (simp only: parse_create_table_def rbind_simps Let_def unwrap_or_def option.case add_0)
qed

text \<open>The first occurrence of a keyword behind a space, in the upper-cased text.\<close>

lemma find_keyword:
  assumes "ascii xs" "free uc p xs" "ascii p" "map ascii_upper p = p" "CHR '' '' \<notin> set p" "p \<noteq> []"
  shows "str_find p (to_uppercase uc (xs @ CHR '' '' # p @ ys)) = Some (Suc (length xs))"
proof -
  have "to_uppercase uc (xs @ CHR '' '' # p @ ys) = map ascii_upper xs @ CHR '' '' # p @ to_uppercase uc ys"
    using assms(1,3,4) by (simp add: to_uppercase_ascii_append ascii_upper_def)
  moreover have "str_find p (map ascii_upper xs) = None"
    using assms(1,2) by (simp add: free_def to_uppercase_ascii)
  ultimately show ?thesis
    using str_find_sep [OF assms(5,6), of "map ascii_upper xs"] by (simp add: str_find_at)
qed

text \<open>An INSERT whose parentheses hold any solid text.\<close>

lemma parse_insert_text:
  assumes "word n" "free uc ''VALUES'' n" "solid_str inside"
  shows "parse_insert uc (''INSERT INTO '' @ n @ '' VALUES ('' @ inside @ '')'')
    = Inr (SInsert n (map (\<lambda>v. parse_literal (trim v)) (split_on (CHR '','') inside)))"
proof -
  have n: "solid_str n" "ascii n" "trim (n @ '' '') = n"
    using assms(1) ref_solid [OF word_ref] ref_ascii [OF word_ref] trim_space_end by auto
  have xs: "CHR ''('' \<notin> set (n @ '' VALUES '')"
    using word_notin [OF assms(1), of "CHR ''(''"] by (simp add: word_char_def)
  let ?rest = "n @ CHR '' '' # ''VALUES'' @ CHR '' '' # CHR ''('' # inside @ '')''"
  have alt: "?rest = (n @ '' VALUES '') @ CHR ''('' # inside @ '')''" "?rest = (n @ '' '') @ CHR ''V'' # ''ALUES ('' @ inside @ '')''"
    by simp_all
  have "slice_from (length ''INSERT INTO'') (''INSERT INTO'' @ CHR '' '' # ?rest) = Inr (CHR '' '' # ?rest)"
    by (rule cut_at) simp
  moreover have "trim (CHR '' '' # ?rest) = ?rest"
    using solid_trimmed [OF solid_str_paren [OF n(1), of "'' VALUES ('' @ inside"]] by (simp add: trim_space)
  moreover have "str_find ''VALUES'' (to_uppercase uc ?rest) = Some (length (n @ '' ''))"
    using find_keyword [OF n(2) assms(2), of "CHR '' '' # CHR ''('' # inside @ '')''"] by (simp add: ascii_upper_def)
  moreover have "slice_to (length (n @ '' '')) ?rest = Inr (n @ '' '')"
    unfolding alt(2) by (rule cut_at) simp
  moreover have "''INSERT INTO '' @ n @ '' VALUES ('' @ inside @ '')'' = ''INSERT INTO'' @ CHR '' '' # ?rest" by simp
  ultimately show ?thesis
    using paren_parts [OF xs disjI2 [OF assms(3)], folded alt(1)] n(3) solid_trimmed [OF assms(3)]
    by (simp only: parse_insert_def rbind_simps Let_def unwrap_or_def option.case)
qed

lemma parse_insert_sql:
  assumes "word n" "free uc ''VALUES'' n" "vs \<noteq> []" "\<forall>v \<in> set vs. literal_ok v"
  shows "parse_insert uc (sql_of (SInsert n vs)) = Inr (SInsert n vs)"
proof -
  let ?inside = "commas (map sql_literal vs)"
  have "solid_str ?inside" using assms(3) literal_solid by (intro commas_solid) auto
  moreover have "map (\<lambda>v. parse_literal (trim v)) (split_on (CHR '','') ?inside) = vs"
  proof -
    have "map trim (split_on (CHR '','') ?inside) = map trim (map sql_literal vs)"
      using assms(3,4) literal_no_comma by (intro split_commas) auto
    then have "map parse_literal (map trim (split_on (CHR '','') ?inside)) = map parse_literal (map sql_literal vs)"
      using literal_solid solid_trimmed by simp
    also have "\<dots> = vs" using assms(4) by (induction vs) (simp_all add: parse_literal_sql)
    finally show ?thesis by (simp add: o_def)
  qed
  ultimately show ?thesis using parse_insert_text [OF assms(1,2), of ?inside] by simp
qed

lemma parse_cond_sql:
  assumes "plain_cond e"
  shows "parse_where (sql_cond e) = Inr (Some e)"
proof -
  let ?c = "expr_column e" and ?v = "sql_literal (expr_value e)" and ?op = "sql_op (expr_op e)"
  have c: "col_ref ?c" and v: "literal_ok (expr_value e)" using assms by simp_all
  have col: "trim (?c @ '' '') = ?c" using trim_space_end [OF ref_solid [OF c]] .
  have raw: "parse_literal (trim (CHR '' '' # ?v)) = expr_value e"
    using solid_trimmed [OF literal_solid] parse_literal_sql [OF v] by (simp add: trim_space)
  have notin: "d \<notin> set (?c @ '' '')" if "d \<in> {CHR ''='', CHR ''<'', CHR ''>''}" for d
    using that ref_notin [OF c, of d] by (auto simp: word_char_def)
  obtain d where d: "?op = [d]" "d \<in> {CHR ''='', CHR ''<'', CHR ''>''}" by (cases "expr_op e") auto
  define w where "w = (?c @ '' '') @ d # CHR '' '' # ?v"
  have cond: "sql_cond e = w" using d by (simp add: sql_cond_def w_def)
  have found: "str_find [d] w = Some (length (?c @ '' ''))" unfolding w_def using notin [OF d(2)] by (rule str_find_char)
  have slices: "slice_to (length (?c @ '' '')) w = Inr (?c @ '' '')" "slice_from (length (?c @ '' '') + length [d]) w = Inr (CHR '' '' # ?v)"
    using cut_at [of d "?c @ '' ''" "CHR '' '' # ?v"] cut_at [of "CHR '' ''" "(?c @ '' '') @ [d]" ?v] d(2) by (auto simp: w_def)
  have here: "parse_where_ops (([d], expr_op e) # ops) w = Inr (Some e)" for ops
    using found slices col raw by (simp only: parse_where_ops.simps option.case rbind_simps) (cases e; simp)
  have skip: "parse_where_ops (([q], op) # ops) w = parse_where_ops ops w"
    if "q \<in> {CHR ''='', CHR ''<'', CHR ''>''}" "q \<noteq> d" "q \<notin> set ?v" for q op ops
  proof -
    have "str_find [q] w = None" using notin [OF that(1)] that unfolding str_find_char_none w_def by auto
    then show ?thesis by simp
  qed
  show ?thesis
    unfolding cond parse_where_def
    using here d assms skip [of "CHR ''=''"] skip [of "CHR ''>''"]
    by (cases "expr_op e") (auto simp del: parse_where_ops.simps)
qed

lemma ascii_upper_space: "ascii_upper c = CHR '' '' \<longleftrightarrow> c = CHR '' ''"
proof
  assume a: "ascii_upper c = CHR '' ''"
  have "(of_char (ascii_upper c) :: nat) \<noteq> 32" if "97 \<le> (of_char c :: nat)" "of_char c \<le> (122 :: nat)"
    using that by (simp add: ascii_upper_def)
  moreover have "(of_char (ascii_upper c) :: nat) = 32" using a by simp
  ultimately have "\<not> (97 \<le> (of_char c :: nat) \<and> of_char c \<le> (122 :: nat))" by blast
  with a show "c = CHR '' ''" unfolding ascii_upper_def by simp
qed (simp add: ascii_upper_def)

lemma str_find_first: "d \<notin> set xs \<Longrightarrow> str_find (d # p) (xs @ (d # p) @ ys) = Some (length xs)"
proof (induction xs)
  case Nil
  show ?case using str_find_at [of "d # p" ys] by simp
qed auto

lemma cond_solid: "plain_cond e \<Longrightarrow> solid_str (sql_cond e)"
  using solid_append [OF ref_solid literal_solid, of "expr_column e" "'' '' @ sql_op (expr_op e) @ '' ''" "expr_value e"]
  by (simp add: sql_cond_def)

lemma where_solid:
  assumes "solid_str s" "case w of None \<Rightarrow> True | Some e \<Rightarrow> plain_cond e"
  shows "solid_str (s @ sql_where w)"
proof (cases w)
  case (Some e)
  then show ?thesis using solid_append [OF assms(1) cond_solid, of e "'' WHERE ''"] assms(2) by (simp add: sql_where_def)
qed (use assms in \<open>simp add: sql_where_def\<close>)

text \<open>A WHERE clause behind text without the keyword.\<close>

lemma where_found:
  assumes "ascii s" "free uc ''WHERE'' s"
  shows "str_find ''WHERE'' (to_uppercase uc (s @ sql_where w)) = map_option (\<lambda>_. Suc (length s)) w"
proof (cases w)
  case (Some e)
  then show ?thesis using find_keyword [OF assms, of "'' '' @ sql_cond e"] by (simp add: sql_where_def ascii_upper_def)
qed (use assms in \<open>simp add: sql_where_def free_def\<close>)

lemma where_cut:
  "slice_to (Suc (length s)) (s @ sql_where (Some e)) = Inr (s @ '' '')"
  "slice_from (Suc (length s)) (s @ sql_where (Some e)) = Inr (''WHERE '' @ sql_cond e)"
  "slice_from (Suc (length s) + length ''WHERE'') (s @ sql_where (Some e)) = Inr (CHR '' '' # sql_cond e)"
  using cut_at [of "CHR ''W''" "s @ '' ''" "''HERE '' @ sql_cond e"] cut_at [of "CHR '' ''" "s @ '' WHERE''" "sql_cond e"]
  by (simp_all add: sql_where_def)

lemma split_where_sql:
  assumes "col_ref n" "free uc ''WHERE'' n" "case w of None \<Rightarrow> True | Some e \<Rightarrow> plain_cond e"
  shows "split_where uc (n @ sql_where w) = Inr (n, w)"
proof (cases w)
  case None
  then show ?thesis using where_found [OF ref_ascii assms(2), of w] assms(1) solid_trimmed [OF ref_solid]
    by (simp add: split_where_def sql_where_def)
next
  case (Some e)
  then have e: "plain_cond e" using assms(3) by simp
  have "str_find ''WHERE'' (to_uppercase uc (n @ sql_where w)) = Some (Suc (length n))"
    using where_found [OF ref_ascii assms(2), of w] assms(1) Some by simp
  then show ?thesis
    using where_cut [of n e] trim_space_end [OF ref_solid [OF assms(1)]] solid_trimmed [OF cond_solid [OF e]] parse_cond_sql [OF e]
    unfolding split_where_def Some by (simp only: option.case rbind_simps trim_space prod.case)
qed

lemma where_behind_sql:
  assumes "case w of None \<Rightarrow> True | Some e \<Rightarrow> plain_cond e"
  shows "where_behind uc (case w of None \<Rightarrow> '''' | Some e \<Rightarrow> ''WHERE '' @ sql_cond e) = Inr w"
proof (cases w)
  case (Some e)
  then have e: "plain_cond e" using assms by simp
  have "str_find ''WHERE'' (to_uppercase uc (''WHERE '' @ sql_cond e)) = Some 0"
    by (simp add: ascii_upper_def)
  moreover have "slice_from (0 + length ''WHERE'') (''WHERE '' @ sql_cond e) = Inr (CHR '' '' # sql_cond e)"
    using cut_at [of "CHR '' ''" "''WHERE''" "sql_cond e"] by simp
  ultimately show ?thesis
    using solid_trimmed [OF cond_solid [OF e]] parse_cond_sql [OF e] Some
    unfolding where_behind_def Some by (simp only: option.case rbind_simps trim_space)
qed (simp add: where_behind_def)

section \<open>SELECT\<close>

lemma join_cond_parts:
  assumes "plain_join uc jc"
  shows "col_ref (left_col jc)" "col_ref (right_col jc)" "solid_str (left_col jc @ '' = '' @ right_col jc)"
    "ascii (left_col jc @ '' = '' @ right_col jc)" "free uc ''WHERE'' (left_col jc @ '' = '' @ right_col jc)"
proof -
  let ?l = "left_col jc" and ?r = "right_col jc"
  show l: "col_ref ?l" and r: "col_ref ?r" using assms by simp_all
  show "solid_str (?l @ '' = '' @ ?r)" by (rule solid_append [OF ref_solid [OF l] ref_solid [OF r]])
  show "ascii (?l @ '' = '' @ ?r)" using ref_ascii l r by simp
  have "to_uppercase uc (?l @ '' = '' @ ?r) = map ascii_upper ?l @ CHR '' '' # ''='' @ CHR '' '' # map ascii_upper ?r"
    using ref_ascii l r by (simp add: to_uppercase_ascii_append to_uppercase_ascii ascii_upper_def)
  moreover have "str_find ''WHERE'' (map ascii_upper ?l) = None" "str_find ''WHERE'' (map ascii_upper ?r) = None"
    using assms l r by (simp_all add: free_def to_uppercase_ascii ref_ascii)
  moreover have "str_find ''WHERE'' (''='' @ CHR '' '' # map ascii_upper ?r) = None"
    using calculation(3) by simp
  ultimately show "free uc ''WHERE'' (?l @ '' = '' @ ?r)"
    using str_find_sep [of "CHR '' ''" "''WHERE''" "map ascii_upper ?l"] by (simp add: free_def)
qed

lemma on_cond_sql:
  assumes "plain_join uc jc"
  defines "c \<equiv> left_col jc @ '' = '' @ right_col jc"
  shows "str_find ''='' c = Some (length (left_col jc @ '' ''))" "slice_to (length (left_col jc @ '' '')) c = Inr (left_col jc @ '' '')"
    "slice_from (length (left_col jc @ '' '') + 1) c = Inr (CHR '' '' # right_col jc)"
    "trim (left_col jc @ '' '') = left_col jc" "trim (CHR '' '' # right_col jc) = right_col jc"
proof -
  note p = join_cond_parts [OF assms(1)]
  have c: "c = (left_col jc @ '' '') @ CHR ''='' # CHR '' '' # right_col jc" by (simp add: c_def)
  have "CHR ''='' \<notin> set (left_col jc @ '' '')" using ref_notin [OF p(1), of "CHR ''=''"] by (simp add: word_char_def)
  then show "str_find ''='' c = Some (length (left_col jc @ '' ''))" unfolding c by (rule str_find_char)
  show "slice_to (length (left_col jc @ '' '')) c = Inr (left_col jc @ '' '')" unfolding c by (rule cut_at) simp
  show "slice_from (length (left_col jc @ '' '') + 1) c = Inr (CHR '' '' # right_col jc)"
    using cut_at [of "CHR '' ''" "left_col jc @ '' =''" "right_col jc"] by (simp add: c)
  show "trim (left_col jc @ '' '') = left_col jc" using p(1) by (intro trim_space_end ref_solid)
  show "trim (CHR '' '' # right_col jc) = right_col jc" using p(2) by (simp add: trim_space solid_trimmed ref_solid)
qed

text \<open>Where ON is found behind the right table.\<close>

lemma on_found:
  assumes "word r" "ascii r"
  shows "str_find '' ON '' (to_uppercase uc (r @ '' ON '' @ on)) = Some (length r)"
proof -
  have "to_uppercase uc (r @ '' ON '' @ on) = map ascii_upper r @ '' ON '' @ to_uppercase uc on"
    using assms(2) by (simp add: to_uppercase_ascii_append ascii_upper_def)
  moreover have "CHR '' '' \<notin> set r" using assms(1) by (rule word_notin) (simp add: word_char_def)
  then have "CHR '' '' \<notin> set (map ascii_upper r)" unfolding set_map using ascii_upper_space by (metis imageE)
  ultimately show ?thesis using str_find_first [of "CHR '' ''" "map ascii_upper r" "''ON ''"] by simp
qed

text \<open>The condition is split from what WHERE leads in.\<close>

lemma join_where_cut:
  assumes c: "solid_str c" "ascii c" "free uc ''WHERE'' c" and w: "case w of None \<Rightarrow> True | Some e \<Rightarrow> plain_cond e"
  shows "(case str_find ''WHERE'' (to_uppercase uc (c @ sql_where w)) of
       Some k \<Rightarrow> rbind (slice_to k (c @ sql_where w)) (\<lambda>x. rbind (slice_from k (c @ sql_where w)) (\<lambda>y. Inr (trim x, trim y)))
     | None \<Rightarrow> Inr (c @ sql_where w, '''')) = Inr (c, case w of None \<Rightarrow> '''' | Some e \<Rightarrow> ''WHERE '' @ sql_cond e)"
proof (cases w)
  case None
  then show ?thesis using where_found [OF c(2,3), of w] by (simp add: sql_where_def)
next
  case (Some e)
  then have e: "plain_cond e" using w by simp
  have "trim (''WHERE '' @ sql_cond e) = ''WHERE '' @ sql_cond e"
    using solid_append [of "''WHERE''" "sql_cond e" "'' ''"] cond_solid [OF e] by (intro solid_trimmed) (simp add: solid_str_def solid_def)
  then show ?thesis
    using where_found [OF c(2,3), of w] where_cut [of c e] trim_space_end [OF c(1)] Some
    by (simp only: option.map option.case rbind_simps)
qed

lemma parse_join_sql:
  assumes n: "word n" and j: "plain_join uc jc" and w: "case w of None \<Rightarrow> True | Some e \<Rightarrow> plain_cond e"
  shows "parse_join uc (Suc (length n)) (n @ sql_join (Some jc) @ sql_where w)
    = Inr (n, Some jc, case w of None \<Rightarrow> '''' | Some e \<Rightarrow> ''WHERE '' @ sql_cond e)"
proof -
  let ?r = "right_table jc"
  define c where "c = left_col jc @ '' = '' @ right_col jc"
  define on where "on = c @ sql_where w"
  define aj where "aj = ?r @ '' ON '' @ on"
  note p = join_cond_parts [OF j, folded c_def] and oc = on_cond_sql [OF j, folded c_def]
  have r: "word ?r" "solid_str ?r" "ascii ?r" using j ref_solid [OF word_ref] ref_ascii [OF word_ref] by auto
  have on: "solid_str on" unfolding on_def using p(3) w by (rule where_solid)
  have aj: "solid_str aj" unfolding aj_def by (rule solid_append [OF r(2) on])
  have shape: "n @ sql_join (Some jc) @ sql_where w = (n @ '' '') @ CHR ''J'' # ''OIN '' @ aj"
    "n @ sql_join (Some jc) @ sql_where w = (n @ '' JOIN'') @ CHR '' '' # aj"
    by (simp_all add: sql_join_def aj_def on_def c_def)
  have s1: "slice_to (Suc (length n)) (n @ sql_join (Some jc) @ sql_where w) = Inr (n @ '' '')"
    unfolding shape(1) using cut_at(2) [of "CHR ''J''" "n @ '' ''" "''OIN '' @ aj"] by simp
  have s2: "slice_from (Suc (length n) + length ''JOIN'') (n @ sql_join (Some jc) @ sql_where w) = Inr (CHR '' '' # aj)"
    unfolding shape(2) using cut_at(1) [of "CHR '' ''" "n @ '' JOIN''" aj] by simp
  have tr: "trim (n @ '' '') = n" "trim (CHR '' '' # aj) = aj" "trim ?r = ?r" "trim on = on"
    using trim_space_end [OF ref_solid [OF word_ref [OF n]]] solid_trimmed aj r(2) on by (simp_all add: trim_space)
  have on_pos: "str_find '' ON '' (to_uppercase uc aj) = Some (length ?r)"
    unfolding aj_def by (rule on_found [OF r(1,3)])
  have s3: "slice_to (length ?r) aj = Inr ?r"
    using cut_at(2) [of "CHR '' ''" ?r "''ON '' @ on"] by (simp add: aj_def)
  have s4: "str_get (length ?r + 4) (length aj) aj = Some on"
    using str_get_middle [of on "[]" "?r @ '' ON ''"] on solid_str_hd [OF on]
    by (simp add: aj_def solid_str_def eval_nat_numeral)
  have cond: "(case str_find ''WHERE'' (to_uppercase uc on) of
       Some k \<Rightarrow> rbind (slice_to k on) (\<lambda>x. rbind (slice_from k on) (\<lambda>y. Inr (trim x, trim y)))
     | None \<Rightarrow> Inr (on, '''')) = Inr (c, case w of None \<Rightarrow> '''' | Some e \<Rightarrow> ''WHERE '' @ sql_cond e)"
    unfolding on_def by (rule join_where_cut [OF p(3-5) w])
  show ?thesis
    unfolding parse_join_def Let_def s1 s2 rbind_simps tr on_pos unwrap_or_def option.case s3 s4 cond prod.case oc
    by simp
qed

lemma select_from:
  "str_find ''FROM'' (to_uppercase uc (''SELECT * FROM '' @ t)) = Some 9"
  "slice_from (9 + length ''FROM'') (''SELECT * FROM '' @ t) = Inr (CHR '' '' # t)"
proof -
  show "str_find ''FROM'' (to_uppercase uc (''SELECT * FROM '' @ t)) = Some 9"
    by (simp add: ascii_upper_def)
  have pos: "9 + length ''FROM'' = length ''SELECT * FROM''" by simp
  show "slice_from (9 + length ''FROM'') (''SELECT * FROM '' @ t) = Inr (CHR '' '' # t)"
    unfolding pos using cut_at(1) [of "CHR '' ''" "''SELECT * FROM''" t] by simp
qed

lemma parse_select_sql:
  assumes "plain uc (SSelect n j w)"
  shows "parse_select uc (sql_of (SSelect n j w)) = Inr (SSelect n j w)"
proof -
  define t where "t = n @ sql_join j @ sql_where w"
  have n: "word n" "free uc ''JOIN'' n" and w: "case w of None \<Rightarrow> True | Some e \<Rightarrow> plain_cond e" using assms by auto
  note na = ref_ascii [OF word_ref [OF n(1)]] and ns = ref_solid [OF word_ref [OF n(1)]]
  have shape: "sql_of (SSelect n j w) = ''SELECT * FROM '' @ t" by (simp add: t_def)
  have "solid_str t"
  proof (cases j)
    case (Some jc)
    have "solid_str ((n @ '' JOIN '' @ right_table jc @ '' ON '' @ left_col jc @ '' = '') @ [] @ right_col jc)"
      using solid_append [OF ns ref_solid, of "right_col jc" "'' JOIN '' @ right_table jc @ '' ON '' @ left_col jc @ '' = ''"] Some assms
      by simp
    from where_solid [OF this w] Some show ?thesis by (simp add: t_def sql_join_def)
  qed (use where_solid [OF ns w] in \<open>simp add: t_def sql_join_def\<close>)
  then have "trim (CHR '' '' # t) = t" by (simp add: trim_space solid_trimmed)
  moreover have "rbind (case str_find ''JOIN'' (to_uppercase uc t) of Some j \<Rightarrow> parse_join uc j t | None \<Rightarrow> Inr ('''', None, t))
     (\<lambda>(table_name, join, remainder). rbind (if join = None then split_where uc remainder
        else rbind (where_behind uc remainder) (\<lambda>e. Inr (table_name, e))) (\<lambda>(table_name, where_clause).
      Inr (SSelect table_name join where_clause))) = Inr (SSelect n j w)"
  proof (cases j)
    case None
    have "str_find ''JOIN'' (map ascii_upper n) = None" using n(2) na by (simp add: free_def to_uppercase_ascii)
    then have "str_find ''JOIN'' (to_uppercase uc t) = None"
      using None assms na str_find_sep [of "CHR '' ''" "''JOIN''" "map ascii_upper n"]
      by (cases w) (simp_all add: t_def sql_join_def sql_where_def to_uppercase_ascii to_uppercase_ascii_append ascii_upper_def free_def)
    then show ?thesis using None split_where_sql [OF word_ref [OF n(1)] _ w] assms by (simp add: t_def sql_join_def)
  next
    case (Some jc)
    have "str_find ''JOIN'' (to_uppercase uc t) = Some (Suc (length n))"
      using find_keyword [OF na n(2), of "'' '' @ right_table jc @ '' ON '' @ left_col jc @ '' = '' @ right_col jc @ sql_where w"] Some
      by (simp add: t_def sql_join_def ascii_upper_def)
    moreover have "parse_join uc (Suc (length n)) t = Inr (n, Some jc, case w of None \<Rightarrow> '''' | Some e \<Rightarrow> ''WHERE '' @ sql_cond e)"
      unfolding t_def Some by (rule parse_join_sql [OF n(1) _ w]) (use assms Some in auto)
    ultimately show ?thesis using where_behind_sql [OF w, of uc] Some by simp
  qed
  ultimately show ?thesis unfolding shape parse_select_def Let_def unwrap_or_def by (simp only: select_from option.case rbind_simps)
qed

lemma plain_solid:
  assumes "plain uc st"
  shows "solid_str (sql_of st)"
proof (cases st)
  case (SCreateTable n cs)
  then show ?thesis
    using solid_str_paren [of "''CREATE''" "'' TABLE '' @ n @ '' ('' @ commas (map sql_column cs)"]
    by (simp add: solid_str_def solid_def)
next
  case (SInsert n vs)
  then show ?thesis
    using solid_str_paren [of "''INSERT''" "'' INTO '' @ n @ '' VALUES ('' @ commas (map sql_literal vs)"]
    by (simp add: solid_str_def solid_def)
next
  case (SSelect n j w)
  have ns: "solid_str n" and w: "case w of None \<Rightarrow> True | Some e \<Rightarrow> plain_cond e"
    using assms SSelect ref_solid [OF word_ref, of n] by auto
  have S: "solid_str (''SELECT * FROM '' @ n)" using solid_append [of "''SELECT''" n "'' * FROM ''"] ns by (simp add: solid_str_def solid_def)
  show ?thesis
  proof (cases j)
    case (Some jc)
    have "solid_str ((''SELECT * FROM '' @ n @ '' JOIN '' @ right_table jc @ '' ON '' @ left_col jc @ '' = '') @ [] @ right_col jc)"
      using solid_append [OF S ref_solid, of "right_col jc" "'' JOIN '' @ right_table jc @ '' ON '' @ left_col jc @ '' = ''"] Some assms SSelect
      by simp
    from where_solid [OF this w] Some SSelect show ?thesis by (simp add: sql_join_def)
  qed (use where_solid [OF S w] SSelect in \<open>simp add: sql_join_def\<close>)
qed (use assms in \<open>simp_all add: solid_str_def solid_def\<close>)

lemma parse_plain:
  assumes "plain uc st"
  shows "parse uc (sql_of st) = Inr st"
  using assms plain_solid [OF assms] parse_create_sql [of _ _ uc] parse_insert_sql [of _ uc] parse_select_sql [of uc]
  by (cases st) (simp_all add: parse_def solid_trimmed ascii_upper_def)

end
