(* ===== verification/Parser_Props.thy ===== *)
theory Parser_Props
  imports Parser_Spec
begin

text \<open>
  The properties of \<open>src/parser.rs\<close>: plain statements are read back, ASCII text makes the
  parser panic exactly when a SELECT has no FROM, and two ways in which it reads something
  else than what was written.
\<close>

section \<open>ASCII text\<close>

lemma parse_where_returns: "ascii cond \<Longrightarrow> \<exists>e. parse_where cond = Inr e"
proof -
  assume a: "ascii cond"
  have "\<exists>e. parse_where_ops ops cond = Inr e" for ops
  proof (induction ops)
    case (Cons x ops)
    obtain pat op where x: "x = (pat, op)" by force
    show ?case
    proof (cases "str_find pat cond")
      case (Some pos)
      then show ?thesis using str_find_bound [OF Some] x by (simp add: ascii_slice [OF a])
    qed (use Cons x in simp)
  qed simp
  then show ?thesis unfolding parse_where_def by blast
qed

lemma find_upper_bound:
  assumes "ascii s" "str_find p (to_uppercase uc s) = Some i"
  shows "i + length p \<le> length s"
  using str_find_bound [OF assms(2)] assms(1) by (simp add: length_to_uppercase)

lemma split_where_returns: "ascii s \<Longrightarrow> \<exists>r. split_where uc s = Inr r"
proof -
  assume a: "ascii s"
  show ?thesis
  proof (cases "str_find ''WHERE'' (to_uppercase uc s)")
    case (Some w)
    have b: "w + 5 \<le> length s" using find_upper_bound [OF a Some] by simp
    obtain e where "parse_where (trim (drop (w + 5) s)) = Inr e"
      using parse_where_returns [OF ascii_trim [OF ascii_drop [OF a]]] by blast
    then show ?thesis using Some b by (simp add: split_where_def ascii_slice [OF a] eval_nat_numeral)
  qed (simp add: split_where_def)
qed

lemma where_behind_returns: "ascii s \<Longrightarrow> \<exists>r. where_behind uc s = Inr r"
proof -
  assume a: "ascii s"
  show ?thesis
  proof (cases "str_find ''WHERE'' (to_uppercase uc s)")
    case (Some w)
    have b: "w + 5 \<le> length s" using find_upper_bound [OF a Some] by simp
    obtain e where "parse_where (trim (drop (w + 5) s)) = Inr e"
      using parse_where_returns [OF ascii_trim [OF ascii_drop [OF a]]] by blast
    then show ?thesis using Some b by (simp add: where_behind_def ascii_slice [OF a] eval_nat_numeral)
  qed (simp add: where_behind_def)
qed

lemma str_get_ascii: "ascii s \<Longrightarrow> ascii (unwrap_or (str_get a b s) '''')"
  by (auto simp: str_get_def unwrap_or_def ascii_drop ascii_take)

lemma parse_join_returns:
  assumes a: "ascii s" and j: "j + 4 \<le> length s"
  shows "\<exists>n jc rest. parse_join uc j s = Inr (n, jc, rest) \<and> ascii rest"
proof -
  let ?aj = "trim (drop (j + 4) s)"
  have aj: "ascii ?aj" using a by (intro ascii_trim ascii_drop)
  let ?op = "unwrap_or (str_find '' ON '' (to_uppercase uc ?aj)) (length ?aj)"
  have op: "?op \<le> length ?aj"
    using find_upper_bound [OF aj, of "'' ON ''" uc] by (cases "str_find '' ON '' (to_uppercase uc ?aj)") (auto simp: unwrap_or_def)
  define on where "on = trim (unwrap_or (str_get (?op + 4) (length ?aj) ?aj) '''')"
  have on: "ascii on" unfolding on_def by (intro ascii_trim str_get_ascii aj)
  have "\<exists>c r. (case str_find ''WHERE'' (to_uppercase uc on) of
       Some k \<Rightarrow> rbind (slice_to k on) (\<lambda>x. rbind (slice_from k on) (\<lambda>y. Inr (trim x, trim y)))
     | None \<Rightarrow> Inr (on, '''')) = Inr (c, r) \<and> ascii c \<and> ascii r"
  proof (cases "str_find ''WHERE'' (to_uppercase uc on)")
    case (Some k)
    then show ?thesis using find_upper_bound [OF on Some] by (simp add: ascii_slice [OF on] ascii_trim ascii_take ascii_drop on)
  qed (use on in simp)
  then obtain c r where c: "(case str_find ''WHERE'' (to_uppercase uc on) of
       Some k \<Rightarrow> rbind (slice_to k on) (\<lambda>x. rbind (slice_from k on) (\<lambda>y. Inr (trim x, trim y)))
     | None \<Rightarrow> Inr (on, '''')) = Inr (c, r)" "ascii c" "ascii r" by blast
  have "\<exists>jc. (case str_find ''='' c of
       Some eq \<Rightarrow> rbind (slice_to eq c) (\<lambda>lc. rbind (slice_from (eq + 1) c) (\<lambda>rc.
         Inr (Some \<lparr>right_table = trim (take ?op ?aj), left_col = trim lc, right_col = trim rc\<rparr>)))
     | None \<Rightarrow> Inr None) = Inr jc"
  proof (cases "str_find ''='' c")
    case (Some k)
    then show ?thesis using str_find_bound [OF Some] by (simp add: ascii_slice [OF c(2)])
  qed simp
  then obtain jc where jc: "(case str_find ''='' c of
       Some eq \<Rightarrow> rbind (slice_to eq c) (\<lambda>lc. rbind (slice_from (eq + 1) c) (\<lambda>rc.
         Inr (Some \<lparr>right_table = trim (take ?op ?aj), left_col = trim lc, right_col = trim rc\<rparr>)))
     | None \<Rightarrow> Inr None) = Inr jc" by blast
  have s: "slice_to j s = Inr (take j s)" "slice_from (j + length ''JOIN'') s = Inr (drop (j + 4) s)"
    using j by (simp_all add: ascii_slice [OF a] eval_nat_numeral)
  have s3: "slice_to ?op ?aj = Inr (take ?op ?aj)"
    using op by (simp only: ascii_slice(2) [OF aj] if_True)
  show ?thesis
    unfolding parse_join_def Let_def s s3 rbind_simps on_def [symmetric] c(1) prod.case jc using c(3) by simp
qed

lemma parse_select_returns:
  assumes a: "ascii s"
  shows "if str_find ''FROM'' (to_uppercase uc s) = None then parse_select uc s = Inl Panic else \<exists>st. parse_select uc s = Inr st"
proof (cases "str_find ''FROM'' (to_uppercase uc s)")
  case None
  then show ?thesis by (simp add: parse_select_def unwrap_or_def ascii_slice [OF a])
next
  case (Some k)
  define t where "t = trim (drop (k + 4) s)"
  have t: "ascii t" unfolding t_def using a by (intro ascii_trim ascii_drop)
  have s: "slice_from (k + length ''FROM'') s = Inr (drop (k + 4) s)"
    using find_upper_bound [OF a Some] by (simp add: ascii_slice [OF a] eval_nat_numeral)
  have "\<exists>n j r. (case str_find ''JOIN'' (to_uppercase uc t) of Some j \<Rightarrow> parse_join uc j t | None \<Rightarrow> Inr ('''', None, t))
      = Inr (n, j, r) \<and> ascii r"
  proof (cases "str_find ''JOIN'' (to_uppercase uc t)")
    case (Some j)
    then show ?thesis using parse_join_returns [OF t, of j uc] find_upper_bound [OF t Some] by simp
  qed (use t in simp)
  then obtain n j r where j: "(case str_find ''JOIN'' (to_uppercase uc t) of Some j \<Rightarrow> parse_join uc j t | None \<Rightarrow> Inr ('''', None, t))
      = Inr (n, j, r)" "ascii r" by blast
  obtain x y where "split_where uc r = Inr x" "where_behind uc r = Inr y"
    using split_where_returns [OF j(2)] where_behind_returns [OF j(2)] by blast
  then have "\<exists>z. (if j = None then split_where uc r else rbind (where_behind uc r) (\<lambda>e. Inr (n, e))) = Inr z" by simp
  then obtain z where "(if j = None then split_where uc r else rbind (where_behind uc r) (\<lambda>e. Inr (n, e))) = Inr z" by blast
  then have "\<exists>st. parse_select uc s = Inr st"
    unfolding parse_select_def Let_def Some unwrap_or_def option.case s rbind_simps t_def [symmetric] j(1) prod.case
    by (cases z) simp
  with Some show ?thesis by simp
qed

lemma ascii_keyword_length: "ascii s \<Longrightarrow> starts_with p (to_uppercase uc s) \<Longrightarrow> length p \<le> length s"
  using starts_with_length [of p "to_uppercase uc s"] by (simp add: length_to_uppercase)

lemma str_find_absent: "CHR '' '' \<notin> set s \<Longrightarrow> str_find (CHR '' '' # p) s = None"
  by (induction s) auto

lemma find_or_end: "ascii s \<Longrightarrow> unwrap_or (str_find p s) (length s) \<le> length s"
  "ascii s \<Longrightarrow> unwrap_or (str_find p (to_uppercase uc s)) (length s) \<le> length s"
  using str_find_bound [of p s] find_upper_bound [of s p uc]
  by (auto simp: unwrap_or_def dest: add_leD1 split: option.split)

section \<open>Misreadings\<close>

lemma parse_i64_quote: "CHR 0x27 \<in> set s \<Longrightarrow> parse_i64 s = None"
  by (cases s) (auto simp: parse_i64_def parse_digits_def is_digit_def list_all_iff)

lemma half_quoted:
  assumes "word a"
  shows "parse_literal (trim (CHR 0x27 # a)) = VText a" "parse_literal (trim (a @ [CHR 0x27])) = VText a"
proof -
  have a: "solid_str a" using assms by (intro ref_solid word_ref)
  have t: "trim (CHR 0x27 # a) = CHR 0x27 # a" "trim (a @ [CHR 0x27]) = a @ [CHR 0x27]"
    using a by (auto intro!: solid_trimmed simp: solid_str_def solid_def)
  have ne: "a \<noteq> []" and c: "word_char (hd a)" "word_char (hd (rev a))"
    using assms hd_in_set [of a] hd_in_set [of "rev a"] unfolding word_def list_all_iff set_rev by blast+
  have "hd a \<noteq> CHR 0x27" "hd (rev a) \<noteq> CHR 0x27" "hd a \<noteq> CHR 0x22" "hd (rev a) \<noteq> CHR 0x22"
    using c by (auto simp: word_char_def)
  with ne have "a \<noteq> []" "hd a \<noteq> CHR 0x27" "hd (rev a) \<noteq> CHR 0x27" "hd a \<noteq> CHR 0x22" "hd (rev a) \<noteq> CHR 0x22"
    by simp_all
  then have "trim_matches (CHR 0x27) (CHR 0x27 # a) = a" "trim_matches (CHR 0x27) (a @ [CHR 0x27]) = a" "trim_matches (CHR 0x22) a = a"
    by (simp_all add: trim_matches_alt dropWhile_keep)
  then show "parse_literal (trim (CHR 0x27 # a)) = VText a" "parse_literal (trim (a @ [CHR 0x27])) = VText a"
    unfolding t parse_literal_def by (simp_all add: parse_i64_quote)
qed

text \<open>JOIN inside the only word behind FROM.\<close>

lemma join_in_name:
  assumes n: "word n" and j: "str_find ''JOIN'' (to_uppercase uc n) = Some j"
  shows "parse_join uc j n = Inr (trim (take j n), None, '''')"
proof -
  have na: "ascii n" using n by (intro ref_ascii word_ref)
  define aj where "aj = trim (drop (j + 4) n)"
  have aj: "ascii aj" unfolding aj_def using na by (intro ascii_trim ascii_drop)
  have "CHR '' '' \<notin> set n" using n by (rule word_notin) (simp add: word_char_def)
  then have "CHR '' '' \<notin> set aj"
    unfolding aj_def using trim_sub [of "drop (j + 4) n"] set_drop_subset [of "j + 4" n] by blast
  then have "CHR '' '' \<notin> set (map ascii_upper aj)"
    unfolding set_map using ascii_upper_space by (metis imageE)
  then have "str_find '' ON '' (to_uppercase uc aj) = None"
    unfolding to_uppercase_ascii [OF aj] by (rule str_find_absent)
  moreover have "str_get (length aj + 4) (length aj) aj = None" by (simp add: str_get_def)
  moreover have "slice_to (length aj) aj = Inr aj" by (simp add: ascii_slice [OF aj])
  moreover have "slice_to j n = Inr (take j n)" "slice_from (j + length ''JOIN'') n = Inr (drop (j + 4) n)"
    using find_upper_bound [OF na j] by (simp_all add: ascii_slice [OF na] eval_nat_numeral)
  ultimately show ?thesis
    unfolding parse_join_def Let_def by (simp add: aj_def [symmetric] unwrap_or_def trim_trimmed del: length_0_conv)
qed

section \<open>Properties\<close>

text \<open>Property C15. Every plain statement is read back from its text: CREATE TABLE with its columns,
  INSERT with its numbers and texts, SELECT with a join and a condition, and the three
  transaction statements.\<close>

theorem parse_reads_back:
  assumes "plain uc st"
  shows "parse uc (sql_of st) = Inr st"
  using assms by (rule parse_plain)

theorem parse_reads_back_witness:
  "parse (\<lambda>s. s) ''SELECT * FROM users JOIN orders ON users.id = uid WHERE total > -5''
   = Inr (SSelect ''users'' (Some \<lparr>right_table = ''orders'', left_col = ''users.id'', right_col = ''uid''\<rparr>)
       (Some \<lparr>expr_column = ''total'', expr_op = CGt, expr_value = VInteger (- 5)\<rparr>))"
proof -
  let ?st = "SSelect ''users'' (Some \<lparr>right_table = ''orders'', left_col = ''users.id'', right_col = ''uid''\<rparr>)
       (Some \<lparr>expr_column = ''total'', expr_op = CGt, expr_value = VInteger (- 5)\<rparr>)"
  have lit: "show_int (sint (- 5 :: i64)) = ''-5''"
    by code_simp
  have "plain (\<lambda>s. s) ?st"
    using lit by (simp add: word_def col_ref_def word_char_def free_def ascii_upper_def)
  from parse_reads_back [OF this] lit show ?thesis by (simp add: sql_join_def sql_where_def sql_cond_def)
qed

text \<open>Property C24. On ASCII text the parser returns a statement, with one exception: a SELECT
  without FROM makes it panic, because it cuts four bytes behind the end of the text.\<close>

theorem parse_panics_iff:
  assumes "ascii s"
  defines "upper \<equiv> map ascii_upper (trim s)"
  shows "if starts_with ''SELECT'' upper \<and> str_find ''FROM'' upper = None then parse uc s = Inl Panic
    else \<exists>st. parse uc s = Inr st"
proof -
  have t: "ascii (trim s)" using assms(1) by (rule ascii_trim)
  have upper: "upper = to_uppercase uc (trim s)" using t by (simp add: upper_def to_uppercase_ascii)
  have create: "\<exists>st. parse_create_table uc (trim s) = Inr st" if "starts_with ''CREATE TABLE'' (to_uppercase uc (trim s))"
  proof -
    have "slice_from (length ''CREATE TABLE'') (trim s) = Inr (drop 12 (trim s))"
      using ascii_keyword_length [OF t that] by (simp add: ascii_slice [OF t] eval_nat_numeral)
    moreover have r: "ascii (trim (drop 12 (trim s)))" by (rule ascii_trim [OF ascii_drop [OF t]])
    ultimately show ?thesis
      using find_or_end(1) [OF r, of "''(''"] by (simp add: parse_create_table_def Let_def ascii_slice [OF r])
  qed
  have insert: "\<exists>st. parse_insert uc (trim s) = Inr st" if "starts_with ''INSERT INTO'' (to_uppercase uc (trim s))"
  proof -
    have "slice_from (length ''INSERT INTO'') (trim s) = Inr (drop 11 (trim s))"
      using ascii_keyword_length [OF t that] by (simp add: ascii_slice [OF t] eval_nat_numeral)
    moreover have r: "ascii (trim (drop 11 (trim s)))" by (rule ascii_trim [OF ascii_drop [OF t]])
    ultimately show ?thesis
      using find_or_end(2) [OF r, of "''VALUES''" uc] by (simp add: parse_insert_def Let_def ascii_slice [OF r])
  qed
  show ?thesis
    using create insert parse_select_returns [OF t, of uc] unfolding upper parse_def Let_def
    by (cases "to_uppercase uc (trim s)") auto
qed

theorem parse_panics_iff_witness: "\<forall>uc. parse uc ''SELECT 1'' = Inl Panic"
proof
  fix uc
  have "ascii ''SELECT 1''" "trim ''SELECT 1'' = ''SELECT 1''"
    by (simp_all add: solid_trimmed solid_str_def solid_def)
  from parse_panics_iff [OF this(1), of uc] this(2) show "parse uc ''SELECT 1'' = Inl Panic" by (simp add: ascii_upper_def)
qed

text \<open>Property C40. Two misreadings. A table whose name contains JOIN cannot be selected from: the
  statement read has an empty table name. And a comma inside quoted text splits the value.\<close>

theorem parser_misreads:
  assumes "word n"
  shows "(\<not> free uc ''JOIN'' n \<longrightarrow> parse uc (''SELECT * FROM '' @ n) = Inr (SSelect '''' None None)) \<and>
    (free uc ''VALUES'' n \<longrightarrow> (\<forall>a b. word a \<and> word b \<longrightarrow>
       parse uc (''INSERT INTO '' @ n @ '' VALUES ('' @ quoted (a @ '','' @ b) @ '')'') = Inr (SInsert n [VText a, VText b])))"
proof (intro conjI impI allI; (elim conjE)?)
  have ns: "solid_str n" and na: "ascii n" using ref_solid ref_ascii word_ref [OF assms] by auto
  assume "\<not> free uc ''JOIN'' n"
  then obtain j where j: "str_find ''JOIN'' (to_uppercase uc n) = Some j" by (auto simp: free_def)
  have "parse_select uc (''SELECT * FROM '' @ n) = Inr (SSelect '''' None None)"
    using join_in_name [OF assms j] ns
    unfolding parse_select_def Let_def select_from rbind_simps unwrap_or_def option.case
    by (simp add: trim_space solid_trimmed j split_where_def trim_trimmed)
  moreover have "solid_str (''SELECT * FROM '' @ n)"
    using solid_append [of "''SELECT''" n "'' * FROM ''"] ns by (simp add: solid_str_def solid_def)
  ultimately show "parse uc (''SELECT * FROM '' @ n) = Inr (SSelect '''' None None)"
    by (simp add: parse_def solid_trimmed ascii_upper_def)
next
  fix a b assume free: "free uc ''VALUES'' n" and ab: "word a" "word b"
  have "split_on (CHR '','') (quoted (a @ '','' @ b)) = [CHR 0x27 # a, b @ [CHR 0x27]]"
    using word_notin [OF ab(1), of "CHR '',''"] word_notin [OF ab(2), of "CHR '',''"]
      split_on_append [of "CHR '',''" "CHR 0x27 # a"] by (simp add: quoted_def split_on_none word_char_def)
  then have "parse_insert uc (''INSERT INTO '' @ n @ '' VALUES ('' @ quoted (a @ '','' @ b) @ '')'') = Inr (SInsert n [VText a, VText b])"
    using parse_insert_text [OF assms free, of "quoted (a @ '','' @ b)"] half_quoted [OF ab(1)] half_quoted [OF ab(2)]
    by (simp add: quoted_def solid_str_def solid_def)
  moreover have "solid_str (''INSERT INTO '' @ n @ '' VALUES ('' @ quoted (a @ '','' @ b) @ '')'')"
    using solid_str_paren [of "''INSERT''" "'' INTO '' @ n @ '' VALUES ('' @ quoted (a @ '','' @ b)"] by (simp add: solid_str_def solid_def)
  ultimately show "parse uc (''INSERT INTO '' @ n @ '' VALUES ('' @ quoted (a @ '','' @ b) @ '')'') = Inr (SInsert n [VText a, VText b])"
    by (simp add: parse_def solid_trimmed ascii_upper_def)
qed

theorem parser_misreads_witness:
  "parse (\<lambda>s. s) ''SELECT * FROM joints'' = Inr (SSelect '''' None None) \<and>
   parse (\<lambda>s. s) ''INSERT INTO t VALUES ('a,b')'' = Inr (SInsert ''t'' [VText ''a'', VText ''b''])"
proof -
  have w: "word ''joints''" "word ''t''" "word ''a''" "word ''b''" and f: "\<not> free (\<lambda>s. s) ''JOIN'' ''joints''" "free (\<lambda>s. s) ''VALUES'' ''t''"
    by (simp_all add: word_def word_char_def free_def ascii_upper_def)
  have "parse (\<lambda>s. s) ''SELECT * FROM joints'' = Inr (SSelect '''' None None)"
    using parser_misreads [OF w(1), of "\<lambda>s. s"] f(1) by simp
  moreover have "parse (\<lambda>s. s) (''INSERT INTO '' @ ''t'' @ '' VALUES ('' @ quoted (''a'' @ '','' @ ''b'') @ '')'') = Inr (SInsert ''t'' [VText ''a'', VText ''b''])"
    using parser_misreads [OF w(2), of "\<lambda>s. s"] f(2) w(3,4) by blast
  ultimately show ?thesis by (simp add: quoted_def)
qed

end
