(* ===== verification/Executor.thy ===== *)
theory Executor
  imports Session Parser
begin

text \<open>
  \<open>src/executor.rs\<close>: statements on a session. Errors of the session become messages; a
  panic (a row shorter than the headers, an operation that panics) passes through.
\<close>

section \<open>Results\<close>

datatype execute_result = EMessage string | ERows "string list" "string list list"

text \<open>\<open>match session.op() { Ok(x) => f(x), Err(msg) => Message("Error: msg") }\<close>\<close>

definition or_error :: "(session, 'a) sm \<Rightarrow> ('a \<Rightarrow> (session, execute_result) sm) \<Rightarrow> (session, execute_result) sm" where
  "or_error m f =
     sbind (caught m) (\<lambda>result. case result of
       Inr x \<Rightarrow> f x
     | Inl (Fail msg) \<Rightarrow> ret (EMessage (''Error: '' @ msg))
     | Inl e \<Rightarrow> raise e)"

section \<open>Conditions\<close>

text \<open>\<open>iter().position(p)\<close>\<close>

fun position :: "('a \<Rightarrow> bool) \<Rightarrow> 'a list \<Rightarrow> nat option" where
  "position p [] = None"
| "position p (x # xs) = (if p x then Some 0 else map_option Suc (position p xs))"

text \<open>\<open>&row.values[idx]\<close>\<close>

definition value_at :: "row \<Rightarrow> nat \<Rightarrow> cell_value result" where
  "value_at r i = (if i < length (row_values r) then Inr (row_values r ! i) else Inl Panic)"

fun compare_values :: "comp_op \<Rightarrow> cell_value \<Rightarrow> cell_value \<Rightarrow> bool" where
  "compare_values CEq (VInteger a) (VInteger b) = (a = b)"
| "compare_values CLt (VInteger a) (VInteger b) = (sint a < sint b)"
| "compare_values CGt (VInteger a) (VInteger b) = (sint a > sint b)"
| "compare_values CEq (VText a) (VText b) = (a = b)"
| "compare_values CLt (VText a) (VText b) = (a < b)"
| "compare_values CGt (VText a) (VText b) = (a > b)"
| "compare_values _ _ _ = False"

definition evaluate :: "expr \<Rightarrow> row \<Rightarrow> string list \<Rightarrow> bool result" where
  "evaluate e r headers =
     (case position (\<lambda>h. eq_ignore_ascii_case h (expr_column e)) headers of
        None \<Rightarrow> Inr False
      | Some idx \<Rightarrow> rbind (value_at r idx) (\<lambda>cell. Inr (compare_values (expr_op e) cell (expr_value e))))"

text \<open>\<open>rows.iter().filter(...).collect()\<close> with a condition that may panic.\<close>

fun filter_rows :: "expr option \<Rightarrow> string list \<Rightarrow> row list \<Rightarrow> row list result" where
  "filter_rows w headers [] = Inr []"
| "filter_rows w headers (r # rs) =
     rbind (case w of Some e \<Rightarrow> evaluate e r headers | None \<Rightarrow> Inr True) (\<lambda>b.
     rbind (filter_rows w headers rs) (\<lambda>rs'. Inr (if b then r # rs' else rs')))"

definition string_rows :: "row list \<Rightarrow> string list list" where
  "string_rows rows = map (\<lambda>r. map display_value (row_values r)) rows"

section \<open>SELECT\<close>

definition execute_select :: "string \<Rightarrow> expr option \<Rightarrow> (session, execute_result) sm" where
  "execute_select table_name where_clause =
     or_error (session_select_all table_name) (\<lambda>(headers, rows).
       sbind (liftR (filter_rows where_clause headers rows)) (\<lambda>filtered.
       ret (ERows headers (string_rows filtered))))"

definition find_col_index :: "string list \<Rightarrow> string \<Rightarrow> string \<Rightarrow> nat option" where
  "find_col_index headers table_name col_ref =
     (let col_name = (case str_find ''.'' col_ref of Some dot \<Rightarrow> drop (dot + 1) col_ref | None \<Rightarrow> col_ref) in
      position (\<lambda>h. eq_ignore_ascii_case h col_name) headers)"

text \<open>The two loops of the join.\<close>

fun join_inner :: "nat \<Rightarrow> nat \<Rightarrow> row \<Rightarrow> row list \<Rightarrow> row list result" where
  "join_inner left_idx right_idx lr [] = Inr []"
| "join_inner left_idx right_idx lr (rr # rrs) =
     rbind (value_at lr left_idx) (\<lambda>a.
     rbind (value_at rr right_idx) (\<lambda>b.
     rbind (join_inner left_idx right_idx lr rrs) (\<lambda>rest.
     Inr (if a = b then \<lparr>row_values = row_values lr @ row_values rr\<rparr> # rest else rest))))"

fun join_rows :: "nat \<Rightarrow> nat \<Rightarrow> row list \<Rightarrow> row list \<Rightarrow> row list result" where
  "join_rows left_idx right_idx [] rrs = Inr []"
| "join_rows left_idx right_idx (lr # lrs) rrs =
     rbind (join_inner left_idx right_idx lr rrs) (\<lambda>xs.
     rbind (join_rows left_idx right_idx lrs rrs) (\<lambda>ys. Inr (xs @ ys)))"

definition join_headers :: "string \<Rightarrow> string list \<Rightarrow> string \<Rightarrow> string list \<Rightarrow> string list" where
  "join_headers left_table left_hdrs right right_hdrs =
     map (\<lambda>h. left_table @ ''.'' @ h) left_hdrs @ map (\<lambda>h. right @ ''.'' @ h) right_hdrs"

text \<open>The join of the two tables that were read.\<close>

definition join_tables :: "string \<Rightarrow> join_clause \<Rightarrow> expr option \<Rightarrow> string list \<times> row list \<Rightarrow> string list \<times> row list \<Rightarrow> execute_result result" where
  "join_tables left_table jc where_clause left right =
     (case (find_col_index (fst left) left_table (left_col jc), find_col_index (fst right) (right_table jc) (right_col jc)) of
        (Some left_idx, Some right_idx) \<Rightarrow>
          (let headers = join_headers left_table (fst left) (right_table jc) (fst right) in
           rbind (join_rows left_idx right_idx (snd left) (snd right)) (\<lambda>joined_rows.
           rbind (filter_rows where_clause headers joined_rows) (\<lambda>filtered.
           Inr (ERows headers (string_rows filtered)))))
      | _ \<Rightarrow> Inr (EMessage ''Error: JOIN column not found.''))"

definition execute_join :: "string \<Rightarrow> join_clause \<Rightarrow> expr option \<Rightarrow> (session, execute_result) sm" where
  "execute_join left_table jc where_clause =
     or_error (session_select_all left_table) (\<lambda>left.
     or_error (session_select_all (right_table jc)) (\<lambda>right.
     liftR (join_tables left_table jc where_clause left right)))"

section \<open>Statements\<close>

fun execute :: "files \<Rightarrow> statement \<Rightarrow> (session, execute_result) sm" where
  "execute fs (SCreateTable table_name columns) =
     or_error (session_create_table fs table_name columns) (\<lambda>_. ret (EMessage (''Table '' @ quoted table_name @ '' created.'')))"
| "execute fs (SInsert table_name values) =
     or_error (session_insert table_name values) (\<lambda>_. ret (EMessage ''1 row inserted.''))"
| "execute fs (SSelect table_name join where_clause) =
     (case join of
        Some jc \<Rightarrow> execute_join table_name jc where_clause
      | None \<Rightarrow> execute_select table_name where_clause)"
| "execute fs (SUnknown cmd) = ret (EMessage (''Unrecognised command: '' @ quoted cmd))"
| "execute fs SBegin = or_error session_begin (\<lambda>_. ret (EMessage ''Transaction started.''))"
| "execute fs SCommit = or_error session_commit (\<lambda>_. ret (EMessage ''Transaction committed.''))"
| "execute fs SRollback = or_error session_rollback (\<lambda>_. ret (EMessage ''Transaction rolled back.''))"

end
