(* ===== verification/Executor_Spec.thy ===== *)
theory Executor_Spec
  imports Executor Session_Spec
begin

text \<open>
  What statements mean on the abstract database, and that \<open>execute\<close> implements it: WHERE is
  a filter, JOIN a filtered product, every other statement a command of \<open>Session_Spec\<close>. Every
  statement has a reply: what a command refuses, an unknown table, an unknown join column
  and an unknown statement have their messages.
\<close>

section \<open>Filters and products\<close>

text \<open>What a comparison means: of two numbers as integers, of two texts by their bytes, in
  dictionary order; values of different types, and NULL, satisfy no comparison.\<close>

definition compares :: "comp_op \<Rightarrow> ('a \<Rightarrow> 'a \<Rightarrow> bool) \<Rightarrow> 'a \<Rightarrow> 'a \<Rightarrow> bool" where
  "compares op lt a b \<longleftrightarrow> (case op of CEq \<Rightarrow> a = b | CLt \<Rightarrow> lt a b | CGt \<Rightarrow> lt b a)"

definition bytes_less :: "string \<Rightarrow> string \<Rightarrow> bool" where
  "bytes_less s t \<longleftrightarrow> (as_bytes s, as_bytes t) \<in> lexord {(x, y). unat x < unat y}"

definition condition :: "comp_op \<Rightarrow> cell_value \<Rightarrow> cell_value \<Rightarrow> bool" where
  "condition op v w \<longleftrightarrow>
     (\<exists>a b. v = VInteger a \<and> w = VInteger b \<and> compares op (\<lambda>x y. sint x < sint y) a b) \<or>
     (\<exists>s t. v = VText s \<and> w = VText t \<and> compares op bytes_less s t)"

lemma char_byte: "unat (of_char c :: byte) < unat (of_char d :: byte) \<longleftrightarrow> c < d" "(of_char c :: byte) = of_char d \<longleftrightarrow> c = d"
proof -
  show "unat (of_char c :: byte) < unat (of_char d :: byte) \<longleftrightarrow> c < d" by (simp add: unat_of_char less_char_def)
  show "(of_char c :: byte) = of_char d \<longleftrightarrow> c = d" using as_bytes_inject [of "[c]" "[d]"] by (simp add: as_bytes_def)
qed

lemma bytes_less_iff: "bytes_less s t \<longleftrightarrow> s < t"
proof -
  have "(as_bytes s, as_bytes t) \<in> lexord {(x, y). unat x < unat y} \<longleftrightarrow> (s, t) \<in> lexord {(u, v). u < v}"
  proof (induction s arbitrary: t)
    case Nil
    then show ?case by (cases t) (simp_all add: as_bytes_def)
  next
    case (Cons c s)
    then show ?case by (cases t) (simp_all add: as_bytes_def char_byte)
  qed
  then show ?thesis by (simp add: bytes_less_def list_less_def)
qed

lemma compare_values_condition: "compare_values op v w = condition op v w"
  by (cases op; cases v; cases w) (simp_all add: condition_def compares_def bytes_less_iff)

text \<open>A row that satisfies the WHERE clause; a clause about an unknown column satisfies none.\<close>

definition matches :: "expr option \<Rightarrow> string list \<Rightarrow> row \<Rightarrow> bool" where
  "matches w headers r \<longleftrightarrow>
     (case w of
        None \<Rightarrow> True
      | Some e \<Rightarrow>
          (case position (\<lambda>h. eq_ignore_ascii_case h (expr_column e)) headers of
             None \<Rightarrow> False
           | Some i \<Rightarrow> condition (expr_op e) (row_values r ! i) (expr_value e)))"

lemma matches_eval: "matches w headers r \<longleftrightarrow>
  (case w of
     None \<Rightarrow> True
   | Some e \<Rightarrow>
       (case position (\<lambda>h. eq_ignore_ascii_case h (expr_column e)) headers of
          None \<Rightarrow> False
        | Some i \<Rightarrow> compare_values (expr_op e) (row_values r ! i) (expr_value e)))"
  unfolding matches_def compare_values_condition ..

lemma position_bound: "position p xs = Some i \<Longrightarrow> i < length xs"
  by (induction xs arbitrary: i) (auto split: if_splits)

lemma filter_rows_matches:
  "list_all (\<lambda>r. length (row_values r) = length headers) rows \<Longrightarrow>
   filter_rows w headers rows = Inr (filter (matches w headers) rows)"
proof (induction rows)
  case (Cons r rows)
  have "(case w of Some e \<Rightarrow> evaluate e r headers | None \<Rightarrow> Inr True) = Inr (matches w headers r)"
    using Cons.prems position_bound
    by (fastforce simp: matches_eval evaluate_def value_at_def split: option.splits)
  with Cons show ?case by simp
qed simp

definition paired :: "row \<Rightarrow> row \<Rightarrow> row" where
  "paired lr rr = \<lparr>row_values = row_values lr @ row_values rr\<rparr>"

definition joins_on :: "nat \<Rightarrow> nat \<Rightarrow> row \<times> row \<Rightarrow> bool" where
  "joins_on i j p \<longleftrightarrow> row_values (fst p) ! i = row_values (snd p) ! j"

lemma join_inner_product:
  "i < length (row_values lr) \<Longrightarrow> list_all (\<lambda>r. j < length (row_values r)) rrs \<Longrightarrow>
   join_inner i j lr rrs = Inr (map (case_prod paired) (filter (joins_on i j) (map (Pair lr) rrs)))"
  by (induction rrs) (simp_all add: value_at_def joins_on_def paired_def)

lemma join_rows_product:
  "list_all (\<lambda>r. i < length (row_values r)) lrs \<Longrightarrow> list_all (\<lambda>r. j < length (row_values r)) rrs \<Longrightarrow>
   join_rows i j lrs rrs = Inr (map (case_prod paired) (filter (joins_on i j) (List.product lrs rrs)))"
  by (induction lrs) (simp_all add: join_inner_product)

section \<open>Statements on the abstract database\<close>

text \<open>A reply for a SELECT of the table contents \<open>c\<close>, and of a join of \<open>c\<close> with \<open>d\<close>.\<close>

definition select_reply :: "content \<Rightarrow> expr option \<Rightarrow> execute_result \<Rightarrow> bool" where
  "select_reply c w res \<longleftrightarrow>
     (\<exists>hs rows. shows_table c (hs, rows) \<and> res = ERows hs (string_rows (filter (matches w hs) rows)))"

definition join_reply :: "string \<Rightarrow> content \<Rightarrow> join_clause \<Rightarrow> content \<Rightarrow> nat \<Rightarrow> nat \<Rightarrow> expr option \<Rightarrow> execute_result \<Rightarrow> bool" where
  "join_reply n c jc d i j w res \<longleftrightarrow>
     (\<exists>lh lrs rh rrs. shows_table c (lh, lrs) \<and> shows_table d (rh, rrs) \<and>
        (let hs = join_headers n lh (right_table jc) rh in
         res = ERows hs (string_rows (filter (matches w hs)
           (map (case_prod paired) (filter (joins_on i j) (List.product lrs rrs)))))))"

lemma or_error_ok:
  assumes "ok (caught m) s P" "\<And>x s'. P (Inr x) s' \<Longrightarrow> ok (f x) s' Q"
    "\<And>msg s'. P (Inl (Fail msg)) s' \<Longrightarrow> Q (EMessage (''Error: '' @ msg)) s'"
  shows "ok (or_error m f) s Q"
proof -
  obtain r s' where r: "m s = (r, s')" "r \<noteq> Inl Panic" "r \<noteq> Inl Diverge" "P r s'" using assms(1) by (auto simp: ok_caught)
  show ?thesis
  proof (cases r)
    case (Inl e)
    then show ?thesis using r assms(3) by (cases e) (auto simp: ok_def or_error_def sbind_def caught_def ret_def)
  next
    case (Inr x)
    then show ?thesis using r assms(2) [of x s'] by (simp add: ok_def or_error_def sbind_def caught_def)
  qed
qed

definition error_message :: "string \<Rightarrow> execute_result" where
  "error_message msg = EMessage (''Error: '' @ msg)"

lemma shown_lengths: "shows_table c (hs, rows) \<Longrightarrow> list_all (\<lambda>r. length (row_values r) = length hs) rows"
  by (auto simp: shows_table_def list_all_iff good_row_def row_ok_def dest!: list_all2_lengthD split: prod.splits)

text \<open>SELECT of a table or of none.\<close>

definition select_result :: "adb \<Rightarrow> string \<Rightarrow> expr option \<Rightarrow> execute_result \<Rightarrow> bool" where
  "select_result a n w res \<longleftrightarrow> (case working a n of
     None \<Rightarrow> res = error_message (no_table n)
   | Some c \<Rightarrow> select_reply c w res)"

lemma execute_select_sim:
  assumes "session_rel s (b, a)"
  shows "ok (execute_select n w) s (\<lambda>res s'. select_result a n w res \<and> session_rel s' (b, a))"
  unfolding execute_select_def
proof (rule or_error_ok [OF session_select_sim [OF assms]], clarify)
  fix hs rows s' assume "rows_of a n (Inr (hs, rows))" and rel: "session_rel s' (b, a)"
  then obtain c where c: "working a n = Some c" "shows_table c (hs, rows)" by (auto simp: rows_of_def split: option.splits)
  show "ok (sbind (liftR (filter_rows w hs rows)) (\<lambda>filtered. ret (ERows hs (string_rows filtered)))) s'
      (\<lambda>res s'. select_result a n w res \<and> session_rel s' (b, a))"
    using c rel by (auto simp: filter_rows_matches [OF shown_lengths [OF c(2)]] ok_simps select_result_def select_reply_def)
qed (auto simp: rows_of_def select_result_def error_message_def split: option.splits)

lemma join_tables_product:
  assumes x: "shows_table (cs, L) (lh, lrs)" "shows_table (ds, R) (rh, rrs)"
    and idx: "find_col_index (map col_name cs) n (left_col jc) = Some i"
      "find_col_index (map col_name ds) (right_table jc) (right_col jc) = Some j"
  shows "\<exists>res. join_tables n jc w (lh, lrs) (rh, rrs) = Inr res \<and> join_reply n (cs, L) jc (ds, R) i j w res"
proof -
  have h: "lh = map col_name cs" "rh = map col_name ds" using x by (simp_all add: shows_table_def)
  note len = shown_lengths [OF x(1)] shown_lengths [OF x(2)]
  have ij: "i < length lh" "j < length rh"
    using idx [unfolded find_col_index_def Let_def, THEN position_bound] h by simp_all
  let ?hs = "join_headers n lh (right_table jc) rh" and ?rows = "map (case_prod paired) (filter (joins_on i j) (List.product lrs rrs))"
  have joined: "join_rows i j lrs rrs = Inr ?rows"
    by (rule join_rows_product) (use len ij in \<open>auto simp: list_all_iff\<close>)
  have "list_all (\<lambda>r. length (row_values r) = length ?hs) ?rows"
    using len by (auto simp: list_all_iff paired_def join_headers_def)
  then have "join_tables n jc w (lh, lrs) (rh, rrs) = Inr (ERows ?hs (string_rows (filter (matches w ?hs) ?rows)))"
    using idx joined by (simp add: join_tables_def Let_def h [symmetric] filter_rows_matches)
  then show ?thesis using x unfolding join_reply_def Let_def by blast
qed

text \<open>The columns of a join condition, found in both tables.\<close>

fun join_columns :: "string \<Rightarrow> join_clause \<Rightarrow> content \<Rightarrow> content \<Rightarrow> (nat \<times> nat) option" where
  "join_columns n jc (cs, L) (ds, R) =
     (case (find_col_index (map col_name cs) n (left_col jc), find_col_index (map col_name ds) (right_table jc) (right_col jc)) of
        (Some i, Some j) \<Rightarrow> Some (i, j)
      | _ \<Rightarrow> None)"

text \<open>A join of two tables, or the first thing that is missing.\<close>

definition join_result :: "adb \<Rightarrow> string \<Rightarrow> join_clause \<Rightarrow> expr option \<Rightarrow> execute_result \<Rightarrow> bool" where
  "join_result a n jc w res \<longleftrightarrow> (case working a n of
     None \<Rightarrow> res = error_message (no_table n)
   | Some c \<Rightarrow> (case working a (right_table jc) of
       None \<Rightarrow> res = error_message (no_table (right_table jc))
     | Some d \<Rightarrow> (case join_columns n jc c d of
         None \<Rightarrow> res = error_message ''JOIN column not found.''
       | Some (i, j) \<Rightarrow> join_reply n c jc d i j w res)))"

lemma join_tables_result:
  assumes "working a n = Some c" "working a (right_table jc) = Some d" "shows_table c left" "shows_table d right"
  shows "\<exists>res. join_tables n jc w left right = Inr res \<and> join_result a n jc w res"
proof -
  obtain cs L ds R where c: "c = (cs, L)" and d: "d = (ds, R)" by force
  obtain lh lrs rh rrs where x: "left = (lh, lrs)" "right = (rh, rrs)" by force
  have h: "lh = map col_name cs" "rh = map col_name ds" using assms(3,4) by (simp_all add: c d x shows_table_def)
  show ?thesis
  proof (cases "join_columns n jc c d")
    case None
    then have "join_tables n jc w left right = Inr (error_message ''JOIN column not found.'')"
      by (auto simp: c d x h join_tables_def error_message_def split: option.splits)
    then show ?thesis using None assms(1,2) by (simp add: join_result_def)
  next
    case (Some ij)
    then obtain i j where ij: "ij = (i, j)" "find_col_index (map col_name cs) n (left_col jc) = Some i"
      "find_col_index (map col_name ds) (right_table jc) (right_col jc) = Some j"
      by (auto simp: c d split: option.splits)
    from join_tables_product [OF _ _ ij(2,3), of L lh lrs R rh rrs w] assms
    obtain res where "join_tables n jc w left right = Inr res" "join_reply n c jc d i j w res"
      by (auto simp: c d x)
    then show ?thesis using Some ij(1) assms(1,2) by (auto simp: join_result_def)
  qed
qed

lemma execute_join_sim:
  assumes rel: "session_rel s (b, a)"
  shows "ok (execute_join n jc w) s (\<lambda>res s'. join_result a n jc w res \<and> session_rel s' (b, a))"
  unfolding execute_join_def
proof (rule or_error_ok [OF session_select_sim [OF rel]], elim conjE)
  fix left s1 assume l: "rows_of a n (Inr left)" and s1: "session_rel s1 (b, a)"
  then obtain c where c: "working a n = Some c" "shows_table c left" by (auto simp: rows_of_def split: option.splits)
  show "ok (or_error (session_select_all (right_table jc)) (\<lambda>right. liftR (join_tables n jc w left right))) s1
      (\<lambda>res s'. join_result a n jc w res \<and> session_rel s' (b, a))"
  proof (rule or_error_ok [OF session_select_sim [OF s1]], elim conjE)
    fix right s2 assume r: "rows_of a (right_table jc) (Inr right)" and s2: "session_rel s2 (b, a)"
    then obtain d where d: "working a (right_table jc) = Some d" "shows_table d right" by (auto simp: rows_of_def split: option.splits)
    obtain res where "join_tables n jc w left right = Inr res" "join_result a n jc w res"
      using join_tables_result [OF c(1) d(1) c(2) d(2)] by blast
    then show "ok (liftR (join_tables n jc w left right)) s2 (\<lambda>res s'. join_result a n jc w res \<and> session_rel s' (b, a))"
      using s2 by (simp add: ok_simps)
  qed (use c in \<open>auto simp: rows_of_def join_result_def error_message_def split: option.splits\<close>)
qed (auto simp: rows_of_def join_result_def error_message_def split: option.splits)

section \<open>Every statement\<close>

text \<open>The operation a statement stands for, and the message that reports it.\<close>

fun stmt_cmd :: "statement \<Rightarrow> (cmd \<times> string) option" where
  "stmt_cmd (SCreateTable n cs) = Some (CreateTable n cs, ''Table '' @ quoted n @ '' created.'')"
| "stmt_cmd (SInsert n vs) = Some (Insert n vs, ''1 row inserted.'')"
| "stmt_cmd SBegin = Some (Begin, ''Transaction started.'')"
| "stmt_cmd SCommit = Some (Commit, ''Transaction committed.'')"
| "stmt_cmd SRollback = Some (Rollback, ''Transaction rolled back.'')"
| "stmt_cmd (SSelect n j w) = None"
| "stmt_cmd (SUnknown s) = None"

definition stmt_exec :: "statement \<Rightarrow> asession \<Rightarrow> asession" where
  "stmt_exec st x = (case stmt_cmd st of Some (c, _) \<Rightarrow> s_exec c x | None \<Rightarrow> x)"

definition stmt_within :: "files \<Rightarrow> statement \<Rightarrow> asession \<Rightarrow> bool" where
  "stmt_within fs st x \<longleftrightarrow> (case stmt_cmd st of Some (c, _) \<Rightarrow> s_within fs c x | None \<Rightarrow> True)"

definition cmd_message :: "cmd \<Rightarrow> string \<Rightarrow> asession \<Rightarrow> execute_result" where
  "cmd_message c msg x = (case s_rejected c x of None \<Rightarrow> EMessage msg | Some e \<Rightarrow> error_message e)"

fun stmt_reply :: "asession \<Rightarrow> statement \<Rightarrow> execute_result \<Rightarrow> bool" where
  "stmt_reply x (SSelect n None w) res \<longleftrightarrow> select_result (snd x) n w res"
| "stmt_reply x (SSelect n (Some jc) w) res \<longleftrightarrow> join_result (snd x) n jc w res"
| "stmt_reply x (SUnknown s) res \<longleftrightarrow> res = EMessage (''Unrecognised command: '' @ quoted s)"
| "stmt_reply x st res \<longleftrightarrow> (case stmt_cmd st of Some (c, msg) \<Rightarrow> res = cmd_message c msg x | None \<Rightarrow> False)"

lemma or_error_unit: "or_error (sbind m (\<lambda>_. ret AUnit)) (\<lambda>_. g) = or_error m (\<lambda>_. g)"
proof
  fix s
  show "or_error (sbind m (\<lambda>_. ret AUnit)) (\<lambda>_. g) s = or_error m (\<lambda>_. g) s"
    by (cases "m s"; cases "fst (m s)"; cases "projl (fst (m s))") (auto simp: or_error_def sbind_def caught_def ret_def)
qed

lemma execute_cmd:
  assumes "stmt_cmd st = Some (c, msg)"
  shows "execute fs st = or_error (session_cmd fs c) (\<lambda>_. ret (EMessage msg))"
  using assms by (cases st) (auto simp: or_error_unit)

lemma stmt_cmd_reply: "stmt_cmd st = Some (c, msg) \<Longrightarrow> stmt_reply x st res \<longleftrightarrow> res = cmd_message c msg x"
  by (cases st) auto

lemma execute_cmd_sim:
  assumes "session_rel s x" "s_within fs c x"
  shows "ok (or_error (session_cmd fs c) (\<lambda>_. ret (EMessage msg))) s (\<lambda>res s'. res = cmd_message c msg x \<and> session_rel s' (s_exec c x))"
  by (rule or_error_ok [OF session_cmd_sim [OF assms]])
    (auto simp: ok_ret s_answers_def answers_def cmd_message_def error_message_def split: option.splits)

lemma execute_sim:
  assumes rel: "session_rel s x" and wi: "stmt_within fs st x"
  shows "ok (execute fs st) s (\<lambda>res s'. stmt_reply x st res \<and> session_rel s' (stmt_exec st x))"
proof (cases "stmt_cmd st")
  case (Some y)
  obtain c msg where y: "y = (c, msg)" by force
  note cmd = Some [unfolded y]
  show ?thesis
    using execute_cmd_sim [OF rel, of fs c msg] wi cmd
    by (simp add: execute_cmd [OF cmd] stmt_cmd_reply [OF cmd] stmt_exec_def stmt_within_def)
next
  case None
  obtain b a where x: "x = (b, a)" by force
  note rel' = rel [unfolded x]
  have same: "stmt_exec st x = (b, a)" by (simp add: stmt_exec_def None x)
  from None show ?thesis
  proof (cases st)
    case (SSelect n j w)
    have "stmt_exec st x = (b, a)" "execute fs st = (case j of Some jc \<Rightarrow> execute_join n jc w | None \<Rightarrow> execute_select n w)"
      using same SSelect by simp_all
    then show ?thesis
      using execute_select_sim [OF rel'] execute_join_sim [OF rel']
      by (cases j) (simp_all add: SSelect x del: session_rel.simps)
  qed (use rel same in \<open>auto simp: ok_ret x\<close>)
qed

end
