(* ===== verification/Executor_Props.thy ===== *)
theory Executor_Props
  imports Executor_Spec
begin

text \<open>
  The properties of \<open>src/executor.rs\<close>: SELECT filters, JOIN is a filtered product, and what
  fails becomes an error message.
\<close>

section \<open>Properties\<close>

text \<open>Property C12. SELECT returns exactly the rows of the table that satisfy the WHERE clause, as
  text, under the columns of its schema, in the order of the table, which is that of the keys
  when they are distinct. It never panics, whatever the clause is about, and changes nothing.\<close>

theorem select_filters:
  assumes "session_rel s (b, a)" "working a n = Some (cs, R)"
  shows "ok (execute fs (SSelect n None w)) s (\<lambda>res s'. session_rel s' (b, a) \<and>
    (\<exists>rows. mset rows = R \<and> (distinct (map (row_key cs) rows) \<longrightarrow> sorted (map (\<lambda>r. sint (row_key cs r)) rows)) \<and>
      res = ERows (map col_name cs) (string_rows (filter (matches w (map col_name cs)) rows))))"
  unfolding execute.simps option.case
  by (rule ok_mono [OF execute_select_sim [OF assms(1), of n w]])
    (use assms(2) in \<open>auto simp: select_result_def select_reply_def shows_table_def simp del: session_rel.simps\<close>)

definition over :: "int \<Rightarrow> expr option" where
  "over i = Some \<lparr>expr_column = ''ID'', expr_op = CGt, expr_value = VInteger (word_of_int i)\<rparr>"

theorem select_filters_witness:
  "ok (sbind (session_cmds (\<lambda>_. ([], [])) demo_cmds) (\<lambda>_. execute (\<lambda>_. ([], [])) (SSelect ''users'' None (over 1)))) demo_session
     (\<lambda>res _. res = ERows [''id'', ''name''] [[''2'', ''bob'']])"
  unfolding ok_bind
proof (rule ok_mono [OF demo_run])
  fix s assume "session_rel s (False, demo_db)"
  from select_filters [OF this demo_db(1), of "\<lambda>_. ([], [])" "over 1"]
  show "ok (execute (\<lambda>_. ([], [])) (SSelect ''users'' None (over 1))) s (\<lambda>res _. res = ERows [''id'', ''name''] [[''2'', ''bob'']])"
    by (rule ok_mono)
      (auto simp: demo_columns_def matches_eval over_def eq_ignore_ascii_case_def ascii_lower_def bob_def string_rows_def show_int_def show_nat.simps)
qed

text \<open>Property C11. JOIN equals its reference definition: the pairs of a row of the left and a row
  of the right table, in the order of the two loops, whose values in the join columns are
  equal; their values one behind the other, filtered by the WHERE clause on the prefixed
  column names. It never panics and changes nothing.\<close>

theorem join_is_product:
  assumes "session_rel s (b, a)" "working a n = Some (cs, L)" "working a (right_table jc) = Some (ds, R)"
    and "find_col_index (map col_name cs) n (left_col jc) = Some i"
      "find_col_index (map col_name ds) (right_table jc) (right_col jc) = Some j"
  shows "ok (execute fs (SSelect n (Some jc) w)) s (\<lambda>res s'. session_rel s' (b, a) \<and>
    (\<exists>ls rs. mset ls = L \<and> mset rs = R \<and>
      (let hs = map (\<lambda>c. n @ ''.'' @ col_name c) cs @ map (\<lambda>d. right_table jc @ ''.'' @ col_name d) ds;
           pairs = filter (\<lambda>(l, r). row_values l ! i = row_values r ! j) (List.product ls rs)
       in res = ERows hs (string_rows (filter (matches w hs) (map (\<lambda>(l, r). \<lparr>row_values = row_values l @ row_values r\<rparr>) pairs))))))"
proof -
  have "joins_on i j = (\<lambda>(l, r). row_values l ! i = row_values r ! j)" "case_prod paired = (\<lambda>(l, r). \<lparr>row_values = row_values l @ row_values r\<rparr>)"
    by (auto simp: joins_on_def paired_def fun_eq_iff)
  note eqs = this
  show ?thesis
    unfolding execute.simps option.case
    by (rule ok_mono [OF execute_join_sim [OF assms(1), of n jc w]])
      (use eqs assms(2-5) in \<open>auto simp: join_result_def join_reply_def shows_table_def join_headers_def Let_def comp_def simp del: session_rel.simps\<close>)
qed

theorem join_is_product_witness:
  "ok (sbind (session_cmds (\<lambda>_. ([], [])) demo_cmds) (\<lambda>_. execute (\<lambda>_. ([], []))
       (SSelect ''users'' (Some \<lparr>right_table = ''users'', left_col = ''users.id'', right_col = ''id''\<rparr>) None))) demo_session
     (\<lambda>res _. res = ERows [''users.id'', ''users.name'', ''users.id'', ''users.name''] [[''2'', ''bob'', ''2'', ''bob'']])"
  (is "ok (sbind _ (\<lambda>_. execute _ (SSelect _ (Some ?jc) None))) _ _")
  unfolding ok_bind
proof (rule ok_mono [OF demo_run])
  fix s assume rel: "session_rel s (False, demo_db)"
  have idx: "find_col_index (map col_name demo_columns) ''users'' (left_col ?jc) = Some 0"
    "find_col_index (map col_name demo_columns) (right_table ?jc) (right_col ?jc) = Some 0"
    by (simp_all add: find_col_index_def demo_columns_def eq_ignore_ascii_case_def)
  have "working demo_db (right_table ?jc) = Some (demo_columns, {#bob#})" by (simp add: demo_db)
  from join_is_product [OF rel demo_db(1) this idx, of "\<lambda>_. ([], [])" None]
  show "ok (execute (\<lambda>_. ([], [])) (SSelect ''users'' (Some ?jc) None)) s
      (\<lambda>res _. res = ERows [''users.id'', ''users.name'', ''users.id'', ''users.name''] [[''2'', ''bob'', ''2'', ''bob'']])"
    by (rule ok_mono)
      (auto simp: Let_def demo_columns_def matches_eval bob_def string_rows_def show_int_def show_nat.simps)
qed

end
