(* ===== verification/Server.thy ===== *)
theory Server
  imports Executor Protocol
begin

text \<open>
  \<open>src/server.rs\<close> and \<open>src/disk.rs\<close>: loading the tables at start, one request, and the loop
  of one connection. The loop reads from the bytes still to come and returns the bytes it
  writes; the socket delivers and takes all of them. \<open>fs\<close> are the files that a CREATE TABLE
  finds at its path.
\<close>

section \<open>Start\<close>

text \<open>\<open>find_db_files\<close>: \<open>entries\<close> are the names in the directory, \<open>None\<close> an entry that cannot
  be read or whose name is not UTF-8.\<close>

definition find_db_files :: "string option list \<Rightarrow> string list" where
  "find_db_files entries =
     List.map_filter (\<lambda>entry. case entry of
       None \<Rightarrow> None
     | Some name \<Rightarrow> if ends_with ''.db'' name then Some name else None) entries"

text \<open>\<open>path.trim_end_matches(".db")\<close>\<close>

definition table_of_path :: "string \<Rightarrow> string" where
  "table_of_path path = strip_back [''.db''] path"

text \<open>What \<open>{}\<close> prints of an error value.\<close>

definition error_text :: "error \<Rightarrow> string" where
  "error_text e = (case e of Fail msg \<Rightarrow> msg | _ \<Rightarrow> [])"

text \<open>The loop over the files at the start of the server and of the REPL, with the lines it
  prints; a table that does not open is a warning, a panic stops the process.\<close>

definition load_line :: "string \<Rightarrow> unit result \<Rightarrow> string" where
  "load_line path result =
     (case result of
        Inr _ \<Rightarrow> ''Loaded table '' @ quoted (table_of_path path) @ '' from '' @ path
      | Inl e \<Rightarrow> ''Warning: failed to load '' @ path @ '': '' @ error_text e)"

fun load_tables :: "files \<Rightarrow> string list \<Rightarrow> (storage, string list) sm" where
  "load_tables fs [] = ret []"
| "load_tables fs (path # paths) =
     sbind (caught (open_table fs (table_of_path path) path)) (\<lambda>result.
     sbind (load_tables fs paths) (\<lambda>out. ret (load_line path result # out)))"

section \<open>One request\<close>

fun message_of :: "execute_result \<Rightarrow> message" where
  "message_of (EMessage s) =
     (if starts_with ''Error:'' s then MError (trim (strip_front [''Error:''] s)) else MOk s)"
| "message_of (ERows headers rows) = MRows headers rows"

text \<open>\<open>match session.dump_btree(table)\<close>\<close>

definition dump_reply :: "string result \<Rightarrow> message result" where
  "dump_reply result =
     (case result of Inr tree \<Rightarrow> Inr (MOk tree) | Inl (Fail e) \<Rightarrow> Inr (MError e) | Inl e \<Rightarrow> Inl e)"

definition dispatch :: "(string \<Rightarrow> string) \<Rightarrow> files \<Rightarrow> string \<Rightarrow> (session, message) sm" where
  "dispatch uc fs text =
     (let sql = trim text in
      case strip_prefix ''.btree '' sql of
        Some stripped \<Rightarrow> sbind (caught (session_dump_btree (trim stripped))) (\<lambda>result. liftR (dump_reply result))
      | None \<Rightarrow>
          sbind (liftR (parse uc sql)) (\<lambda>statement.
          sbind (execute fs statement) (\<lambda>result. ret (message_of result))))"

text \<open>\<open>{:?}\<close> of a message that a client should not send.\<close>

definition debug_strs :: "string list \<Rightarrow> string" where
  "debug_strs xs = ''['' @ join_with '', '' (map debug_str xs) @ '']''"

fun debug_message :: "message \<Rightarrow> string" where
  "debug_message (MQuery s) = ''Query('' @ debug_str s @ '')''"
| "debug_message (MOk s) = ''Ok('' @ debug_str s @ '')''"
| "debug_message (MError s) = ''Error('' @ debug_str s @ '')''"
| "debug_message (MRows headers rows) =
     ''Rows { headers: '' @ debug_strs headers @ '', rows: ['' @ join_with '', '' (map debug_strs rows) @ ''] }''"

fun respond :: "(string \<Rightarrow> string) \<Rightarrow> files \<Rightarrow> message \<Rightarrow> (session, message) sm" where
  "respond uc fs (MQuery sql) = dispatch uc fs sql"
| "respond uc fs other = ret (MError (''Unexpected message from client: '' @ debug_message other))"

section \<open>One connection\<close>

lemma read_message_consumes: "read_message r = Inr (m, r') \<Longrightarrow> length r' < length r"
  by (auto simp: read_message_def read_exact_bytes_def Let_def rbind_Inr_iff split: if_splits)

text \<open>Until the end of the stream, an error of the stream, or a panic.\<close>

function session_loop :: "(string \<Rightarrow> string) \<Rightarrow> files \<Rightarrow> byte list \<Rightarrow> session \<Rightarrow> unit result \<times> byte list \<times> session" where
  "session_loop uc fs r s =
     (case read_message r of
        Inl e \<Rightarrow> (if e = unexpected_eof then Inr () else Inl e, [], s)
      | Inr (msg, r') \<Rightarrow>
          (case respond uc fs msg s of
             (Inl e, s') \<Rightarrow> (Inl e, [], s')
           | (Inr response, s') \<Rightarrow>
               let (res, out, s'') = session_loop uc fs r' s' in (res, write_message response @ out, s'')))"
  by pat_completeness auto
termination
  by (relation "measure (\<lambda>(uc, fs, r, s). length r)") (auto intro: read_message_consumes)

declare session_loop.simps [simp del]

text \<open>\<open>handle_session\<close> and the session's \<open>Drop\<close> behind it: a connection from start to end.
  A panic outside the storage lock unwinds through the loop and runs the \<open>Drop\<close> as well; one
  under the lock poisons it, which theory \<open>Concurrency\<close> models.\<close>

definition connection :: "(string \<Rightarrow> string) \<Rightarrow> files \<Rightarrow> byte list \<Rightarrow> session \<Rightarrow> byte list \<times> session" where
  "connection uc fs r s = (let (res, out, s') = session_loop uc fs r s in (out, snd (session_drop s')))"

section \<open>The server\<close>

text \<open>The storage that its sessions share, and the counter \<open>NEXT_SESSION_ID\<close>.\<close>

record server =
  sv_shared :: shared
  sv_next_id :: u64

text \<open>\<open>bind\<close> is the network, which refuses an address with an error or listens there; then the
  server says so, or \<open>run\<close> returns the error.\<close>

definition server_bind :: "(string \<Rightarrow> string option) \<Rightarrow> string \<Rightarrow> u16 \<Rightarrow> string + string" where
  "server_bind bind host port =
     (let addr = host @ '':'' @ show_nat (unat port) in
      case bind addr of
        Some e \<Rightarrow> Inl (''Bind '' @ addr @ '' failed: '' @ e)
      | None \<Rightarrow> Inr (''mukhidb server listening on '' @ addr))"

text \<open>\<open>entries\<close> is the directory at the start.\<close>

definition server_start :: "files \<Rightarrow> string option list \<Rightarrow> (string list \<times> server) result" where
  "server_start fs entries =
     (case load_tables fs (find_db_files entries) storage_new of
        (Inl e, _) \<Rightarrow> Inl e
      | (Inr out, st) \<Rightarrow> Inr (out, \<lparr>sv_shared = shared_new st, sv_next_id = 1\<rparr>))"

text \<open>A client from \<open>accept\<close> to the end of its thread, when no other is connected: its bytes,
  and the bytes it is sent. Theory \<open>Concurrency\<close> interleaves the sessions of several.\<close>

definition server_accept :: "(string \<Rightarrow> string) \<Rightarrow> files \<Rightarrow> byte list \<Rightarrow> (server, byte list) sm" where
  "server_accept uc fs r y =
     (let (out, s) = connection uc fs r (session_new (sv_shared y) (sv_next_id y)) in
      (Inr out, y\<lparr>sv_shared := ss_shared s, sv_next_id := sv_next_id y + 1\<rparr>))"

end
