(* ===== verification/Server_Spec.thy ===== *)
theory Server_Spec
  imports Server Executor_Spec Parser_Spec
begin

text \<open>
  A request and a stream of requests to the server (\<open>src/server.rs\<close>) over the abstract
  database: the reply to a plain statement and to a \<open>.btree\<close>, whatever they are about, and
  the loop of a connection as the replies to its requests one after the other.
\<close>

section \<open>One request\<close>

text \<open>The message of an error: what the executor put in front of it is taken off again.\<close>

lemma message_of_error:
  assumes "solid_str msg" "\<not> starts_with ''Error:'' msg"
  shows "message_of (EMessage (''Error: '' @ msg)) = MError msg"
proof -
  have "strip_front [''Error:''] (''Error:'' @ CHR '' '' # msg) = strip_front [''Error:''] (CHR '' '' # msg)"
    by (subst strip_front.simps) simp
  also have "\<dots> = CHR '' '' # msg" by (rule strip_front_stop) simp
  finally show ?thesis using solid_trimmed [OF assms(1)] by (simp add: trim_space)
qed

lemma not_btree: "plain uc st \<Longrightarrow> strip_prefix ''.btree '' (sql_of st) = None"
  by (cases st) (simp_all add: strip_prefix_def)

lemma dispatch_plain:
  assumes "plain uc st"
  shows "dispatch uc fs (sql_of st) = sbind (execute fs st) (\<lambda>result. ret (message_of result))"
  using not_btree [OF assms] parse_plain [OF assms] solid_trimmed [OF plain_solid [OF assms]]
  by (simp add: dispatch_def Let_def liftR_def sbind_def fun_eq_iff)

text \<open>A client asks for a statement or, with \<open>.btree\<close>, for the tree of a table.\<close>

datatype ask = Stmt statement | Tree string

fun ask_text :: "ask \<Rightarrow> string" where
  "ask_text (Stmt st) = sql_of st"
| "ask_text (Tree n) = ''.btree '' @ n"

fun plain_ask :: "(string \<Rightarrow> string) \<Rightarrow> ask \<Rightarrow> bool" where
  "plain_ask uc (Stmt st) \<longleftrightarrow> plain uc st"
| "plain_ask uc (Tree n) \<longleftrightarrow> word n"

fun ask_within :: "files \<Rightarrow> ask \<Rightarrow> asession \<Rightarrow> bool" where
  "ask_within fs (Stmt st) x \<longleftrightarrow> stmt_within fs st x"
| "ask_within fs (Tree n) x \<longleftrightarrow> True"

fun ask_exec :: "ask \<Rightarrow> asession \<Rightarrow> asession" where
  "ask_exec (Stmt st) x = stmt_exec st x"
| "ask_exec (Tree n) x = x"

definition tree_reply :: "adb \<Rightarrow> string \<Rightarrow> message \<Rightarrow> bool" where
  "tree_reply a n m \<longleftrightarrow> (case working a n of
     None \<Rightarrow> m = MError (no_table n)
   | Some c \<Rightarrow> \<exists>str. m = MOk str \<and> dumps_table c str)"

fun ask_reply :: "asession \<Rightarrow> ask \<Rightarrow> message \<Rightarrow> bool" where
  "ask_reply x (Stmt st) m \<longleftrightarrow> (\<exists>res. stmt_reply x st res \<and> m = message_of res)"
| "ask_reply x (Tree n) m \<longleftrightarrow> tree_reply (snd x) n m"

lemma dispatch_tree:
  assumes "word n"
  shows "dispatch uc fs (''.btree '' @ n) = sbind (caught (session_dump_btree n)) (\<lambda>result. liftR (dump_reply result))"
proof -
  have n: "solid_str n" using assms by (intro ref_solid word_ref)
  have "solid_str ''.btree''" by (simp add: solid_str_def solid_def)
  from solid_append [OF this n, of "'' ''"] have "trim (''.btree '' @ n) = ''.btree '' @ n" by (intro solid_trimmed) simp
  then show ?thesis
    using solid_trimmed [OF n] by (simp add: dispatch_def Let_def strip_prefix_def starts_with_append)
qed

lemma tree_sim:
  assumes rel: "session_rel s (b, a)" and "word n"
  shows "ok (dispatch uc fs (''.btree '' @ n)) s (\<lambda>m s'. tree_reply a n m \<and> session_rel s' (b, a))"
proof -
  have "ok (caught (session_dump_btree n)) s (\<lambda>r s'. (\<exists>m. dump_reply r = Inr m \<and> tree_reply a n m) \<and> session_rel s' (b, a))"
    unfolding session_readers
  proof (rule gated_sim [OF rel _ refl])
    have db: "db_rel (sh_storage (ss_shared s)) a" using rel by simp
    show "ok (caught (dump_btree n)) (sh_storage (ss_shared s)) (\<lambda>r st. (\<exists>m. dump_reply r = Inr m \<and> tree_reply a n m) \<and> db_rel st a)"
    proof (cases "working a n")
      case None
      then have "dump_btree n (sh_storage (ss_shared s)) = (Inl (Fail (no_table n)), sh_storage (ss_shared s))"
        using db_rel_dom [OF db, of n] by (simp add: dump_btree_def with_table_rejects)
      then show ?thesis by (rule caught_fail) (simp add: dump_reply_def tree_reply_def None db)
    next
      case (Some c)
      show ?thesis
        by (rule ok_mono [OF caught_ok [OF dump_sim [OF db Some]]]) (auto simp: dump_reply_def tree_reply_def Some)
    qed
  qed
  then show ?thesis
    unfolding dispatch_tree [OF assms(2)] ok_bind by (rule ok_mono) (auto simp: ok_liftR)
qed

lemma dispatch_sim:
  assumes "session_rel s x" "plain_ask uc q \<and> ask_within fs q x"
  shows "ok (dispatch uc fs (ask_text q)) s (\<lambda>m s'. ask_reply x q m \<and> session_rel s' (ask_exec q x))"
proof (cases q)
  case (Stmt st)
  show ?thesis
    using assms(2) unfolding Stmt ask_text.simps
    by (subst dispatch_plain, simp)
      (auto simp: ok_bind ok_ret intro!: ok_mono [OF execute_sim [OF assms(1)]])
next
  case (Tree n)
  obtain b a where x: "x = (b, a)" by force
  show ?thesis using tree_sim [OF assms(1) [unfolded x]] assms(2) by (simp add: Tree x del: session_rel.simps)
qed

interpretation srv: simulation session_rel "\<lambda>q. dispatch uc fs (ask_text q)" "\<lambda>q x. plain_ask uc q \<and> ask_within fs q x" ask_exec ask_reply
  for uc fs
  by unfold_locales (rule dispatch_sim)

section \<open>A stream of requests\<close>

abbreviation dispatch_all :: "(string \<Rightarrow> string) \<Rightarrow> files \<Rightarrow> string list \<Rightarrow> (session, message list) sm" where
  "dispatch_all uc fs \<equiv> run_seq (dispatch uc fs)"

abbreviation asks_legal :: "(string \<Rightarrow> string) \<Rightarrow> files \<Rightarrow> ask list \<Rightarrow> asession \<Rightarrow> bool" where
  "asks_legal uc fs \<equiv> all_within (\<lambda>q x. plain_ask uc q \<and> ask_within fs q x) ask_exec"

abbreviation replies :: "asession \<Rightarrow> ask list \<Rightarrow> message list \<Rightarrow> bool" where
  "replies \<equiv> all_replies ask_reply ask_exec"

definition stream :: "message list \<Rightarrow> byte list" where
  "stream ms = concat (map write_message ms)"

lemma stream_simps [simp]: "stream [] = []" "stream (m # ms) = write_message m @ stream ms"
  by (simp_all add: stream_def)

lemma session_loop_end: "session_loop uc fs [] s = (Inr (), [], s)"
  by (subst session_loop.simps) (simp add: read_message_def read_exact_bytes_def)

lemma session_loop_query:
  assumes "message_ok (MQuery q)" "dispatch uc fs q s = (Inr m, s')"
  shows "session_loop uc fs (write_message (MQuery q) @ r) s =
    (let (res, out, s'') = session_loop uc fs r s' in (res, write_message m @ out, s''))"
  by (subst session_loop.simps) (simp add: read_write_message [OF assms(1)] assms(2))

lemma session_loop_panic:
  assumes "message_ok (MQuery q)" "dispatch uc fs q s = (Inl e, s')"
  shows "session_loop uc fs (write_message (MQuery q) @ r) s = (Inl e, [], s')"
  by (subst session_loop.simps) (simp add: read_write_message [OF assms(1)] assms(2))

text \<open>Queries answered one after the other, up to the first that does not return.\<close>

primrec answer_queries :: "(string \<Rightarrow> string) \<Rightarrow> files \<Rightarrow> string list \<Rightarrow> session \<Rightarrow> unit result \<times> message list \<times> session" where
  "answer_queries uc fs [] s = (Inr (), [], s)"
| "answer_queries uc fs (q # qs) s =
     (case dispatch uc fs q s of
        (Inl e, s') \<Rightarrow> (Inl e, [], s')
      | (Inr m, s') \<Rightarrow> let (res, ms, s'') = answer_queries uc fs qs s' in (res, m # ms, s''))"

lemma session_loop_all:
  "list_all message_ok (map MQuery qs) \<Longrightarrow> dispatch_all uc fs qs s = (Inr ms, s') \<Longrightarrow>
   session_loop uc fs (stream (map MQuery qs)) s = (Inr (), stream ms, s')"
proof (induction qs arbitrary: s ms)
  case Nil
  then show ?case by (simp add: session_loop_end ret_def)
next
  case (Cons q qs)
  obtain m s1 ms' where run: "dispatch uc fs q s = (Inr m, s1)" "dispatch_all uc fs qs s1 = (Inr ms', s')" "ms = m # ms'"
    using Cons.prems(2) by (auto simp: sbind_def ret_def split: prod.splits sum.splits)
  show ?case using Cons.IH [OF _ run(2)] Cons.prems(1) session_loop_query [OF _ run(1)] run(3) by simp
qed

section \<open>Clients one after the other\<close>

definition client_bytes :: "ask list \<Rightarrow> byte list" where
  "client_bytes qs = stream (map (MQuery \<circ> ask_text) qs)"

definition client_legal :: "(string \<Rightarrow> string) \<Rightarrow> files \<Rightarrow> ask list \<Rightarrow> adb \<Rightarrow> bool" where
  "client_legal uc fs qs a \<longleftrightarrow> asks_legal uc fs qs (False, a) \<and> list_all (\<lambda>q. message_ok (MQuery (ask_text q))) qs"

definition client_exec :: "ask list \<Rightarrow> adb \<Rightarrow> adb" where
  "client_exec qs a = snd (s_drop (fold ask_exec qs (False, a)))"

definition client_reply :: "adb \<Rightarrow> ask list \<Rightarrow> byte list \<Rightarrow> bool" where
  "client_reply a qs out \<longleftrightarrow> (\<exists>ms. out = stream ms \<and> replies (False, a) qs ms)"

definition server_rel :: "server \<Rightarrow> adb \<Rightarrow> bool" where
  "server_rel y a \<longleftrightarrow> db_rel (sh_storage (sv_shared y)) a \<and> sh_owner (sv_shared y) = None \<and> enrolled a = {}"

lemma connection_sim:
  assumes "session_rel s x" "asks_legal uc fs qs x" "list_all (\<lambda>q. message_ok (MQuery (ask_text q))) qs"
  obtains ms s1 s2 where "dispatch_all uc fs (map ask_text qs) s = (Inr ms, s1)" "session_drop s1 = (Inr (), s2)" "replies x qs ms"
    "connection uc fs (client_bytes qs) s = (stream ms, s2)" "session_rel s2 (s_drop (fold ask_exec qs x))"
proof -
  obtain ms s1 where run: "dispatch_all uc fs (map ask_text qs) s = (Inr ms, s1)" and m: "replies x qs ms"
    and s1: "session_rel s1 (fold ask_exec qs x)"
    using srv.runs [OF assms(1,2)] by (auto simp: run_seq_map elim!: okE)
  have "session_loop uc fs (stream (map MQuery (map ask_text qs))) s = (Inr (), stream ms, s1)"
    by (rule session_loop_all [OF _ run]) (use assms(3) in \<open>simp add: list_all_iff\<close>)
  moreover obtain s2 where s2: "session_drop s1 = (Inr (), s2)" "session_rel s2 (s_drop (fold ask_exec qs x))"
    using session_drop_sim [OF s1] by (auto elim!: okE)
  ultimately have "connection uc fs (client_bytes qs) s = (stream ms, s2)" by (simp add: connection_def client_bytes_def)
  then show ?thesis by (rule that [OF run s2(1) m _ s2(2)])
qed

lemma new_session_rel: "server_rel y a \<Longrightarrow> session_rel (session_new (sv_shared y) i) (False, a)"
  by (simp add: server_rel_def session_new_def)

lemma accept_sim:
  assumes rel: "server_rel y a" and legal: "client_legal uc fs qs a"
  shows "ok (server_accept uc fs (client_bytes qs)) y (\<lambda>out y'. client_reply a qs out \<and> server_rel y' (client_exec qs a))"
proof -
  have "asks_legal uc fs qs (False, a)" "list_all (\<lambda>q. message_ok (MQuery (ask_text q))) qs"
    using legal by (simp_all only: client_legal_def)
  from connection_sim [OF new_session_rel [OF rel] this]
  obtain ms s2 where c: "replies (False, a) qs ms" "connection uc fs (client_bytes qs) (session_new (sv_shared y) (sv_next_id y)) = (stream ms, s2)"
    "session_rel s2 (s_drop (fold ask_exec qs (False, a)))" by blast
  obtain b a' where x: "fold ask_exec qs (False, a) = (b, a')" by force
  have "server_rel (y\<lparr>sv_shared := ss_shared s2, sv_next_id := sv_next_id y + 1\<rparr>) (client_exec qs a)"
    using c(3) by (simp add: server_rel_def client_exec_def x)
  moreover have "client_reply a qs (stream ms)" using c(1) by (auto simp only: client_reply_def)
  ultimately show ?thesis by (simp add: ok_def server_accept_def c(2))
qed

interpretation clients: simulation server_rel "\<lambda>qs. server_accept uc fs (client_bytes qs)" "client_legal uc fs" client_exec client_reply
  for uc fs
  by unfold_locales (rule accept_sim)

section \<open>An example: requests, some of them wrong\<close>

definition demo_asks :: "ask list" where
  "demo_asks = [Stmt (SCreateTable ''users'' demo_columns), Stmt (SInsert ''users'' [VInteger 2, VText ''bob'']),
     Stmt (SInsert ''users'' [VInteger 2]), Stmt SBegin, Stmt SBegin, Tree ''cars'', Stmt (SSelect ''users'' None None)]"

lemma demo_asks_text:
  "map ask_text demo_asks = [''CREATE TABLE users (id INTEGER, name TEXT)'', ''INSERT INTO users VALUES (2, 'bob')'',
     ''INSERT INTO users VALUES (2)'', ''BEGIN'', ''BEGIN'', ''.btree cars'', ''SELECT * FROM users'']"
proof -
  have "show_int (sint (2 :: i64)) = ''2''" by (simp add: show_int_def show_nat.simps)
  then show ?thesis by (simp add: demo_asks_def demo_columns_def sql_column_def quoted_def sql_join_def sql_where_def)
qed

lemma demo_asks_short: "list_all (\<lambda>q. message_ok (MQuery (ask_text q))) demo_asks"
proof -
  have "list_all (\<lambda>s. message_ok (MQuery s)) (map ask_text demo_asks)" unfolding demo_asks_text by simp
  then show ?thesis by (simp add: list_all_iff)
qed

lemma demo_short_row: "row_error demo_columns [VInteger 2] = Some ''Expected 2 values, got 1.''"
  by (simp add: row_error_def demo_columns_def show_nat.simps)

lemma demo_asks_legal: "asks_legal (\<lambda>s. s) (\<lambda>_. ([], [])) demo_asks (False, a_new)"
proof -
  have "list_all (plain_ask (\<lambda>s. s)) demo_asks"
    by (simp add: demo_asks_def demo_columns_def word_def word_char_def free_def ascii_upper_def is_quote_def)
  then show ?thesis
    by (simp add: demo_asks_def demo_columns_ok demo_row demo_short_row good_row_accepted a_new_def a_create_def a_insert_def a_begin_def
        stmt_exec_def stmt_within_def s_within_def MAX_PAGES_def del: plain_ask.simps)
qed

lemma demo_asks_replies:
  assumes "replies (False, a_new) demo_asks ms"
  shows "ms = [MOk ''Table 'users' created.'', MOk ''1 row inserted.'', MError ''Expected 2 values, got 1.'', MOk ''Transaction started.'',
       MError ''Already in a transaction.'', MError ''Table 'cars' not found.'', MRows [''id'', ''name''] [[''2'', ''bob'']]]"
proof -
  let ?a1 = "a_create ''users'' demo_columns a_new" and ?a2 = "a_begin demo_db"
  have e: "ask_exec (Stmt (SCreateTable ''users'' demo_columns)) (False, a_new) = (False, ?a1)"
    "ask_exec (Stmt (SInsert ''users'' [VInteger 2, VText ''bob''])) (False, ?a1) = (False, demo_db)"
    "ask_exec (Stmt (SInsert ''users'' [VInteger 2])) (False, demo_db) = (False, demo_db)"
    "ask_exec (Stmt SBegin) (False, demo_db) = (True, ?a2)" "ask_exec (Stmt SBegin) (True, ?a2) = (True, ?a2)"
    "ask_exec (Tree ''cars'') (True, ?a2) = (True, ?a2)"
    by (simp_all add: stmt_exec_def demo_db_def demo_cmds_def demo_short_row a_new_def a_create_def a_insert_def demo_row good_row_accepted)
  have "message_of (EMessage ''Error: Expected 2 values, got 1.'') = MError ''Expected 2 values, got 1.''"
    "message_of (EMessage ''Error: Already in a transaction.'') = MError ''Already in a transaction.''"
    using message_of_error [of "''Expected 2 values, got 1.''"] message_of_error [of "''Already in a transaction.''"]
    by (simp_all add: solid_str_def solid_def)
  then have rp: "ask_reply (False, a_new) (Stmt (SCreateTable ''users'' demo_columns)) m \<longleftrightarrow> m = MOk ''Table 'users' created.''"
    "ask_reply (False, ?a1) (Stmt (SInsert ''users'' [VInteger 2, VText ''bob''])) m \<longleftrightarrow> m = MOk ''1 row inserted.''"
    "ask_reply (False, demo_db) (Stmt (SInsert ''users'' [VInteger 2])) m \<longleftrightarrow> m = MError ''Expected 2 values, got 1.''"
    "ask_reply (False, demo_db) (Stmt SBegin) m \<longleftrightarrow> m = MOk ''Transaction started.''"
    "ask_reply (True, ?a2) (Stmt SBegin) m \<longleftrightarrow> m = MError ''Already in a transaction.''"
    "ask_reply (True, ?a2) (Tree ''cars'') m \<longleftrightarrow> m = MError ''Table 'cars' not found.''" for m
    by (simp_all add: cmd_message_def error_message_def demo_short_row demo_db a_new_def a_create_def a_begin_def demo_row good_row_accepted
        quoted_def tree_reply_def no_table_def del: message_of.simps(1) cong: option.case_cong) (simp_all add: quoted_def)
  have "m = MRows [''id'', ''name''] [[''2'', ''bob'']]" if "ask_reply (True, ?a2) (Stmt (SSelect ''users'' None None)) m" for m
    using that by (auto simp: select_result_def select_reply_def shows_table_def matches_eval string_rows_def demo_db a_begin_def
        demo_columns_def bob_def show_int_def show_nat.simps)
  with assms show ?thesis
    unfolding demo_asks_def all_replies_Cons all_replies_Nil e rp by blast
qed

end
