(* ===== verification/Restart_Spec.thy ===== *)
theory Restart_Spec
  imports Server_Spec
begin

text \<open>
  The start of the server and of the REPL in the directory of a process that stopped: the loop
  over the \<open>.db\<close> files gives the durable part of the abstract database.
\<close>

section \<open>Opening a table\<close>

text \<open>The files of a table whose process stopped during \<open>commit\<close>, or before: the crash left whole
  pages, and a log that is empty or holds the complete transaction. A log that is cut short
  stays behind when the table is opened, and theory \<open>Crash\<close> proves what it can do later.\<close>

definition stopped_at :: "table_store \<Rightarrow> disk \<Rightarrow> bool" where
  "stopped_at t d \<longleftrightarrow> crash (commit_ops (ts_pager t)) (table_files t) d \<and> length (fst d) mod PAGE_SIZE = 0 \<and>
     (snd d = [] \<or> recover (wal_open (snd d)) \<noteq> [])"

lemma not_committing: "table_rel b t c d \<Longrightarrow> stopped_at t (table_files t)"
  using saved_length by (auto simp: stopped_at_def crash_now table_rel_def table_files_def holds_rows_def shows_rows_def)

text \<open>A pager that was just opened has nothing in its cache, and nothing in its log.\<close>

lemma opened_pager:
  assumes "pager_open path (fst d) (snd d) = Inr pg" "pager_ok pg" "snd d = [] \<or> recover (wal_open (snd d)) \<noteq> []"
  shows "wal_file (pg_wal pg) = []" "\<not> pg_in_txn pg" "page_view pg = file_view (pg_file pg)" "npages pg = length (pg_file pg) div PAGE_SIZE"
proof -
  have pg: "pg_cache pg = empty_cache" "pg_file_length pg = length (pg_file pg)" "\<not> pg_in_txn pg" "wal_file (pg_wal pg) = []"
    using assms(1,3) by (auto simp: pager_open_def Let_def wal_truncate_def wal_open_def recover_def split: if_splits)
  show "wal_file (pg_wal pg) = []" "\<not> pg_in_txn pg" "npages pg = length (pg_file pg) div PAGE_SIZE"
    using pg by (simp_all add: npages_def)
  show "page_view pg = file_view (pg_file pg)"
    by (rule clean_view [OF assms(2)]) (simp add: pg(1) empty_cache_def)
qed

definition opens :: "files \<Rightarrow> string \<Rightarrow> content \<Rightarrow> bool" where
  "opens fs n e \<longleftrightarrow> (\<forall>s. \<exists>t. open_table fs n (n @ ''.db'') s = (Inr (), s\<lparr>tables := AList.update n t (tables s)\<rparr>) \<and> table_rel False t e e)"

lemma opens_shown:
  assumes d: "opens_to (fs (n @ ''.db'')) f" "snd (fs (n @ ''.db'')) = [] \<or> recover (wal_open (snd (fs (n @ ''.db'')))) \<noteq> []"
    and img: "table_img 1 cs (file_view f) (length f div PAGE_SIZE) root rs"
  shows "opens fs n (cs, mset rs)"
proof -
  let ?path = "n @ ''.db''"
  obtain pg where pg: "pager_open ?path (fst (fs ?path)) (snd (fs ?path)) = Inr pg" "pager_ok pg" "page_view pg = file_view f"
    "npages pg = length f div PAGE_SIZE" using d(1) by (auto simp: opens_to_def)
  note fresh = opened_pager [OF pg(1,2) d(2)]
  have img': "table_img 1 cs (page_view pg) (npages pg) root rs" using img pg(3,4) by simp
  from open_pager_table [OF pg(1,2) img'] obtain pg' where
    r: "read_metadata pg = (Inr (root, cs), pg')" "pg_wal pg' = pg_wal pg" "pg_file pg' = pg_file pg" "pg_in_txn pg' = pg_in_txn pg"
      "shows_rows 1 \<lparr>ts_pager = pg', ts_columns = cs, ts_root = root\<rparr> rs" by (auto elim!: okE)
  let ?t = "\<lparr>ts_pager = pg', ts_columns = cs, ts_root = root\<rparr>"
  have "saved_rows 1 ?t rs" using img' fresh r(3) by (auto simp: saved_rows_def)
  then have "table_rel False ?t (cs, mset rs) (cs, mset rs)"
    by (intro table_relI) (use r fresh in \<open>simp_all add: holds_rows_def\<close>)
  moreover have "open_table fs n ?path s = (Inr (), s\<lparr>tables := AList.update n ?t (tables s)\<rparr>)" for s
    by (simp add: open_table_def pg(1) r(1))
  ultimately show ?thesis unfolding opens_def by blast
qed

lemma stopped_table_opens:
  assumes rel: "table_rel b t c d" and files: "stopped_at t (fs (n @ ''.db''))"
  shows "opens fs n c \<or> opens fs n d" "fs (n @ ''.db'') = table_files t \<Longrightarrow> opens fs n d"
proof -
  let ?d = "fs (n @ ''.db'')" and ?pg = "ts_pager t" and ?f' = "write_pages (dirty_writes (ts_pager t)) (pg_file (ts_pager t))"
  obtain rs saved where t: "holds_rows 1 t rs" "saved_rows 1 t saved" "c = (ts_columns t, mset rs)" "d = (ts_columns t, mset saved)"
    using rel by (auto simp: table_rel_def)
  have pg: "pager_ok ?pg" "wal_file (pg_wal ?pg) = []" and img: "table_img 1 (ts_columns t) (page_view ?pg) (npages ?pg) (ts_root t) rs"
    using t(1) by (simp_all add: holds_rows_def shows_rows_def)
  have img': "table_img 1 (ts_columns t) (file_view ?f') (length ?f' div PAGE_SIZE) (ts_root t) rs"
    using img committed_view [OF pg(1)] committed_length [OF pg(1)] by (simp add: npages_def)
  obtain root where img0: "table_img 1 (ts_columns t) (file_view (pg_file ?pg)) (length (pg_file ?pg) div PAGE_SIZE) root saved"
    using t(2) by (auto simp: saved_rows_def)
  have log: "snd ?d = [] \<or> recover (wal_open (snd ?d)) \<noteq> []" using files by (simp add: stopped_at_def)
  note new = opens_shown [where fs = fs and n = n and f = ?f' and cs = "ts_columns t" and rs = rs, OF _ log img']
  note old = opens_shown [where fs = fs and n = n and f = "pg_file ?pg" and cs = "ts_columns t" and rs = saved, OF _ log img0]
  have "opens_to ?d (pg_file ?pg) \<or> opens_to ?d ?f'"
    using crash_opens [OF pg] files by (simp add: stopped_at_def table_files_def)
  then show "opens fs n c \<or> opens fs n d" using new old t(3,4) by blast
  assume "?d = table_files t"
  then have "?d = (pg_file ?pg, [])" using pg(2) by (simp add: table_files_def)
  then show "opens fs n d" using old opens_clean [OF saved_length [OF pg(1)]] t(4) by simp
qed

section \<open>Opening the tables\<close>

lemma path_of_table: "\<not> ends_with ''.db'' n \<Longrightarrow> table_of_path (n @ ''.db'') = n"
proof -
  assume n: "\<not> ends_with ''.db'' n"
  have "strip_front [''bd.''] (rev n) = rev n"
    using n by (intro strip_front_stop) (simp add: ends_with_def)
  moreover have "strip_front [''bd.''] (''bd.'' @ rev n) = strip_front [''bd.''] (rev n)"
    by (subst strip_front.simps) simp
  ultimately show ?thesis by (simp add: table_of_path_def strip_back_def)
qed

definition loaded :: "(string \<Rightarrow> content) \<Rightarrow> string list \<Rightarrow> adb \<Rightarrow> adb" where
  "loaded found ns a0 = a0\<lparr>working := (\<lambda>n. if n \<in> set ns then Some (found n) else working a0 n),
     durable := (\<lambda>n. if n \<in> set ns then Some (found n) else durable a0 n)\<rparr>"

definition loaded_line :: "string \<Rightarrow> string" where
  "loaded_line n = ''Loaded table '' @ quoted n @ '' from '' @ n @ ''.db''"

lemma load_tables_sim:
  assumes "\<And>n. n \<in> set ns \<Longrightarrow> opens fs n (found n) \<and> \<not> ends_with ''.db'' n" "db_rel s0 a0" "enrolled a0 = {}"
  shows "ok (load_tables fs (map (\<lambda>n. n @ ''.db'') ns)) s0 (\<lambda>out s'. out = map loaded_line ns \<and> db_rel s' (loaded found ns a0))"
  using assms
proof (induction ns arbitrary: s0 a0)
  case Nil
  then show ?case by (simp add: ok_ret loaded_def)
next
  case (Cons n ns)
  have n: "opens fs n (found n)" "\<not> ends_with ''.db'' n" using Cons.prems(1) by simp_all
  obtain t where t: "open_table fs n (n @ ''.db'') s0 = (Inr (), s0\<lparr>tables := AList.update n t (tables s0)\<rparr>)" "table_rel False t (found n) (found n)"
    using n(1) unfolding opens_def by blast
  let ?a1 = "a0\<lparr>working := (working a0)(n \<mapsto> found n), durable := (durable a0)(n \<mapsto> found n)\<rparr>"
  have "db_rel (s0\<lparr>tables := AList.update n t (tables s0)\<rparr>) ?a1"
    by (rule db_rel_update [OF Cons.prems(2)]) (use t(2) Cons.prems(3) in simp_all)
  then have "ok (load_tables fs (map (\<lambda>n. n @ ''.db'') ns)) (s0\<lparr>tables := AList.update n t (tables s0)\<rparr>)
      (\<lambda>out s'. out = map loaded_line ns \<and> db_rel s' (loaded found ns ?a1))"
    using Cons.prems by (intro Cons.IH) auto
  moreover have "loaded found ns ?a1 = loaded found (n # ns) a0"
    by (auto simp: loaded_def fun_eq_iff)
  ultimately show ?case
    using t(1) by (auto simp: ok_def sbind_def caught_def load_line_def loaded_line_def path_of_table [OF n(2)] ret_def split: prod.splits sum.splits)
qed

section \<open>The directory of a stopped process\<close>

text \<open>What a server finds that starts in the directory of one that stopped: \<open>s\<close> were its tables,
  and those in \<open>C\<close> were being committed.\<close>

definition left_behind :: "string set \<Rightarrow> storage \<Rightarrow> adb \<Rightarrow> files \<Rightarrow> string option list \<Rightarrow> string list \<Rightarrow> bool" where
  "left_behind C s a fs entries ns \<longleftrightarrow> db_rel s a \<and> set ns = dom (working a) \<and> find_db_files entries = map (\<lambda>n. n @ ''.db'') ns \<and>
     (\<forall>n t. map_of (tables s) n = Some t \<longrightarrow> \<not> ends_with ''.db'' n \<and>
       (if n \<in> C then stopped_at t (fs (n @ ''.db'')) else fs (n @ ''.db'') = table_files t))"

text \<open>What can be left: every table as it was durable, those in \<open>C\<close> perhaps as they were to be
  committed.\<close>

definition survives :: "string set \<Rightarrow> adb \<Rightarrow> adb \<Rightarrow> bool" where
  "survives C a a' \<longleftrightarrow> enrolled a' = {} \<and> durable a' = working a' \<and>
     (\<forall>n. working a' n = durable a n \<or> n \<in> C \<and> working a' n = working a n)"

lemma db_rel_table:
  assumes "db_rel s a" "map_of (tables s) n = Some t"
  obtains c d where "working a n = Some c" "durable a n = Some d" "table_rel (n \<in> enrolled a) t c d"
proof -
  have "entry_rel a n (Some t)" using assms unfolding db_rel_def by metis
  with that show ?thesis by (auto simp: entry_rel_def split: option.splits)
qed

lemma a_new_empty: "working a_new = (\<lambda>_. None)" "durable a_new = (\<lambda>_. None)" "enrolled a_new = {}"
  by (simp_all add: a_new_def)

lemma loaded_new: "durable (loaded found ns a_new) = working (loaded found ns a_new)" "enrolled (loaded found ns a_new) = {}"
  by (simp_all add: loaded_def a_new_empty cong: if_cong)

definition survivor :: "adb \<Rightarrow> adb" where
  "survivor a = \<lparr>working = durable a, durable = durable a, enrolled = {}\<rparr>"

lemma survives_none: "survives {} a a' \<longleftrightarrow> a' = survivor a"
  by (cases a') (auto simp: survives_def survivor_def)

lemma restart_sim:
  assumes "left_behind C s a fs entries ns"
  obtains a' where "survives C a a'"
    "ok (load_tables fs (find_db_files entries)) storage_new (\<lambda>out s'. out = map loaded_line ns \<and> db_rel s' a')"
proof -
  have rel: "db_rel s a" and ns: "set ns = dom (working a)" "find_db_files entries = map (\<lambda>n. n @ ''.db'') ns"
    and files: "\<And>n t. map_of (tables s) n = Some t \<Longrightarrow> \<not> ends_with ''.db'' n \<and>
       (if n \<in> C then stopped_at t (fs (n @ ''.db'')) else fs (n @ ''.db'') = table_files t)"
    using assms by (simp_all add: left_behind_def)
  have entry: "entry_rel a n (map_of (tables s) n)" for n using rel by (simp add: db_rel_def)
  have "\<exists>e. opens fs n e \<and> \<not> ends_with ''.db'' n \<and> (durable a n = Some e \<or> n \<in> C \<and> working a n = Some e)" if n: "n \<in> set ns" for n
  proof -
    obtain t c d where t: "map_of (tables s) n = Some t" "working a n = Some c" "durable a n = Some d" "table_rel (n \<in> enrolled a) t c d"
      using entry [of n] n ns(1) by (auto simp: entry_rel_def split: option.splits)
    have "stopped_at t (fs (n @ ''.db''))" using files [OF t(1)] not_committing [OF t(4)] by (simp split: if_splits)
    note left = stopped_table_opens [where fs = fs and n = n, OF t(4) this]
    have "opens fs n d \<or> n \<in> C \<and> opens fs n c" using left files [OF t(1)] by (auto split: if_splits)
    then show ?thesis using files [OF t(1)] t(2,3) by blast
  qed
  then obtain found where found: "\<And>n. n \<in> set ns \<Longrightarrow> opens fs n (found n) \<and> \<not> ends_with ''.db'' n \<and>
      (durable a n = Some (found n) \<or> n \<in> C \<and> working a n = Some (found n))" by metis
  have "ok (load_tables fs (map (\<lambda>n. n @ ''.db'') ns)) storage_new (\<lambda>out s'. out = map loaded_line ns \<and> db_rel s' (loaded found ns a_new))"
    using found by (intro load_tables_sim [OF _ db_rel_new]) (simp_all add: a_new_empty)
  moreover have "working (loaded found ns a_new) n = durable a n \<or> n \<in> C \<and> working (loaded found ns a_new) n = working a n" for n
  proof (cases "n \<in> set ns")
    case True
    then show ?thesis using found [OF True] by (simp add: loaded_def) metis
  next
    case False
    then have "durable a n = None" using entry [of n] ns(1) by (auto simp: entry_rel_def split: option.splits)
    then show ?thesis using False by (simp add: loaded_def a_new_empty)
  qed
  then have "survives C a (loaded found ns a_new)"
    by (simp add: survives_def loaded_new)
  ultimately show ?thesis using that by (simp add: ns(2))
qed

lemma start_sim:
  assumes "left_behind C s a fs entries ns"
  obtains a' y where "survives C a a'" "server_start fs entries = Inr (map loaded_line ns, y)" "server_rel y a'"
proof (rule restart_sim [OF assms])
  fix a' assume a': "survives C a a'" and "ok (load_tables fs (find_db_files entries)) storage_new (\<lambda>out s'. out = map loaded_line ns \<and> db_rel s' a')"
  then obtain st where "load_tables fs (find_db_files entries) storage_new = (Inr (map loaded_line ns), st)" "db_rel st a'"
    by (auto elim!: okE)
  with a' show ?thesis by (intro that) (auto simp: server_start_def server_rel_def shared_new_def survives_def)
qed

lemma empty_left_behind: "left_behind {} storage_new a_new fs [Some ''notes.txt''] []"
  by (simp add: left_behind_def db_rel_new, simp add: a_new_def find_db_files_def List.map_filter_simps ends_with_def storage_new_def)

end
