(* ===== verification/Server_Props.thy ===== *)
theory Server_Props
  imports Restart_Spec
begin

text \<open>
  The properties of \<open>src/server.rs\<close> over the abstract database: a whole connection, the end
  of its loop, and the clients of a server that starts where another one stopped.
\<close>

section \<open>Properties\<close>

text \<open>Property C1. The whole server for one client: a client sends any sequence of plain statements
  and \<open>.btree\<close> requests, right or wrong, and closes the connection. The server parses and
  executes every one, answers each with the reply that the abstract database gives, error
  messages included, does not panic, and leaves tables that represent the abstract database; a
  transaction left open is rolled back. This holds as long as the accepted statements are
  \<open>within\<close> the limits (a new table finds no file of its name and its schema fits the metadata
  page; a row has at most 1350 bytes of valid UTF-8 and goes into a table of at most 511 rows)
  and every query fits a frame.\<close>

theorem server_refines:
  assumes "session_rel s x" "asks_legal uc fs qs x" "list_all (\<lambda>q. message_ok (MQuery (ask_text q))) qs"
  shows "\<exists>ms s'. connection uc fs (client_bytes qs) s = (stream ms, s') \<and> replies x qs ms \<and>
    session_rel s' (s_drop (fold ask_exec qs x))"
  using connection_sim [OF assms] by metis

theorem server_refines_witness:
  "\<exists>s'. connection (\<lambda>s. s) (\<lambda>_. ([], [])) (stream [MQuery ''CREATE TABLE users (id INTEGER, name TEXT)'',
       MQuery ''INSERT INTO users VALUES (2, 'bob')'', MQuery ''INSERT INTO users VALUES (2)'', MQuery ''BEGIN'', MQuery ''BEGIN'',
       MQuery ''.btree cars'', MQuery ''SELECT * FROM users'']) demo_session
   = (stream [MOk ''Table 'users' created.'', MOk ''1 row inserted.'', MError ''Expected 2 values, got 1.'', MOk ''Transaction started.'',
       MError ''Already in a transaction.'', MError ''Table 'cars' not found.'', MRows [''id'', ''name''] [[''2'', ''bob'']]], s')"
proof -
  have "map (MQuery \<circ> ask_text) demo_asks = map MQuery (map ask_text demo_asks)" by simp
  with server_refines [OF demo_session_rel demo_asks_legal demo_asks_short] demo_asks_replies
  show ?thesis unfolding demo_asks_text client_bytes_def by fastforce
qed

text \<open>Property C23. The loop of a connection ends on the stream of any queries, right or wrong: it
  answers them one by one, in order, up to the first that panics (or whose storage operation
  never returns), which takes the loop with it and leaves the answers before it written;
  when there is none, the loop returns when the stream ends, between two messages or inside
  one, and a message that is cut short is not answered.\<close>

theorem session_loop_answers:
  assumes "list_all message_ok (map MQuery qs)" "message_ok m" "k < length (write_message m)"
  shows "session_loop uc fs (stream (map MQuery qs) @ take k (write_message m)) s
    = (let (res, ms, s') = answer_queries uc fs qs s in (res, stream ms, s'))"
  using assms(1)
proof (induction qs arbitrary: s)
  case Nil
  then show ?case
    by (subst session_loop.simps) (simp add: read_cut_message [OF assms(2,3)])
next
  case (Cons q qs)
  obtain r s1 where run: "dispatch uc fs q s = (r, s1)" by force
  show ?case
  proof (cases r)
    case (Inl e)
    then show ?thesis using session_loop_panic [OF _ run [unfolded Inl]] Cons.prems run by simp
  next
    case (Inr m1)
    then show ?thesis
      using session_loop_query [OF _ run [unfolded Inr]] Cons.IH [of s1] Cons.prems run by (simp add: case_prod_beta Let_def)
  qed
qed

theorem session_loop_answers_witness:
  "session_loop (\<lambda>s. s) (\<lambda>_. ([], [])) (stream [MQuery ''ROLLBACK''] @ take 7 (write_message (MQuery ''BEGIN''))) demo_session
     = (Inr (), stream [MError ''No active transaction.''], demo_session) \<and>
   session_loop (\<lambda>s. s) (\<lambda>_. ([], [])) (stream [MQuery ''ROLLBACK'', MQuery ''SELECT'', MQuery ''BEGIN''] @ take 7 (write_message (MQuery ''BEGIN''))) demo_session
     = (Inl Panic, stream [MError ''No active transaction.''], demo_session)"
proof -
  have "plain (\<lambda>s. s) SRollback" by simp
  from dispatch_plain [OF this, of "\<lambda>_. ([], [])"]
  have rollback: "dispatch (\<lambda>s. s) (\<lambda>_. ([], [])) ''ROLLBACK'' demo_session = (Inr (MError ''No active transaction.''), demo_session)"
    using message_of_error [of "''No active transaction.''"] by (simp add: sbind_def or_error_def caught_def ret_def session_rollback_def end_txn_def demo_session_out solid_str_def solid_def)
  have sel: "ascii ''SELECT''" "trim ''SELECT'' = ''SELECT''" by (simp_all add: solid_trimmed solid_str_def solid_def)
  then have "parse (\<lambda>s. s) ''SELECT'' = Inl Panic"
    by (simp add: parse_def parse_select_def to_uppercase_ascii ascii_slice unwrap_or_def ascii_upper_def)
  then have select: "dispatch (\<lambda>s. s) (\<lambda>_. ([], [])) ''SELECT'' demo_session = (Inl Panic, demo_session)"
    using sel by (simp add: dispatch_def Let_def strip_prefix_def sbind_def liftR_def)
  have ok: "message_ok (MQuery ''ROLLBACK'')" "message_ok (MQuery ''SELECT'')" "message_ok (MQuery ''BEGIN'')" "7 < length (write_message (MQuery ''BEGIN''))"
    by (simp_all add: write_message_def)
  note loop = session_loop_answers [OF _ ok(3,4), of _ "\<lambda>s. s" "\<lambda>_. ([], [])" demo_session]
  show ?thesis
    using loop [of "[''ROLLBACK'']"] loop [of "[''ROLLBACK'', ''SELECT'', ''BEGIN'']"] ok by (simp add: rollback select)
qed




end
