(* ===== verification/Threads.thy ===== *)
theory Threads
  imports Server Concurrency "HOL-Library.Sublist"
begin

text \<open>
  The server with its threads (\<open>src/server.rs\<close>): one thread for each client, all on the sessions
  of theory \<open>Concurrency\<close>. What a thread does with a message is a plan: it finishes with the
  response, or calls an operation of its session and goes on with the reply. Between the call
  and the reply the other threads move.
\<close>

section \<open>Plans\<close>

datatype 'a plan = Finish 'a | Call request "reply \<Rightarrow> 'a plan"

text \<open>\<open>match session.op() { Ok(x) => ..., Err(msg) => Message("Error: msg") }\<close>\<close>

fun unless_error :: "(reply \<Rightarrow> execute_result result plan) \<Rightarrow> reply \<Rightarrow> execute_result result plan" where
  "unless_error f (Err (Fail msg)) = Finish (Inr (EMessage (''Error: '' @ msg)))"
| "unless_error f (Err e) = Finish (Inl e)"
| "unless_error f rp = f rp"

definition rows_in :: "reply \<Rightarrow> string list \<times> row list" where
  "rows_in rp = (case rp of Rows headers rows \<Rightarrow> (headers, rows) | _ \<Rightarrow> ([], []))"

abbreviation says :: "string \<Rightarrow> reply \<Rightarrow> execute_result result plan" where
  "says msg \<equiv> unless_error (\<lambda>_. Finish (Inr (EMessage msg)))"

text \<open>\<open>execute\<close>: the operations that a statement calls.\<close>

fun statement_plan :: "statement \<Rightarrow> execute_result result plan" where
  "statement_plan (SCreateTable table_name columns) =
     Call (RqCreate table_name columns) (says (''Table '' @ quoted table_name @ '' created.''))"
| "statement_plan (SInsert table_name values) = Call (RqInsert table_name values) (says ''1 row inserted.'')"
| "statement_plan (SSelect table_name None where_clause) =
     Call (RqSelect table_name) (unless_error (\<lambda>rp. Finish (
       rbind (filter_rows where_clause (fst (rows_in rp)) (snd (rows_in rp))) (\<lambda>filtered.
       Inr (ERows (fst (rows_in rp)) (string_rows filtered))))))"
| "statement_plan (SSelect table_name (Some jc) where_clause) =
     Call (RqSelect table_name) (unless_error (\<lambda>left.
     Call (RqSelect (right_table jc)) (unless_error (\<lambda>right.
     Finish (join_tables table_name jc where_clause (rows_in left) (rows_in right))))))"
| "statement_plan (SUnknown cmd) = Finish (Inr (EMessage (''Unrecognised command: '' @ quoted cmd)))"
| "statement_plan SBegin = Call RqBegin (says ''Transaction started.'')"
| "statement_plan SCommit = Call RqCommit (says ''Transaction committed.'')"
| "statement_plan SRollback = Call RqRollback (says ''Transaction rolled back.'')"

definition tree_of :: "reply \<Rightarrow> string result" where
  "tree_of rp = (case rp of Text tree \<Rightarrow> Inr tree | Err e \<Rightarrow> Inl e | _ \<Rightarrow> Inr [])"

text \<open>\<open>dispatch\<close>\<close>

definition query_plan :: "(string \<Rightarrow> string) \<Rightarrow> string \<Rightarrow> message result plan" where
  "query_plan uc text =
     (let sql = trim text in
      case strip_prefix ''.btree '' sql of
        Some stripped \<Rightarrow> Call (RqDump (trim stripped)) (\<lambda>rp. Finish (dump_reply (tree_of rp)))
      | None \<Rightarrow>
          (case parse uc sql of
             Inl e \<Rightarrow> Finish (Inl e)
           | Inr statement \<Rightarrow> map_plan (\<lambda>r. rbind r (\<lambda>result. Inr (message_of result))) (statement_plan statement)))"

fun message_plan :: "(string \<Rightarrow> string) \<Rightarrow> message \<Rightarrow> message result plan" where
  "message_plan uc (MQuery sql) = query_plan uc sql"
| "message_plan uc other = Finish (Inr (MError (''Unexpected message from client: '' @ debug_message other)))"

section \<open>A plan on one session\<close>

text \<open>An operation of a session as a call with its reply.\<close>

definition reply_to :: "('a \<Rightarrow> reply) \<Rightarrow> (session, 'a) sm \<Rightarrow> (session, reply) sm" where
  "reply_to f m = sbind (caught m) (\<lambda>result. ret (case result of Inr x \<Rightarrow> f x | Inl e \<Rightarrow> Err e))"

fun session_call :: "files \<Rightarrow> request \<Rightarrow> (session, reply) sm" where
  "session_call fs (RqCreate n cs) = reply_to (\<lambda>_. Done) (session_create_table fs n cs)"
| "session_call fs (RqInsert n vs) = reply_to (\<lambda>_. Done) (session_insert n vs)"
| "session_call fs (RqSelect n) = reply_to (\<lambda>(headers, rows). Rows headers rows) (session_select_all n)"
| "session_call fs (RqDump n) = reply_to Text (session_dump_btree n)"
| "session_call fs RqBegin = reply_to (\<lambda>_. Done) session_begin"
| "session_call fs RqCommit = reply_to (\<lambda>_. Done) session_commit"
| "session_call fs RqRollback = reply_to (\<lambda>_. Done) session_rollback"
| "session_call fs RqDrop = reply_to (\<lambda>_. Done) session_drop"

primrec run_plan :: "(request \<Rightarrow> ('s, reply) sm) \<Rightarrow> 'a result plan \<Rightarrow> ('s, 'a) sm" where
  "run_plan call (Finish r) = liftR r"
| "run_plan call (Call rq k) = sbind (call rq) (\<lambda>rp. run_plan call (k rp))"

lemma liftR_Inr: "liftR (Inr x) = ret x"
  by (simp add: liftR_def ret_def fun_eq_iff)

lemma run_plan_map:
  "run_plan call (map_plan (\<lambda>r. rbind r (\<lambda>x. Inr (f x))) p) = sbind (run_plan call p) (\<lambda>x. ret (f x))"
proof (induction p)
  case (Finish r)
  show ?case by (cases r) (simp_all add: liftR_def sbind_def ret_def fun_eq_iff)
qed (simp add: sbind_assoc)

lemma caught_returns: "caught m s = (Inr (Inl e), s') \<Longrightarrow> \<exists>msg. e = Fail msg"
  by (auto simp: caught_def split: prod.splits sum.splits error.splits)

lemma run_unless_error:
  assumes "\<And>x. unless_error k (rp x) = k (rp x)"
  shows "sbind (reply_to rp m) (\<lambda>r. run_plan call (unless_error k r)) = or_error m (\<lambda>x. run_plan call (k (rp x)))"
proof
  fix s
  obtain r s' where c: "caught m s = (r, s')" by force
  show "sbind (reply_to rp m) (\<lambda>r. run_plan call (unless_error k r)) s = or_error m (\<lambda>x. run_plan call (k (rp x))) s"
  proof (cases r)
    case (Inr v)
    show ?thesis
    proof (cases v)
      case (Inl e)
      then obtain msg where "e = Fail msg" using c caught_returns [of m s e s'] unfolding Inr by blast
      then show ?thesis using c Inr Inl by (simp add: reply_to_def or_error_def sbind_def ret_def liftR_def)
    qed (use c Inr assms in \<open>simp add: reply_to_def or_error_def sbind_def ret_def\<close>)
  qed (use c in \<open>simp add: reply_to_def or_error_def sbind_def\<close>)
qed

lemma run_select:
  assumes "\<And>rp. run_plan call (k rp) = g (rows_in rp)"
  shows "sbind (reply_to (\<lambda>(headers, rows). Rows headers rows) m) (\<lambda>r. run_plan call (unless_error k r)) = or_error m g"
  by (subst run_unless_error) (auto simp: assms rows_in_def split_beta)

lemma run_statement_plan: "run_plan (session_call fs) (statement_plan st) = execute fs st"
proof (induction st rule: statement_plan.induct)
  case (3 table_name where_clause)
  show ?case
    unfolding statement_plan.simps run_plan.simps session_call.simps
    by (subst run_select [where g = "\<lambda>x. liftR (rbind (filter_rows where_clause (fst x) (snd x)) (\<lambda>f. Inr (ERows (fst x) (string_rows f))))"])
      (auto simp: execute_select_def or_error_def sbind_def liftR_def ret_def rbind_def fun_eq_iff split: sum.splits prod.splits)
next
  case (4 table_name jc where_clause)
  show ?case
    unfolding statement_plan.simps run_plan.simps session_call.simps
    by (subst run_select [where g = "\<lambda>left. or_error (session_select_all (right_table jc)) (\<lambda>right. liftR (join_tables table_name jc where_clause left right))"])
      (auto simp: execute_join_def intro: run_select)
qed (simp_all add: run_unless_error liftR_Inr)

text \<open>A thread alone does what \<open>respond\<close> does.\<close>

lemma run_message_plan: "run_plan (session_call fs) (message_plan uc m) = respond uc fs m"
proof (cases m)
  case (MQuery q)
  have tree: "run_plan (session_call fs) (Call (RqDump n) (\<lambda>rp. Finish (dump_reply (tree_of rp))))
      = sbind (caught (session_dump_btree n)) (\<lambda>result. liftR (dump_reply result))" for n
    by (auto simp: reply_to_def tree_of_def sbind_assoc fun_eq_iff sbind_def ret_def split: prod.splits sum.splits)
  show ?thesis
    by (auto simp: MQuery query_plan_def dispatch_def Let_def tree [simplified] run_plan_map run_statement_plan liftR_def sbind_def fun_eq_iff
        split: option.split sum.split)
qed (simp_all add: liftR_Inr)

section \<open>Threads\<close>

text \<open>The call of an operation, up to the point where the thread can wait for others.\<close>

definition invoke :: "u64 \<Rightarrow> request \<Rightarrow> system \<Rightarrow> system" where
  "invoke i rq y =
     (if gated rq then goto i (AtGate rq) (in_txn y i) y
      else if rq = RqBegin then
        (if in_txn y i then answer i (Err (Fail ''Already in a transaction.'')) True y else goto i (AtGate RqBegin) False y)
      else if in_txn y i then goto i (Passed rq) True y
      else if rq = RqDrop then goto i Gone False y
      else answer i (Err (Fail ''No active transaction.'')) False y)"

lemma invoke_step: "pc_of y i = Idle \<Longrightarrow> step fs i y (invoke i rq y)"
  using step.call [of y i rq fs] step.call_begin [of y i fs] step.begin_again [of y i fs] step.call_end [of y i rq fs]
    step.drop_outside [of y i fs] step.end_outside [of y i fs]
  by (cases rq) (auto simp: invoke_def)

text \<open>
  A thread before its client connects; before the next message, with the bytes still to come;
  at work; waiting for its session; done, with its session to be dropped; ended.
\<close>

datatype thread =
    NotYet | Reading "byte list" | Working "byte list" "message result plan"
  | Waiting "byte list" request "reply \<Rightarrow> message result plan" | Closing | Closed

text \<open>The bytes that the client sends and is sent; \<open>cn_log\<close> records the calls that returned.\<close>

record conn =
  cn_thread :: thread
  cn_in :: "byte list"
  cn_out :: "byte list"
  cn_log :: "(request \<times> reply) list"

record process =
  pr_system :: system
  pr_conns :: "u64 \<Rightarrow> conn"

definition process_new :: "storage \<Rightarrow> process" where
  "process_new st = \<lparr>pr_system = init_system st, pr_conns = (\<lambda>_. \<lparr>cn_thread = NotYet, cn_in = [], cn_out = [], cn_log = []\<rparr>)\<rparr>"

abbreviation thread_of :: "process \<Rightarrow> u64 \<Rightarrow> thread" where
  "thread_of z i \<equiv> cn_thread (pr_conns z i)"

definition on_conn :: "u64 \<Rightarrow> (conn \<Rightarrow> conn) \<Rightarrow> process \<Rightarrow> process" where
  "on_conn i f z = z\<lparr>pr_conns := (pr_conns z)(i := f (pr_conns z i))\<rparr>"

text \<open>
  One step of thread \<open>i\<close> or of its session. A thread that is dead, or whose session is under
  way, does nothing itself. The end of the stream, an error of the socket, which may cut a
  response short, and a panic outside of the storage lock (\<open>unwind\<close>) all drop the session.
\<close>

inductive serve :: "(string \<Rightarrow> string) \<Rightarrow> files \<Rightarrow> u64 \<Rightarrow> process \<Rightarrow> process \<Rightarrow> bool" for uc fs where
  accept: "thread_of z i = NotYet \<Longrightarrow> pc_of (pr_system z) i = Idle \<Longrightarrow> serve uc fs i z (on_conn i (\<lambda>c. c\<lparr>cn_thread := Reading r, cn_in := r\<rparr>) z)"
| read: "thread_of z i = Reading r \<Longrightarrow> pc_of (pr_system z) i = Idle \<Longrightarrow> read_message r = Inr (m, r') \<Longrightarrow>
    serve uc fs i z (on_conn i (cn_thread_update (\<lambda>_. Working r' (message_plan uc m))) z)"
| hang_up: "thread_of z i = Reading r \<Longrightarrow> pc_of (pr_system z) i = Idle \<Longrightarrow> read_message r = Inl e \<Longrightarrow>
    serve uc fs i z (on_conn i (cn_thread_update (\<lambda>_. Closing)) z)"
| call: "thread_of z i = Working r (Call rq k) \<Longrightarrow> pc_of (pr_system z) i = Idle \<Longrightarrow>
    serve uc fs i z (on_conn i (cn_thread_update (\<lambda>_. Waiting r rq k)) (z\<lparr>pr_system := invoke i rq (pr_system z)\<rparr>))"
| move: "pc_of (pr_system z) i \<noteq> Idle \<Longrightarrow> step fs i (pr_system z) y \<Longrightarrow> serve uc fs i z (z\<lparr>pr_system := y\<rparr>)"
| return: "thread_of z i = Waiting r rq k \<Longrightarrow> pc_of (pr_system z) i = Idle \<Longrightarrow> cl_reply (sy_clients (pr_system z) i) = Some rp \<Longrightarrow>
    serve uc fs i z (on_conn i (\<lambda>c. c\<lparr>cn_thread := Working r (k rp), cn_log := cn_log c @ [(rq, rp)]\<rparr>) z)"
| respond: "thread_of z i = Working r (Finish (Inr m)) \<Longrightarrow> pc_of (pr_system z) i = Idle \<Longrightarrow>
    serve uc fs i z (on_conn i (\<lambda>c. c\<lparr>cn_thread := Reading r, cn_out := cn_out c @ write_message m\<rparr>) z)"
| read_fails: "thread_of z i = Reading r \<Longrightarrow> pc_of (pr_system z) i = Idle \<Longrightarrow>
    serve uc fs i z (on_conn i (cn_thread_update (\<lambda>_. Closing)) z)"
| write_fails: "thread_of z i = Working r (Finish (Inr m)) \<Longrightarrow> pc_of (pr_system z) i = Idle \<Longrightarrow>
    serve uc fs i z (on_conn i (\<lambda>c. c\<lparr>cn_thread := Closing, cn_out := cn_out c @ take n (write_message m)\<rparr>) z)"
| unwind: "thread_of z i = Working r (Finish (Inl e)) \<Longrightarrow> pc_of (pr_system z) i = Idle \<Longrightarrow>
    serve uc fs i z (on_conn i (cn_thread_update (\<lambda>_. Closing)) z)"
| close: "thread_of z i = Closing \<Longrightarrow> pc_of (pr_system z) i = Idle \<Longrightarrow>
    serve uc fs i z (on_conn i (cn_thread_update (\<lambda>_. Closed)) (z\<lparr>pr_system := invoke i RqDrop (pr_system z)\<rparr>))"

inductive_cases serveE: "serve uc fs i z z'"

end
