(* ===== verification/Threads_Spec.thy ===== *)
theory Threads_Spec
  imports Threads Concurrency_Spec Server_Spec
begin

text \<open>
  What the clients of the server with its threads are told: each one's answers are those of
  its messages' plans, fed with the replies of its session, and these are the replies of its
  sections in the serial history of all sessions.
\<close>

section \<open>Runs\<close>

inductive served :: "(string \<Rightarrow> string) \<Rightarrow> files \<Rightarrow> storage \<Rightarrow> history \<Rightarrow> process \<Rightarrow> bool" for uc fs st where
  start: "served uc fs st [] (process_new st)"
| more: "served uc fs st h z \<Longrightarrow> serve uc fs i z z' \<Longrightarrow> served uc fs st (h @ section_of fs i (pr_system z)) z'"

lemma on_conn_simps [simp]:
  "pr_system (on_conn i f z) = pr_system z" "pr_conns (on_conn i f z) j = (if j = i then f (pr_conns z i) else pr_conns z j)"
  by (simp_all add: on_conn_def)

lemma section_idle: "pc_of y i = Idle \<Longrightarrow> section_of fs i y = []"
  using section_of_simps(3) by blast

lemma served_execution: "served uc fs st h z \<Longrightarrow> execution fs st h (pr_system z)"
proof (induction rule: served.induct)
  case start
  show ?case by (simp add: process_new_def execution.start)
next
  case (more h z i z')
  note next_step = execution.more [OF more.IH, of i]
  from more.hyps(2) show ?case
  proof cases
    case (call r rq k)
    then show ?thesis using next_step [OF invoke_step [of "pr_system z" i fs rq]] by simp
  next
    case (close)
    then show ?thesis using next_step [OF invoke_step [of "pr_system z" i fs RqDrop]] by simp
  qed (use more.IH next_step in \<open>auto simp: section_idle\<close>)
qed

section \<open>The talk of one client\<close>

text \<open>The calls that returned, as the plan asked for them.\<close>

type_synonym calls = "(request \<times> reply) list"

primrec feeds :: "'a plan \<Rightarrow> calls \<Rightarrow> 'a plan \<Rightarrow> bool" where
  "feeds p [] q \<longleftrightarrow> p = q"
| "feeds p (c # cs) q \<longleftrightarrow> (\<exists>k. p = Call (fst c) k \<and> feeds (k (snd c)) cs q)"

lemma feeds_snoc: "feeds p (cs @ [(rq, rp)]) q \<longleftrightarrow> (\<exists>k. feeds p cs (Call rq k) \<and> k rp = q)"
  by (induction cs arbitrary: p) auto

text \<open>\<open>talks uc r log out r'\<close>: the messages in \<open>r\<close> up to \<open>r'\<close> are answered, the calls \<open>log\<close>
  made, the bytes \<open>out\<close> sent.\<close>

inductive talks :: "(string \<Rightarrow> string) \<Rightarrow> byte list \<Rightarrow> calls \<Rightarrow> byte list \<Rightarrow> byte list \<Rightarrow> bool" for uc r0 where
  silent: "talks uc r0 [] [] r0"
| answered: "talks uc r0 log out r \<Longrightarrow> read_message r = Inr (m, r') \<Longrightarrow> feeds (message_plan uc m) cs (Finish (Inr a)) \<Longrightarrow>
    talks uc r0 (log @ cs) (out @ write_message a) r'"

text \<open>The message that the thread is at, with the calls made for it.\<close>

definition at_work :: "(string \<Rightarrow> string) \<Rightarrow> conn \<Rightarrow> byte list \<Rightarrow> message result plan \<Rightarrow> bool" where
  "at_work uc c r p \<longleftrightarrow> (\<exists>log cs r1 m. cn_log c = log @ cs \<and> talks uc (cn_in c) log (cn_out c) r1 \<and>
     read_message r1 = Inr (m, r) \<and> feeds (message_plan uc m) cs p)"

text \<open>The log is the talk's, up to the calls of a message that is not answered yet, or whose answer
  was cut short.\<close>

definition cut_answer :: "(string \<Rightarrow> string) \<Rightarrow> byte list \<Rightarrow> calls \<Rightarrow> byte list \<Rightarrow> bool" where
  "cut_answer uc r cs part \<longleftrightarrow> part = [] \<or>
     (\<exists>m r' a. read_message r = Inr (m, r') \<and> feeds (message_plan uc m) cs (Finish (Inr a)) \<and> prefix part (write_message a))"

definition talked :: "(string \<Rightarrow> string) \<Rightarrow> conn \<Rightarrow> bool" where
  "talked uc c \<longleftrightarrow> (\<exists>log cs r out part. cn_log c = log @ cs \<and> cn_out c = out @ part \<and> talks uc (cn_in c) log out r \<and>
     cut_answer uc r cs part)"

lemma cut_answer_Nil [simp]: "cut_answer uc r cs []"
  by (simp add: cut_answer_def)

fun thread_ok :: "(string \<Rightarrow> string) \<Rightarrow> conn \<Rightarrow> thread \<Rightarrow> bool" where
  "thread_ok uc c NotYet \<longleftrightarrow> cn_log c = [] \<and> cn_out c = []"
| "thread_ok uc c (Reading r) \<longleftrightarrow> talks uc (cn_in c) (cn_log c) (cn_out c) r"
| "thread_ok uc c (Working r p) \<longleftrightarrow> at_work uc c r p"
| "thread_ok uc c (Waiting r rq k) \<longleftrightarrow> at_work uc c r (Call rq k)"
| "thread_ok uc c Closing \<longleftrightarrow> talked uc c"
| "thread_ok uc c Closed \<longleftrightarrow> talked uc c"

lemma talks_talked: "cn_log c = log @ cs \<Longrightarrow> talks uc (cn_in c) log (cn_out c) r \<Longrightarrow> talked uc c"
  unfolding talked_def by (intro exI [of _ log] exI [of _ cs] exI [of _ r] exI [of _ "cn_out c"] exI [of _ "[]"]) simp

lemma at_work_talked: "at_work uc c r p \<Longrightarrow> talked uc c"
  by (auto simp: at_work_def intro: talks_talked)

lemma thread_ok_talked: "thread_ok uc c t \<Longrightarrow> talked uc c"
proof (cases t)
  case NotYet
  assume "thread_ok uc c t"
  then show ?thesis using NotYet talks.silent [of uc "cn_in c"] by (auto intro: talks_talked [of c "[]" "[]"])
next
  case (Reading r)
  assume "thread_ok uc c t"
  then show ?thesis using Reading by (auto intro: talks_talked [of c "cn_log c" "[]"])
qed (auto intro: at_work_talked)

lemma thread_ok_cong:
  "at_work uc (cn_thread_update f c) = at_work uc c" "talked uc (cn_thread_update f c) = talked uc c"
  "thread_ok uc (cn_thread_update f c) t = thread_ok uc c t"
  by (cases t; simp add: at_work_def talked_def fun_eq_iff)+

lemma serve_thread_ok:
  assumes "serve uc fs i z z'" "\<And>j. thread_ok uc (pr_conns z j) (thread_of z j)"
  shows "thread_ok uc (pr_conns z' j) (thread_of z' j)"
proof -
  have ok: "thread_ok uc (pr_conns z i) (thread_of z i)" by (rule assms(2))
  note talked = thread_ok_talked [OF ok]
  show ?thesis
    using assms(1)
  proof cases
    case (accept r)
    then show ?thesis using ok assms(2) talks.silent [of uc r] by auto
  next
    case (read r m r')
    have "at_work uc (pr_conns z i) r' (message_plan uc m)"
      unfolding at_work_def using ok read(2,4)
      by (intro exI [of _ "cn_log (pr_conns z i)"] exI [of _ "[]"] exI [of _ r] exI [of _ m]) auto
    then show ?thesis using read(1) assms(2) by (simp add: thread_ok_cong)
  next
    case (return r rq k rp)
    then have "at_work uc (pr_conns z i) r (Call rq k)" using ok by simp
    then have "at_work uc ((pr_conns z i)\<lparr>cn_thread := t, cn_log := cn_log (pr_conns z i) @ [(rq, rp)]\<rparr>) r (k rp)" for t
      by (force simp: at_work_def feeds_snoc)
    then show ?thesis using return(1) assms(2) by simp
  next
    case (respond r m)
    then have "at_work uc (pr_conns z i) r (Finish (Inr m))" using ok by simp
    then have "talks uc (cn_in (pr_conns z i)) (cn_log (pr_conns z i)) (cn_out (pr_conns z i) @ write_message m) r"
      by (auto simp: at_work_def intro: talks.answered)
    then show ?thesis using respond(1) assms(2) by simp
  next
    case (write_fails r m n)
    then have "at_work uc (pr_conns z i) r (Finish (Inr m))" using ok by simp
    then obtain log cs r1 m1 where w: "cn_log (pr_conns z i) = log @ cs" "talks uc (cn_in (pr_conns z i)) log (cn_out (pr_conns z i)) r1"
      "read_message r1 = Inr (m1, r)" "feeds (message_plan uc m1) cs (Finish (Inr m))" by (auto simp: at_work_def)
    then have "cut_answer uc r1 cs (take n (write_message m))" by (auto simp: cut_answer_def take_is_prefix)
    then have "talked uc ((pr_conns z i)\<lparr>cn_thread := Closing, cn_out := cn_out (pr_conns z i) @ take n (write_message m)\<rparr>)"
      unfolding talked_def using w(1,2)
      by (intro exI [of _ log] exI [of _ cs] exI [of _ r1] exI [of _ "cn_out (pr_conns z i)"] exI [of _ "take n (write_message m)"]) simp
    then show ?thesis using write_fails(1) assms(2) by simp
  qed (insert ok talked assms(2), simp_all add: thread_ok_cong)
qed

lemma served_thread_ok: "served uc fs st h z \<Longrightarrow> thread_ok uc (pr_conns z j) (thread_of z j)"
proof (induction arbitrary: j rule: served.induct)
  case start
  show ?case by (simp add: process_new_def)
qed (rule serve_thread_ok)

section \<open>The log and the history\<close>

text \<open>What a session refuses by itself, given its flag, and the flag behind a call.\<close>

definition refusal :: "bool \<Rightarrow> request \<Rightarrow> reply option" where
  "refusal b rq =
     (if rq = RqBegin \<and> b then Some (Err (Fail ''Already in a transaction.''))
      else if ends_txn rq \<and> rq \<noteq> RqDrop \<and> \<not> b then Some (Err (Fail ''No active transaction.''))
      else None)"

definition flag_after :: "request \<times> reply \<Rightarrow> bool \<Rightarrow> bool" where
  "flag_after c b = (if fst c = RqBegin then b \<or> snd c = Done else if ends_txn (fst c) then False else b)"

abbreviation flag :: "calls \<Rightarrow> bool" where
  "flag log \<equiv> fold flag_after log False"

definition fits_next :: "bool \<Rightarrow> request \<times> reply \<Rightarrow> bool" where
  "fits_next b c \<longleftrightarrow> (case refusal b (fst c) of Some rp \<Rightarrow> snd c = rp | None \<Rightarrow> True)"

definition section_call :: "bool \<Rightarrow> request \<times> reply \<Rightarrow> calls" where
  "section_call b c = (if refusal b (fst c) = None then [c] else [])"

text \<open>The refusals in a log are those of its session, the other calls are its sections.\<close>

primrec fits :: "bool \<Rightarrow> calls \<Rightarrow> bool" where
  "fits b [] \<longleftrightarrow> True"
| "fits b (c # cs) \<longleftrightarrow> fits_next b c \<and> fits (flag_after c b) cs"

primrec sections :: "bool \<Rightarrow> calls \<Rightarrow> calls" where
  "sections b [] = []"
| "sections b (c # cs) = section_call b c @ sections (flag_after c b) cs"

lemma fits_snoc: "fits b (cs @ [c]) \<longleftrightarrow> fits b cs \<and> fits_next (fold flag_after cs b) c"
  by (induction cs arbitrary: b) auto

lemma sections_snoc: "sections b (cs @ [c]) = sections b cs @ section_call (fold flag_after cs b) c"
  by (induction cs arbitrary: b) auto

definition calls_of :: "u64 \<Rightarrow> history \<Rightarrow> calls" where
  "calls_of i h = map (\<lambda>e. (ev_request e, ev_reply e)) (filter (\<lambda>e. ev_session e = i) h)"

lemma calls_of_append: "calls_of i (h @ h') = calls_of i h @ calls_of i h'"
  by (simp add: calls_of_def)

lemma calls_of_other: "j \<noteq> i \<Longrightarrow> calls_of j (section_of fs i y) = []"
  by (auto simp: calls_of_def section_of_def Let_def split: pc.split)

lemmas log_simps = fits_snoc sections_snoc fits_next_def section_call_def calls_of_append calls_of_def

text \<open>Where a call stands, by the program counter of its session.\<close>

fun call_ok :: "calls \<Rightarrow> calls \<Rightarrow> request \<Rightarrow> bool \<Rightarrow> pc \<Rightarrow> reply option \<Rightarrow> bool" where
  "call_ok log evs rq b Idle rp \<longleftrightarrow> (\<exists>x. rp = Some x \<and> evs = sections False (log @ [(rq, x)]) \<and>
     fits False (log @ [(rq, x)]) \<and> b = flag (log @ [(rq, x)]))"
| "call_ok log evs rq b (Releasing rq' x) rp \<longleftrightarrow> rq' = rq \<and> evs = sections False (log @ [(rq, x)]) \<and>
     fits False (log @ [(rq, x)]) \<and> \<not> flag (log @ [(rq, x)])"
| "call_ok log evs rq b (AtGate rq') rp \<longleftrightarrow> rq' = rq \<and> evs = sections False log \<and> b = flag log \<and> refusal b rq = None"
| "call_ok log evs rq b (Passed rq') rp \<longleftrightarrow> rq' = rq \<and> evs = sections False log \<and> b = flag log \<and> refusal b rq = None"
| "call_ok log evs rq b Claimed rp \<longleftrightarrow> rq = RqBegin \<and> evs = sections False log \<and> \<not> flag log"
| "call_ok log evs rq b _ rp \<longleftrightarrow> prefix (sections False log) evs"

definition log_ok :: "u64 \<Rightarrow> history \<Rightarrow> conn \<Rightarrow> client \<Rightarrow> bool" where
  "log_ok i h c cl \<longleftrightarrow> fits False (cn_log c) \<and>
     (if cl_pc cl = Dead then prefix (sections False (cn_log c)) (calls_of i h)
      else case cn_thread c of
        Closed \<Rightarrow> prefix (sections False (cn_log c)) (calls_of i h)
      | Waiting r rq k \<Rightarrow> call_ok (cn_log c) (calls_of i h) rq (cl_in_txn cl) (cl_pc cl) (cl_reply cl)
      | _ \<Rightarrow> cl_pc cl = Idle \<and> calls_of i h = sections False (cn_log c) \<and> cl_in_txn cl = flag (cn_log c))"

lemma call_ok_prefix: "call_ok log evs rq b p rp \<Longrightarrow> prefix (sections False log) evs"
  by (cases p) (auto simp: sections_snoc)

lemma log_ok_prefix: "log_ok i h c cl \<Longrightarrow> prefix (sections False (cn_log c)) (calls_of i h)"
  by (auto simp: log_ok_def split: if_splits thread.splits intro: call_ok_prefix)

lemma log_ok_dead: "log_ok i h c cl \<Longrightarrow> cl_pc cl' = Dead \<Longrightarrow> prefix (calls_of i h) (calls_of i h') \<Longrightarrow> log_ok i h' c cl'"
  using prefix_order.trans [OF log_ok_prefix [of i h c cl]] by (simp add: log_ok_def)

lemma step_other:
  assumes "step fs i y y'" "j \<noteq> i"
  shows "sy_clients y' j = sy_clients y j \<or> pc_of y' j = Dead"
  using assms(1)
  by cases (use assms(2) run_section_frame in \<open>auto simp: goto_def answer_def die_def\<close>)

lemma begin_done: "run_section fs RqBegin y = (Inr r, y') \<Longrightarrow> r = Done"
  by (auto simp: run_section_def locked_def sbind_def ret_def split: prod.splits sum.splits)

lemma refusal_simps [simp]:
  "gated rq \<Longrightarrow> refusal b rq = None" "refusal b RqDrop = None" "ends_txn rq \<Longrightarrow> refusal True rq = None" "refusal False RqBegin = None" "refusal b RqBegin = None \<longleftrightarrow> \<not> b"
  by (cases rq; simp add: refusal_def)+

lemma flag_after_simps [simp]:
  "gated rq \<Longrightarrow> flag_after (rq, rp) b = b" "ends_txn rq \<Longrightarrow> flag_after (rq, rp) b = False"
  "flag_after (RqBegin, rp) b = (b \<or> rp = Done)"
  by (cases rq; simp add: flag_after_def)+

text \<open>A session under way takes a step.\<close>

lemma move_call_ok:
  assumes st: "step fs i y y'" and pc: "pc_of y i \<noteq> Idle" and up: "pc_of y' i \<noteq> Dead"
    and ok: "call_ok log (calls_of i h) rq (in_txn y i) (pc_of y i) (cl_reply (sy_clients y i))" "fits False log"
  shows "call_ok log (calls_of i (h @ section_of fs i y)) rq (in_txn y' i) (pc_of y' i) (cl_reply (sy_clients y' i))"
  using st
proof cases
  case (exec rq r y1)
  then show ?thesis
    using ok section_of_simps(1) [OF exec(4,2,5)] run_section_frame [OF exec(5)] by (auto simp: log_simps)
next
  case (exec_begin r y1)
  then show ?thesis
    using ok section_of_simps(2) [OF exec_begin(3,2,4)] run_section_frame [OF exec_begin(4)] begin_done [OF exec_begin(4)]
    by (auto simp: log_simps)
next
  case (fail_begin msg y1)
  then show ?thesis
    using ok section_of_simps(2) [OF fail_begin(3,2,4)] run_section_frame [OF fail_begin(4)] by (auto simp: log_simps)
next
  case (exec_end rq r y1)
  then show ?thesis
    using ok section_of_simps(1) [OF exec_end(4,2,5)] run_section_frame [OF exec_end(5)] by (auto simp: log_simps)
next
  case (panic rq y1)
  then show ?thesis using up by (auto simp: die_def split: if_splits)
next
  case (poisoned rq)
  then show ?thesis using up by (auto simp: die_def split: if_splits)
next
  case (release_drop rp)
  then show ?thesis using ok section_of_simps(3) by (auto simp: log_simps)
qed (use pc ok section_of_simps(3) in auto)

lemma invoke_call_ok:
  assumes "pc_of y i = Idle" "evs = sections False log" "in_txn y i = flag log" "fits False log"
  shows "call_ok log evs rq (in_txn (invoke i rq y) i) (pc_of (invoke i rq y) i) (cl_reply (sy_clients (invoke i rq y) i))"
  using assms by (cases rq) (auto simp: invoke_def log_simps refusal_def)

lemma system_step_other:
  assumes "step fs i y y'" "j \<noteq> i" "log_ok j h c (sy_clients y j)"
  shows "log_ok j (h @ section_of fs i y) c (sy_clients y' j)"
  using step_other [OF assms(1,2)]
proof
  assume same: "sy_clients y' j = sy_clients y j"
  have "calls_of j (h @ section_of fs i y) = calls_of j h" by (simp add: calls_of_append calls_of_other [OF assms(2)])
  then show ?thesis using assms(3) unfolding log_ok_def same by metis
next
  assume "pc_of y' j = Dead"
  then show ?thesis by (intro log_ok_dead [OF assms(3)]) (simp_all add: calls_of_append)
qed

lemma system_step_self:
  assumes "step fs i y y'" "pc_of y i \<noteq> Idle" "log_ok i h c (sy_clients y i)"
  shows "log_ok i (h @ section_of fs i y) c (sy_clients y' i)"
proof (cases "pc_of y' i = Dead")
  case True
  then show ?thesis by (intro log_ok_dead [OF assms(3)]) (simp_all add: calls_of_append)
next
  case False
  have "pc_of y i \<noteq> Dead" using assms(1) by cases auto
  then show ?thesis
    using assms(2,3) False move_call_ok [OF assms(1,2) False]
    by (cases "cn_thread c") (auto simp: log_ok_def calls_of_append)
qed

lemma serve_log_ok:
  assumes st: "serve uc fs i z z'" and ok: "\<And>j. log_ok j h (pr_conns z j) (sy_clients (pr_system z) j)"
  shows "log_ok j (h @ section_of fs i (pr_system z)) (pr_conns z' j) (sy_clients (pr_system z') j)"
proof -
  have self: "log_ok i h (pr_conns z i) (sy_clients (pr_system z) i)" by (rule ok)
  have thread: "log_ok j (h @ section_of fs i (pr_system z)) (pr_conns z' j) (sy_clients (pr_system z') j)"
    if "z' = on_conn i f z" "pc_of (pr_system z) i = Idle" "log_ok i h (f (pr_conns z i)) (sy_clients (pr_system z) i)" for f
    using that ok by (simp add: section_idle)
  have invoked: "log_ok j (h @ section_of fs i (pr_system z)) (pr_conns (on_conn i (cn_thread_update (\<lambda>_. t)) z) j)
      (sy_clients (invoke i rq (pr_system z)) j)"
    if idle: "pc_of (pr_system z) i = Idle" and t: "t = Closed \<or> (\<exists>r k. t = Waiting r rq k)"
      and now: "calls_of i h = sections False (cn_log (pr_conns z i))" "in_txn (pr_system z) i = flag (cn_log (pr_conns z i))" for t rq
  proof (cases "j = i")
    case False
    then show ?thesis using system_step_other [OF invoke_step [OF idle] False ok] by simp
  next
    case True
    have "fits False (cn_log (pr_conns z i))" using self by (simp add: log_ok_def)
    from invoke_call_ok [OF idle now this, of rq] this show ?thesis
      using t now by (auto simp: True log_ok_def section_idle [OF idle] intro: call_ok_prefix)
  qed
  from st show ?thesis
  proof cases
    case (move y)
    then show ?thesis
      using system_step_self [OF move(3,2) self] system_step_other [OF move(3) _ ok, of j] by (cases "j = i") auto
  next
    case (call r rq k)
    show ?thesis unfolding call(1) using invoked [of "Waiting r rq k" rq] call(2,3) self by (auto simp: log_ok_def on_conn_def)
  next
    case close
    show ?thesis unfolding close(1) using invoked [of Closed RqDrop] close(2,3) self by (auto simp: log_ok_def on_conn_def)
  qed (erule thread, assumption, insert self, force simp: log_ok_def)+
qed

lemma served_log_ok: "served uc fs st h z \<Longrightarrow> log_ok j h (pr_conns z j) (sy_clients (pr_system z) j)"
proof (induction arbitrary: j rule: served.induct)
  case start
  show ?case by (simp add: process_new_def init_system_def log_ok_def calls_of_def)
qed (rule serve_log_ok)

text \<open>The story of client \<open>i\<close>: its answers come from the plans of its messages, fed with \<open>log\<close>
  (and the calls \<open>cs\<close> of a message not answered, or whose answer was cut to \<open>part\<close>); the
  sections among these calls are, from the first, those of session \<open>i\<close> in the history.\<close>

definition story :: "(string \<Rightarrow> string) \<Rightarrow> history \<Rightarrow> u64 \<Rightarrow> conn \<Rightarrow> bool" where
  "story uc h i c \<longleftrightarrow> (\<exists>log cs r out part. cn_out c = out @ part \<and> talks uc (cn_in c) log out r \<and> cut_answer uc r cs part \<and>
     fits False (log @ cs) \<and> prefix (sections False (log @ cs)) (calls_of i h))"

lemma served_story:
  assumes "served uc fs st h z"
  shows "story uc h i (pr_conns z i)"
proof -
  obtain log cs r out part where t: "cn_log (pr_conns z i) = log @ cs" "cn_out (pr_conns z i) = out @ part"
    "talks uc (cn_in (pr_conns z i)) log out r" "cut_answer uc r cs part"
    using thread_ok_talked [OF served_thread_ok [OF assms, of i]] by (auto simp: talked_def)
  have "log_ok i h (pr_conns z i) (sy_clients (pr_system z) i)" by (rule served_log_ok [OF assms])
  then have "fits False (log @ cs)" "prefix (sections False (log @ cs)) (calls_of i h)"
    using log_ok_prefix unfolding t(1) [symmetric] by (simp add: log_ok_def, blast)
  then show ?thesis unfolding story_def using t(2-4) by blast
qed

section \<open>One message while the others rest\<close>

lemma message_plan_plain:
  assumes "plain uc st"
  shows "message_plan uc (MQuery (sql_of st)) = map_plan (\<lambda>r. rbind r (\<lambda>result. Inr (message_of result))) (statement_plan st)"
  using not_btree [OF assms] parse_plain [OF assms] solid_trimmed [OF plain_solid [OF assms]]
  by (simp add: query_plan_def Let_def)

lemma served_accept:
  assumes "served uc fs st h z" "thread_of z i = NotYet" "resting (pr_system z)"
  shows "served uc fs st h (on_conn i (\<lambda>c. c\<lparr>cn_thread := Reading r, cn_in := r\<rparr>) z)"
proof -
  have idle: "pc_of (pr_system z) i = Idle" using assms(3) by (simp add: resting_def)
  from served.more [OF assms(1) serve.accept [OF assms(2) this, of uc fs r]] show ?thesis by (simp add: section_idle [OF idle])
qed

lemma served_message:
  assumes sv: "served uc fs st h z" and rest: "resting (pr_system z)" and rel: "db_rel (sh_storage (sy_shared (pr_system z))) a"
    and th: "thread_of z i = Reading r" "read_message r = Inr (m, r')" and plan: "message_plan uc m = Call rq k" "gated rq"
    and wi: "within fs (cmd_of rq) a" and fin: "\<And>rp. serial_reply a (cmd_of rq) rp \<Longrightarrow> k rp = Finish (Inr msg)"
  shows "\<exists>rp z'. served uc fs st (h @ [\<lparr>ev_session = i, ev_request = rq, ev_reply = rp\<rparr>]) z' \<and> resting (pr_system z') \<and>
    db_rel (sh_storage (sy_shared (pr_system z'))) (a_exec (cmd_of rq) a) \<and>
    (\<forall>j. thread_of z' j = (if j = i then Reading r' else thread_of z j) \<and> cn_in (pr_conns z' j) = cn_in (pr_conns z j) \<and>
      cn_out (pr_conns z' j) = cn_out (pr_conns z j) @ (if j = i then write_message msg else []))"
proof (rule request_steps [where i = i, OF rest plan(2) rel wi])
  fix rp y2 y3
  let ?y = "pr_system z" and ?e = "[\<lparr>ev_session = i, ev_request = rq, ev_reply = rp\<rparr>]"
  let ?y1 = "goto i (AtGate rq) False ?y"
  assume s: "step fs i ?y ?y1" "step fs i ?y1 y2" "step fs i y2 y3"
    "section_of fs i ?y1 = []" "pc_of y2 i = Passed rq" "section_of fs i y2 = ?e"
    and y3: "resting y3" "cl_reply (sy_clients y3 i) = Some rp" "db_rel (sh_storage (sy_shared y3)) (a_exec (cmd_of rq) a)"
    and rp: "serial_reply a (cmd_of rq) rp"
  have idle: "pc_of ?y i = Idle" "\<not> in_txn ?y i" "pc_of y3 i = Idle" using rest y3(1) by (simp_all add: resting_def)
  note quiet = section_idle [OF idle(1)] section_idle [OF idle(3)]
  let ?z1 = "on_conn i (cn_thread_update (\<lambda>_. Working r' (Call rq k))) z"
  let ?z2 = "on_conn i (cn_thread_update (\<lambda>_. Waiting r' rq k)) (?z1\<lparr>pr_system := ?y1\<rparr>)"
  let ?z5 = "on_conn i (\<lambda>c. c\<lparr>cn_thread := Working r' (k rp), cn_log := cn_log c @ [(rq, rp)]\<rparr>) (?z2\<lparr>pr_system := y3\<rparr>)"
  let ?z6 = "on_conn i (\<lambda>c. c\<lparr>cn_thread := Reading r', cn_out := cn_out c @ write_message msg\<rparr>) ?z5"
  have "served uc fs st h ?z1"
    using served.more [OF sv serve.read [OF th(1) idle(1) th(2), of uc fs]] by (simp add: plan quiet)
  moreover have "invoke i rq ?y = ?y1" using plan(2) idle(2) by (simp add: invoke_def)
  ultimately have "served uc fs st h ?z2"
    using served.more [OF _ serve.call [of ?z1 i r' rq k uc fs], of st h] idle(1) by (simp add: quiet)
  then have "served uc fs st h (?z2\<lparr>pr_system := y2\<rparr>)"
    using served.more [OF _ serve.move [of ?z2 i fs y2 uc], of st h] s(2,4) by simp
  then have "served uc fs st (h @ ?e) (?z2\<lparr>pr_system := y3\<rparr>)"
    using served.more [OF _ serve.move [of "?z2\<lparr>pr_system := y2\<rparr>" i fs y3 uc], of st h] s(3,5,6) by simp
  then have "served uc fs st (h @ ?e) ?z5"
    using served.more [OF _ serve.return [of "?z2\<lparr>pr_system := y3\<rparr>" i r' rq k rp uc fs], of st "h @ ?e"] idle(3) y3(2)
    by (simp add: quiet on_conn_def)
  then have "served uc fs st (h @ ?e) ?z6"
    using served.more [OF _ serve.respond [of ?z5 i r' msg uc fs], of st "h @ ?e"] idle(3) fin [OF rp] by (simp add: quiet on_conn_def)
  then show ?thesis
    using y3(1,3) by (intro exI [of _ rp] exI [of _ ?z6]) (auto simp: on_conn_def)
qed

lemma served_statement:
  assumes sv: "served uc fs st h z" "resting (pr_system z)" "db_rel (sh_storage (sy_shared (pr_system z))) a"
    and th: "thread_of z i = Reading (write_message (MQuery (sql_of stmt)) @ r)" "plain uc stmt" "message_ok (MQuery (sql_of stmt))"
    and plan: "statement_plan stmt = Call rq k" "gated rq" "within fs (cmd_of rq) a"
    and fin: "\<And>rp. serial_reply a (cmd_of rq) rp \<Longrightarrow> k rp = Finish (Inr res)"
  obtains rp z' where "served uc fs st (h @ [\<lparr>ev_session = i, ev_request = rq, ev_reply = rp\<rparr>]) z'" "resting (pr_system z')"
    "db_rel (sh_storage (sy_shared (pr_system z'))) (a_exec (cmd_of rq) a)"
    "\<forall>j. thread_of z' j = (if j = i then Reading r else thread_of z j)"
    "\<forall>j. cn_out (pr_conns z' j) = cn_out (pr_conns z j) @ (if j = i then write_message (message_of res) else [])"
proof -
  let ?f = "map_plan (\<lambda>r. rbind r (\<lambda>result. Inr (message_of result)))"
  have "message_plan uc (MQuery (sql_of stmt)) = Call rq (?f \<circ> k)" using message_plan_plain [OF th(2)] plan(1) by simp
  from served_message [OF sv th(1) read_write_message [OF th(3)] this plan(2,3), of "message_of res"] fin
  show ?thesis using that by auto
qed

end
