(* ===== verification/Threads_Props.thy ===== *)
theory Threads_Props
  imports Threads_Spec
begin

text \<open>The properties of the server with its threads.\<close>

text \<open>Property C5. The concurrent server, as long as the storage sections that were performed are
  \<open>within\<close> their limits (a new table finds no file of its name and its schema fits the metadata
  page; a row that is accepted has at most 1350 bytes of valid UTF-8 and goes into a table of
  at most 511 rows): whatever the schedule of its threads, and whatever clients hang up or
  sockets break, there is one serial history of all storage sections that gives the
  final tables and every reply, transactions do not overlap in it, no panic poisons the lock,
  and every client is told exactly what the messages it sent ask for, answered from the
  sections of its own session in that history, in order (and its session's own refusals of a
  nested BEGIN or a COMMIT outside a transaction).\<close>

theorem threads_serializable:
  assumes "served uc fs st h z" "db_rel st a" "enrolled a = {}" "all_within (ev_within fs) ev_exec h a"
  shows "serial a h \<and> db_rel (sh_storage (sy_shared (pr_system z))) (fold ev_exec h a) \<and> \<not> sy_poisoned (pr_system z) \<and>
    turns h None \<noteq> None \<and> (\<forall>i. story uc h i (pr_conns z i))"
  using execution_serial [OF served_execution [OF assms(1)] assms(2-4)] served_story [OF assms(1)] by (auto simp: serial_inv_def)

text \<open>Two clients: the first creates a table, the second fills it, the first reads it.\<close>

lemma demo_plain:
  "plain (\<lambda>s. s) (SCreateTable ''users'' demo_columns)" "plain (\<lambda>s. s) (SInsert ''users'' [VInteger 2, VText ''bob''])"
  "plain (\<lambda>s. s) (SSelect ''users'' None None)"
  using all_within_all [OF demo_asks_legal] by (simp_all add: demo_asks_def)

lemma demo_sent:
  "message_ok (MQuery (sql_of (SCreateTable ''users'' demo_columns)))"
  "message_ok (MQuery (sql_of (SInsert ''users'' [VInteger 2, VText ''bob''])))" "message_ok (MQuery (sql_of (SSelect ''users'' None None)))"
  using demo_asks_short by (simp_all add: demo_asks_def)

lemma demo_serial_replies:
  "serial_reply a_new (CreateTable ''users'' demo_columns) rp \<Longrightarrow> rp = Done"
  "serial_reply (a_create ''users'' demo_columns a_new) (Insert ''users'' [VInteger 2, VText ''bob'']) rp \<Longrightarrow> rp = Done"
  "serial_reply demo_db (Select ''users'') rp \<Longrightarrow> rp = Rows [''id'', ''name''] [bob]"
proof -
  show "serial_reply a_new (CreateTable ''users'' demo_columns) rp \<Longrightarrow> rp = Done"
    by (auto simp: serial_reply_def a_new_def)
  show "serial_reply (a_create ''users'' demo_columns a_new) (Insert ''users'' [VInteger 2, VText ''bob'']) rp \<Longrightarrow> rp = Done"
    by (auto simp: serial_reply_def a_create_def demo_row good_row_accepted)
  show "serial_reply demo_db (Select ''users'') rp \<Longrightarrow> rp = Rows [''id'', ''name''] [bob]"
    using demo_db(1) by (auto simp: serial_reply_def shows_table_def demo_columns_def)
qed

lemma demo_finish:
  "serial_reply a_new (cmd_of (RqCreate ''users'' demo_columns)) rp \<Longrightarrow>
   says (''Table '' @ quoted ''users'' @ '' created.'') rp = Finish (Inr (EMessage ''Table 'users' created.''))"
  "serial_reply (a_create ''users'' demo_columns a_new) (cmd_of (RqInsert ''users'' [VInteger 2, VText ''bob''])) rp \<Longrightarrow>
   says ''1 row inserted.'' rp = Finish (Inr (EMessage ''1 row inserted.''))"
  "serial_reply demo_db (cmd_of (RqSelect ''users'')) rp \<Longrightarrow>
   unless_error (\<lambda>rp. Finish (rbind (filter_rows None (fst (rows_in rp)) (snd (rows_in rp))) (\<lambda>filtered.
     Inr (ERows (fst (rows_in rp)) (string_rows filtered))))) rp = Finish (Inr (ERows [''id'', ''name''] [[''2'', ''bob'']]))"
  using demo_serial_replies [of rp]
  by (simp_all add: quoted_def rows_in_def string_rows_def bob_def show_int_def show_nat.simps)

lemma process_new_simps [simp]:
  "pr_system (process_new st) = init_system st" "thread_of (process_new st) i = NotYet" "cn_out (pr_conns (process_new st) i) = []"
  "sh_storage (sy_shared (init_system st)) = st"
  by (simp_all add: process_new_def init_system_def shared_new_def)

theorem threads_serializable_witness:
  "\<exists>h z. served (\<lambda>s. s) (\<lambda>_. ([], [])) storage_new h z \<and> map ev_session h = [1, 2, 1] \<and> serial a_new h \<and>
     cn_out (pr_conns z 1) = stream [MOk ''Table 'users' created.'', MRows [''id'', ''name''] [[''2'', ''bob'']]] \<and>
     cn_out (pr_conns z 2) = stream [MOk ''1 row inserted.''] \<and> story (\<lambda>s. s) h 1 (pr_conns z 1) \<and> story (\<lambda>s. s) h 2 (pr_conns z 2)"
proof -
  let ?fs = "\<lambda>_. ([], [])" and ?a1 = "a_create ''users'' demo_columns a_new"
  let ?st1 = "SCreateTable ''users'' demo_columns" and ?st2 = "SInsert ''users'' [VInteger 2, VText ''bob'']" and ?st3 = "SSelect ''users'' None None"
  let ?m1 = "MQuery (sql_of ?st1)" and ?m2 = "MQuery (sql_of ?st2)" and ?m3 = "MQuery (sql_of ?st3)"
  let ?rq1 = "RqCreate ''users'' demo_columns" and ?rq2 = "RqInsert ''users'' [VInteger 2, VText ''bob'']" and ?rq3 = "RqSelect ''users''"
  have w: "within ?fs (cmd_of ?rq1) a_new" "within ?fs (cmd_of ?rq2) ?a1" "within ?fs (cmd_of ?rq3) demo_db"
    by (simp_all add: a_new_def a_create_def demo_columns_ok demo_row MAX_PAGES_def)
  have e: "a_exec (cmd_of ?rq1) a_new = ?a1" "a_exec (cmd_of ?rq2) ?a1 = demo_db"
    by (simp_all add: a_new_def a_create_def demo_row good_row_accepted demo_db_def demo_cmds_def)
  let ?accept = "\<lambda>i r. on_conn i (\<lambda>c. c\<lparr>cn_thread := Reading r, cn_in := r\<rparr>)"
  define z2 where "z2 = ?accept 2 (write_message ?m2) (?accept 1 (write_message ?m1 @ write_message ?m3) (process_new storage_new))"
  have z2: "served (\<lambda>s. s) ?fs storage_new [] z2"
    unfolding z2_def by (intro served_accept served.start) (simp_all add: resting_init)
  have z2': "resting (pr_system z2)" "db_rel (sh_storage (sy_shared (pr_system z2))) a_new" "cn_out (pr_conns z2 j) = []"
    "thread_of z2 1 = Reading (write_message ?m1 @ write_message ?m3)" "thread_of z2 2 = Reading (write_message ?m2)" for j
    by (simp_all add: z2_def resting_init db_rel_new)
  have g: "gated ?rq1" "gated ?rq2" "gated ?rq3" by simp_all
  obtain p1 z3 where z3: "served (\<lambda>s. s) ?fs storage_new ([] @ [\<lparr>ev_session = 1, ev_request = ?rq1, ev_reply = p1\<rparr>]) z3" "resting (pr_system z3)"
    "db_rel (sh_storage (sy_shared (pr_system z3))) (a_exec (cmd_of ?rq1) a_new)"
    "\<forall>j. thread_of z3 j = (if j = 1 then Reading (write_message ?m3) else thread_of z2 j)"
    "\<forall>j. cn_out (pr_conns z3 j) = cn_out (pr_conns z2 j) @ (if j = 1 then write_message (message_of (EMessage ''Table 'users' created.'')) else [])"
    by (rule served_statement [OF z2 z2'(1,2,4) demo_plain(1) demo_sent(1) statement_plan.simps(1) g(1) w(1) demo_finish(1)])
  have t2: "thread_of z3 2 = Reading (write_message ?m2 @ [])" using z3(4) z2'(5) by simp
  obtain p2 z4 where z4: "served (\<lambda>s. s) ?fs storage_new (([] @ [\<lparr>ev_session = 1, ev_request = ?rq1, ev_reply = p1\<rparr>]) @ [\<lparr>ev_session = 2, ev_request = ?rq2, ev_reply = p2\<rparr>]) z4" "resting (pr_system z4)"
    "db_rel (sh_storage (sy_shared (pr_system z4))) (a_exec (cmd_of ?rq2) ?a1)"
    "\<forall>j. thread_of z4 j = (if j = 2 then Reading [] else thread_of z3 j)"
    "\<forall>j. cn_out (pr_conns z4 j) = cn_out (pr_conns z3 j) @ (if j = 2 then write_message (message_of (EMessage ''1 row inserted.'')) else [])"
    by (rule served_statement [OF z3(1,2) z3(3) [unfolded e] t2 demo_plain(2) demo_sent(2) statement_plan.simps(2) g(2) w(2) demo_finish(2)])
  have t3: "thread_of z4 1 = Reading (write_message ?m3 @ [])" using z3(4) z4(4) by simp
  obtain p3 z5 where z5: "served (\<lambda>s. s) ?fs storage_new ((([] @ [\<lparr>ev_session = 1, ev_request = ?rq1, ev_reply = p1\<rparr>]) @ [\<lparr>ev_session = 2, ev_request = ?rq2, ev_reply = p2\<rparr>]) @ [\<lparr>ev_session = 1, ev_request = ?rq3, ev_reply = p3\<rparr>]) z5" "resting (pr_system z5)"
    "db_rel (sh_storage (sy_shared (pr_system z5))) (a_exec (cmd_of ?rq3) demo_db)"
    "\<forall>j. thread_of z5 j = (if j = 1 then Reading [] else thread_of z4 j)"
    "\<forall>j. cn_out (pr_conns z5 j) = cn_out (pr_conns z4 j) @ (if j = 1 then write_message (message_of (ERows [''id'', ''name''] [[''2'', ''bob'']])) else [])"
    by (rule served_statement [OF z4(1,2) z4(3) [unfolded e] t3 demo_plain(3) demo_sent(3) statement_plan.simps(3) g(3) w(3) demo_finish(3)])
  let ?h = "((([] @ [\<lparr>ev_session = 1, ev_request = ?rq1, ev_reply = p1\<rparr>]) @ [\<lparr>ev_session = 2, ev_request = ?rq2, ev_reply = p2\<rparr>]) @ [\<lparr>ev_session = 1, ev_request = ?rq3, ev_reply = p3\<rparr>]) :: history"
  have "all_within (ev_within ?fs) ev_exec ?h a_new" unfolding all_within.simps event.simps append.simps using w e by simp
  from threads_serializable [OF z5(1) db_rel_new _ this]
  have "serial a_new ?h" "\<forall>i. story (\<lambda>s. s) ?h i (pr_conns z5 i)" by (simp_all add: a_new_def)
  with z5(1,5) z4(5) z3(5) z2'(3) show ?thesis by (intro exI [of _ ?h] exI [of _ z5]) simp
qed

end
