(* ===== verification/Console.thy ===== *)
theory Console
  imports Server
begin

text \<open>
  What the user sees: \<open>src/repl.rs\<close> and \<open>src/client.rs\<close> as functions from the lines typed
  to the lines printed (and, for the client, the bytes sent), and the command line of
  \<open>src/main.rs\<close>. Reading the terminal and writing to it do not fail.
\<close>

section \<open>Tables\<close>

text \<open>\<open>{:<width$}\<close> counts characters; the widths themselves are byte lengths.\<close>

definition char_count :: "string \<Rightarrow> nat" where
  "char_count s = length (filter (\<lambda>c. \<not> continues c) s)"

definition pad :: "nat \<Rightarrow> string \<Rightarrow> string" where
  "pad w s = s @ replicate (w - char_count s) (CHR '' '')"

text \<open>\<open>for (i, cell) in row.iter().enumerate() { if i < widths.len() { widths[i] = max } }\<close>\<close>

fun widen :: "string list \<Rightarrow> nat list \<Rightarrow> nat list" where
  "widen [] ws = ws"
| "widen (c # cs) [] = []"
| "widen (c # cs) (w # ws) = max w (length c) # widen cs ws"

definition column_widths :: "string list \<Rightarrow> string list list \<Rightarrow> nat list" where
  "column_widths headers rows = fold widen rows (map length headers)"

fun pad_cells :: "nat list \<Rightarrow> string list \<Rightarrow> string list" where
  "pad_cells ws [] = []"
| "pad_cells (w # ws) (c # cs) = pad w c # pad_cells ws cs"
| "pad_cells [] (c # cs) = pad (length c) c # pad_cells [] cs"

definition table_lines :: "string list \<Rightarrow> string list list \<Rightarrow> string list" where
  "table_lines headers rows =
     (let widths = column_widths headers rows in
      join_with '' | '' (pad_cells widths headers) #
      join_with ''-+-'' (map (\<lambda>w. replicate w (CHR ''-'')) widths) #
      map (\<lambda>row. join_with '' | '' (pad_cells widths row)) rows)"

definition print_table :: "string list \<Rightarrow> string list list \<Rightarrow> string list" where
  "print_table headers rows =
     (if rows = [] then [''(0 rows)'']
      else table_lines headers rows @
        [''('' @ show_nat (length rows) @ '' row'' @ (if length rows = 1 then '''' else ''s'') @ '')''])"

section \<open>The local REPL\<close>

text \<open>Lines printed, and whether the process goes on.\<close>

datatype console = Print "string list" | Quit "string list"

definition em_dash :: string where
  "em_dash = [CHR 0xE2, CHR 0x80, CHR 0x94]"

definition help_sql :: "string list" where
  "help_sql =
     [''Supported SQL:'',
      ''  CREATE TABLE <name> (<col> INTEGER|TEXT, ...)'',
      ''  INSERT INTO <name> VALUES (<val>, ...)'',
      ''  SELECT * FROM <name> [JOIN <name> ON <col> = <col>] [WHERE ...]'',
      ''  BEGIN / COMMIT / ROLLBACK'',
      ''Meta-commands:'']"

definition repl_help :: "string list" where
  "repl_help = help_sql @
     [''  .help            '' @ em_dash @ '' show this message'',
      ''  .btree <table>   '' @ em_dash @ '' visualise B+Tree structure'',
      ''  .exit            '' @ em_dash @ '' quit'']"

definition handle_meta :: "string \<Rightarrow> (session, console) sm" where
  "handle_meta cmd =
     (if cmd = ''.exit'' \<or> cmd = ''.quit'' then ret (Quit [''Bye!''])
      else if cmd = ''.help'' then ret (Print repl_help)
      else if starts_with ''.btree'' cmd then
        (let table = trim (drop (length ''.btree'') cmd) in
         if table = [] then ret (Print [''Usage: .btree <table_name>''])
         else sbind (caught (session_dump_btree table)) (\<lambda>result. case result of
             Inr tree \<Rightarrow> ret (Print [tree])
           | Inl (Fail e) \<Rightarrow> ret (Print [''Error: '' @ e])
           | Inl e \<Rightarrow> raise e))
      else ret (Print [''Unknown meta-command: '' @ quoted cmd]))"

fun result_lines :: "execute_result \<Rightarrow> string list" where
  "result_lines (EMessage msg) = [msg]"
| "result_lines (ERows headers rows) = print_table headers rows"

definition repl_line :: "(string \<Rightarrow> string) \<Rightarrow> files \<Rightarrow> string \<Rightarrow> (session, console) sm" where
  "repl_line uc fs line =
     (let input = trim line in
      if input = [] then ret (Print [])
      else if starts_with ''.'' input then handle_meta input
      else
        sbind (liftR (parse uc input)) (\<lambda>statement.
        sbind (execute fs statement) (\<lambda>result. ret (Print (result_lines result)))))"

text \<open>\<open>println!("\nBye!")\<close>\<close>

definition bye :: string where
  "bye = CHR 0x0A # ''Bye!''"

text \<open>Until the end of the input, where the session is dropped; \<open>.exit\<close> ends the process at once.\<close>

primrec repl_loop :: "(string \<Rightarrow> string) \<Rightarrow> files \<Rightarrow> string list \<Rightarrow> (session, string list) sm" where
  "repl_loop uc fs [] = sbind session_drop (\<lambda>_. ret [bye])"
| "repl_loop uc fs (line # lines) =
     sbind (repl_line uc fs line) (\<lambda>c. case c of
       Quit out \<Rightarrow> ret out
     | Print out \<Rightarrow> sbind (repl_loop uc fs lines) (\<lambda>rest. ret (out @ rest)))"

text \<open>The whole process: the tables of the directory are loaded, a banner, the loop. The prompts
  are left out of the lines.\<close>

definition repl_banner :: string where
  "repl_banner = ''mukhidb v0.5.0 (repl mode)  |  Type .exit to quit, .help for hints.''"

definition repl_run :: "(string \<Rightarrow> string) \<Rightarrow> files \<Rightarrow> string option list \<Rightarrow> string list \<Rightarrow> string list result \<times> storage" where
  "repl_run uc fs entries lines =
     (case load_tables fs (find_db_files entries) storage_new of
        (Inl e, st) \<Rightarrow> (Inl e, st)
      | (Inr loaded, st) \<Rightarrow>
          (case repl_loop uc fs lines (session_new (shared_new st) 1) of
             (Inl e, s) \<Rightarrow> (Inl e, sh_storage (ss_shared s))
           | (Inr out, s) \<Rightarrow> (Inr (loaded @ repl_banner # out), sh_storage (ss_shared s))))"

section \<open>The client\<close>

definition client_help :: "string list" where
  "client_help = help_sql @
     [''  .help            '' @ em_dash @ '' show this message'',
      ''  .btree <table>   '' @ em_dash @ '' visualise B+Tree structure (executed on server)'',
      ''  .exit            '' @ em_dash @ '' disconnect'']"

fun show_reply :: "message \<Rightarrow> string list" where
  "show_reply (MOk s) = [s]"
| "show_reply (MError s) = [''Error: '' @ s]"
| "show_reply (MRows headers rows) = print_table headers rows"
| "show_reply other = [''Unexpected message from server: '' @ debug_message other]"

text \<open>The lines printed and the bytes sent, given the lines typed and the bytes the server sends.\<close>

fun client_loop :: "string list \<Rightarrow> byte list \<Rightarrow> string list \<times> byte list" where
  "client_loop [] r = ([bye], [])"
| "client_loop (line # lines) r =
     (let input = trim line in
      if input = [] then client_loop lines r
      else if input = ''.exit'' \<or> input = ''.quit'' then ([bye], [])
      else if input = ''.help'' then
        (let (out, sent) = client_loop lines r in (client_help @ out, sent))
      else
        (case read_message r of
           Inl e \<Rightarrow> ([''Connection lost: '' @ error_text e, bye], write_message (MQuery input))
         | Inr (m, r') \<Rightarrow>
             let (out, sent) = client_loop lines r' in (show_reply m @ out, write_message (MQuery input) @ sent)))"

text \<open>The whole client: \<open>connect\<close> is the network, which refuses an address or gives the bytes
  that the server there sends.\<close>

definition client_banner :: "string \<Rightarrow> string" where
  "client_banner addr = ''mukhidb client v0.5.0  |  Connected to '' @ addr @ ''  |  .exit to quit, .help for hints.''"

definition client_run :: "(string \<Rightarrow> string + byte list) \<Rightarrow> string \<Rightarrow> u16 \<Rightarrow> string list \<Rightarrow> string + (string list \<times> byte list)" where
  "client_run connect host port lines =
     (let addr = host @ '':'' @ show_nat (unat port) in
      case connect addr of
        Inl e \<Rightarrow> Inl (''Connect to '' @ addr @ '' failed: '' @ e)
      | Inr r \<Rightarrow> (let (out, sent) = client_loop lines r in Inr (client_banner addr # out, sent)))"

section \<open>The command line\<close>

definition DEFAULT_PORT :: u16 where "DEFAULT_PORT = 4567"
definition DEFAULT_HOST :: string where "DEFAULT_HOST = ''127.0.0.1''"

definition usage_lines :: "string list" where
  "usage_lines =
     [''mukhidb v0.5.0'', '''', ''Usage:'',
      ''  mukhidb repl                         Local REPL (default, no network)'',
      ''  mukhidb server [--port N]            Run as TCP server (default port '' @ show_nat (unat DEFAULT_PORT) @ '')'',
      ''  mukhidb connect [--host H] [--port N]  Connect to a server'',
      ''  mukhidb help                         Show this message'']"

text \<open>\<open>parse_port\<close>: the first \<open>--port\<close> with a number behind it.\<close>

fun parse_port :: "string list \<Rightarrow> u16" where
  "parse_port (arg # value # args) =
     (case (if arg = ''--port'' then parse_u16 value else None) of
        Some p \<Rightarrow> p
      | None \<Rightarrow> parse_port (value # args))"
| "parse_port _ = DEFAULT_PORT"

fun host_port_from :: "string \<Rightarrow> u16 \<Rightarrow> string list \<Rightarrow> string \<times> u16" where
  "host_port_from host port (arg # value # args) =
     (if arg = ''--host'' then host_port_from value port args
      else if arg = ''--port'' then
        host_port_from host (case parse_u16 value of Some p \<Rightarrow> p | None \<Rightarrow> port) args
      else host_port_from host port (value # args))"
| "host_port_from host port _ = (host, port)"

definition parse_host_port :: "string list \<Rightarrow> string \<times> u16" where
  "parse_host_port args = host_port_from DEFAULT_HOST DEFAULT_PORT args"

text \<open>What \<open>main\<close> starts, given the arguments behind the program's name.\<close>

datatype command = RunRepl | RunServer string u16 | RunClient string u16 | Usage | UnknownCommand string

definition main_command :: "string list \<Rightarrow> command" where
  "main_command args =
     (let cmd = (case args of [] \<Rightarrow> ''repl'' | c # _ \<Rightarrow> c); rest = drop 1 args in
      if cmd = ''repl'' then RunRepl
      else if cmd = ''server'' then RunServer DEFAULT_HOST (parse_port rest)
      else if cmd = ''connect'' then (let (host, port) = parse_host_port rest in RunClient host port)
      else if cmd = ''--help'' \<or> cmd = ''-h'' \<or> cmd = ''help'' then Usage
      else UnknownCommand cmd)"

text \<open>What \<open>main\<close> prints itself and the exit code, given the error that the command returned, if
  any.\<close>

fun main_end :: "command \<Rightarrow> string option \<Rightarrow> string list \<times> nat" where
  "main_end (RunServer host port) (Some e) = ([''Server error: '' @ e], 1)"
| "main_end (RunClient host port) (Some e) = ([''Client error: '' @ e], 1)"
| "main_end Usage _ = (usage_lines, 0)"
| "main_end (UnknownCommand cmd) _ = ((''Unknown command: '' @ cmd) # usage_lines, 2)"
| "main_end _ _ = ([], 0)"

end
