(* ===== verification/Console_Props.thy ===== *)
theory Console_Props
  imports Console Restart_Spec
begin

text \<open>
  The properties of \<open>src/repl.rs\<close>, \<open>src/client.rs\<close> and \<open>src/main.rs\<close>: tables are aligned,
  and the client shows what the local REPL shows.
\<close>

section \<open>Alignment\<close>

lemma char_count_ascii: "ascii s \<Longrightarrow> char_count s = length s"
  by (induction s) (auto simp: char_count_def)

lemma length_pad: "ascii c \<Longrightarrow> length c \<le> w \<Longrightarrow> length (pad w c) = w"
  by (simp add: pad_def char_count_ascii)

lemma length_join_with: "length (join_with sep xs) = sum_list (map length xs) + length sep * (length xs - 1)"
  by (induction sep xs rule: join_with.induct) auto

lemma length_widen: "length (widen cs ws) = length ws"
  by (induction cs ws rule: widen.induct) auto

lemma widen_le: "i < length ws \<Longrightarrow> ws ! i \<le> widen cs ws ! i"
proof (induction cs ws arbitrary: i rule: widen.induct)
  case (3 c cs w ws)
  then show ?case by (cases i) auto
qed simp_all

lemma widen_covers: "i < length ws \<Longrightarrow> i < length cs \<Longrightarrow> length (cs ! i) \<le> widen cs ws ! i"
proof (induction cs ws arbitrary: i rule: widen.induct)
  case (3 c cs w ws)
  then show ?case by (cases i) auto
qed simp_all

lemma length_fold_widen: "length (fold widen rows ws) = length ws"
  by (induction rows arbitrary: ws) (simp_all add: length_widen)

lemma fold_widen_le: "i < length ws \<Longrightarrow> ws ! i \<le> fold widen rows ws ! i"
proof (induction rows arbitrary: ws)
  case (Cons row rows)
  have "widen row ws ! i \<le> fold widen rows (widen row ws) ! i"
    by (rule Cons.IH) (use Cons.prems in \<open>simp add: length_widen\<close>)
  with widen_le [OF Cons.prems, of row] have "ws ! i \<le> fold widen rows (widen row ws) ! i" by (rule order_trans)
  then show ?case by simp
qed simp

lemma fold_widen_covers:
  "row \<in> set rows \<Longrightarrow> i < length ws \<Longrightarrow> i < length row \<Longrightarrow> length (row ! i) \<le> fold widen rows ws ! i"
proof (induction rows arbitrary: ws)
  case (Cons r rows)
  show ?case
  proof (cases "row = r")
    case True
    then show ?thesis
      using widen_covers [of i ws r] fold_widen_le [of i "widen r ws" rows] Cons.prems by (simp add: length_widen)
  qed (use Cons in \<open>simp add: length_widen\<close>)
qed simp

lemma lengths_pad_cells:
  "list_all2 (\<lambda>c w. ascii c \<and> length c \<le> w) cs ws \<Longrightarrow> map length (pad_cells ws cs) = ws"
  by (induction cs ws rule: list_all2_induct) (simp_all add: length_pad)

lemma cells_fit:
  assumes "row = headers \<or> row \<in> set rows" "list_all ascii row" "length row = length headers"
  shows "list_all2 (\<lambda>c w. ascii c \<and> length c \<le> w) row (column_widths headers rows)"
  using assms fold_widen_covers [of row rows _ "map length headers"] fold_widen_le [of _ "map length headers" rows]
  by (auto simp: list_all2_conv_all_nth column_widths_def length_fold_widen list_all_length)

section \<open>Properties\<close>

text \<open>Property C31. Printed tables are aligned: for ASCII headers and cells every line (header,
  divider and rows) has the same length, the sum of the widths and the separators between
  them, and no cell is wider than its column.\<close>

theorem table_aligned:
  assumes "list_all ascii headers" "\<forall>row \<in> set rows. list_all ascii row \<and> length row = length headers"
  shows "(\<forall>l \<in> set (table_lines headers rows). length l = sum_list (column_widths headers rows) + 3 * (length headers - 1)) \<and>
    (\<forall>row \<in> set rows. \<forall>i < length headers. length (row ! i) \<le> column_widths headers rows ! i)"
proof -
  let ?ws = "column_widths headers rows"
  have len: "length ?ws = length headers" by (simp add: column_widths_def length_fold_widen)
  have line: "length (join_with '' | '' (pad_cells ?ws row)) = sum_list ?ws + 3 * (length headers - 1)"
    if "row = headers \<or> row \<in> set rows" for row
  proof -
    have "list_all2 (\<lambda>c w. ascii c \<and> length c \<le> w) row ?ws"
      using that assms by (intro cells_fit) auto
    then have "map length (pad_cells ?ws row) = ?ws" by (rule lengths_pad_cells)
    moreover from this have "length (pad_cells ?ws row) = length headers" using len by (metis length_map)
    ultimately show ?thesis by (simp add: length_join_with)
  qed
  have "length (join_with ''-+-'' (map (\<lambda>w. replicate w (CHR ''-'')) ?ws)) = sum_list ?ws + 3 * (length headers - 1)"
    by (simp add: length_join_with comp_def len)
  moreover have "\<forall>row \<in> set rows. \<forall>i < length headers. length (row ! i) \<le> ?ws ! i"
    using cells_fit [of _ headers rows] assms by (auto simp: list_all2_conv_all_nth len)
  ultimately show ?thesis using line by (auto simp: table_lines_def Let_def)
qed

theorem table_aligned_witness:
  "print_table [''id'', ''name''] [[''2'', ''bob''], [''10'', ''alice'']]
   = [''id | name '', ''---+------'', ''2  | bob  '', ''10 | alice'', ''(2 rows)''] \<and>
   map length (table_lines [''id'', ''name''] [[''2'', ''bob''], [''10'', ''alice'']]) = [10, 10, 10, 10]"
proof
  show "print_table [''id'', ''name''] [[''2'', ''bob''], [''10'', ''alice'']]
    = [''id | name '', ''---+------'', ''2  | bob  '', ''10 | alice'', ''(2 rows)'']"
    by (simp add: print_table_def table_lines_def column_widths_def pad_def char_count_def show_nat.simps)
  have "\<forall>l \<in> set (table_lines [''id'', ''name''] [[''2'', ''bob''], [''10'', ''alice'']]). length l = 10"
    using table_aligned [of "[''id'', ''name'']" "[[''2'', ''bob''], [''10'', ''alice'']]"]
    by (simp add: column_widths_def)
  then show "map length (table_lines [''id'', ''name''] [[''2'', ''bob''], [''10'', ''alice'']]) = [10, 10, 10, 10]"
    by (simp add: table_lines_def Let_def)
qed

section \<open>The client and the REPL\<close>

text \<open>An error text that the server's trimming does not change: all those of the program.\<close>

definition proper :: "string \<Rightarrow> bool" where
  "proper msg \<longleftrightarrow> solid_str msg \<and> \<not> starts_with ''Error:'' msg"

fun tidy :: "execute_result \<Rightarrow> bool" where
  "tidy (EMessage s) \<longleftrightarrow> \<not> starts_with ''Error:'' s \<or> (\<exists>msg. s = ''Error: '' @ msg \<and> proper msg)"
| "tidy (ERows headers rows) \<longleftrightarrow> True"

lemma show_message_of: "tidy res \<Longrightarrow> show_reply (message_of res) = result_lines res"
proof (cases res)
  case (EMessage s)
  assume "tidy res"
  with EMessage show ?thesis
    using message_of_error by (cases "starts_with ''Error:'' s") (auto simp: proper_def)
qed simp

lemma tidy_error: "proper msg \<Longrightarrow> tidy (error_message msg)"
  by (auto simp: error_message_def)

lemma proper_messages:
  "proper (no_table n)" "proper (''Table '' @ quoted n @ '' already exists.'')" "proper ''JOIN column not found.''"
  "proper ''Already in a transaction.''" "proper ''No active transaction.''"
  by (simp_all add: proper_def no_table_def solid_str_def solid_def)

lemma proper_row_error: "row_error cs vs = Some msg \<Longrightarrow> proper msg"
  by (auto simp: row_error_def type_error_def Let_def proper_def solid_str_def solid_def split: if_splits option.splits)

lemma proper_rejected: "s_rejected c x = Some msg \<Longrightarrow> proper msg"
  by (cases x; cases c) (auto simp: proper_messages proper_messages(2) [simplified] proper_row_error split: if_splits option.splits)

lemma tidy_reply:
  assumes "stmt_reply x st res" "plain uc st"
  shows "tidy res"
proof (cases "stmt_cmd st")
  case (Some y)
  then obtain c msg where "stmt_cmd st = Some (c, msg)" "res = cmd_message c msg x"
    using assms(1) stmt_cmd_reply by (metis prod.collapse)
  then show ?thesis
    using proper_rejected [THEN tidy_error] by (cases st) (auto simp: cmd_message_def split: option.splits)
next
  case None
  then obtain n j w where st: "st = SSelect n j w" using assms(2) by (cases st) auto
  show ?thesis
    using assms(1) proper_messages [THEN tidy_error]
    by (cases j) (auto simp: st select_result_def select_reply_def join_result_def join_reply_def Let_def split: option.splits)
qed

text \<open>The text of a request, typed as a line.\<close>

lemma ask_text_line:
  assumes "plain_ask uc q"
  shows "trim (ask_text q) = ask_text q" "ask_text q \<noteq> []" "ask_text q \<noteq> ''.exit''" "ask_text q \<noteq> ''.quit''" "ask_text q \<noteq> ''.help''"
proof -
  have solid: "solid_str (ask_text q)"
  proof (cases q)
    case (Stmt st)
    then show ?thesis using plain_solid assms by simp
  next
    case (Tree n)
    have "solid_str n" using assms Tree by (simp add: ref_solid word_ref)
    then show ?thesis using solid_append [of "''.btree''" n "'' ''"] Tree by (simp add: solid_str_def solid_def)
  qed
  then show "trim (ask_text q) = ask_text q" "ask_text q \<noteq> []" by (auto simp: solid_trimmed solid_str_def)
  show "ask_text q \<noteq> ''.exit''" "ask_text q \<noteq> ''.quit''" "ask_text q \<noteq> ''.help''"
    using assms by (cases q; cases "case q of Stmt st \<Rightarrow> st"; simp)+
qed

text \<open>The REPL prints for a line what the client prints for the server's reply.\<close>

lemma repl_line_ask:
  assumes rel: "session_rel s x" and q: "plain_ask uc q \<and> ask_within fs q x" and run: "dispatch uc fs (ask_text q) s = (Inr m, s')"
  shows "repl_line uc fs (ask_text q) s = (Inr (Print (show_reply m)), s')"
proof (cases q)
  case (Stmt st)
  have st: "plain uc st" "stmt_within fs st x" using q Stmt by simp_all
  obtain res where res: "execute fs st s = (Inr res, s')" "stmt_reply x st res" "m = message_of res"
    using run execute_sim [OF rel st(2)] unfolding Stmt ask_text.simps dispatch_plain [OF st(1)]
    by (auto simp: sbind_def ret_def elim!: okE)
  have "show_reply m = result_lines res" using show_message_of tidy_reply [OF res(2) st(1)] res(3) by simp
  moreover have "\<not> starts_with ''.'' (sql_of st)" by (cases st) (use st(1) in simp_all)
  ultimately show ?thesis
    using res(1) ask_text_line(1,2) [of uc q] q parse_plain [OF st(1)]
    by (simp add: Stmt repl_line_def Let_def liftR_def sbind_def ret_def)
next
  case (Tree n)
  have n: "word n" "n \<noteq> []" using q Tree by (auto simp: word_def)
  have trims: "trim (''.btree '' @ n) = ''.btree '' @ n" "trim (CHR '' '' # n) = n"
    using ask_text_line(1) [of uc q] q solid_trimmed [OF ref_solid [OF word_ref [OF n(1)]]] by (simp_all add: Tree trim_space)
  obtain r where r: "caught (session_dump_btree n) s = (Inr r, s')" "dump_reply r = Inr m"
    using run unfolding Tree ask_text.simps dispatch_tree [OF n(1)]
    by (auto simp: sbind_def liftR_def split: prod.splits sum.splits)
  then show ?thesis
    using n(2) trims
    by (cases r; cases "projl r") (auto simp: Tree repl_line_def handle_meta_def Let_def sbind_def dump_reply_def ret_def)
qed

lemma repl_loop_asks:
  assumes "session_rel s x" "asks_legal uc fs qs x" "dispatch_all uc fs (map ask_text qs) s = (Inr ms, s1)" "session_drop s1 = (Inr (), s2)"
  shows "repl_loop uc fs (map ask_text qs) s = (Inr (concat (map show_reply ms) @ [bye]), s2)"
  using assms
proof (induction qs arbitrary: s x ms)
  case Nil
  then show ?case by (simp add: sbind_def ret_def)
next
  case (Cons q qs)
  obtain m s' ms' where run: "dispatch uc fs (ask_text q) s = (Inr m, s')" "dispatch_all uc fs (map ask_text qs) s' = (Inr ms', s1)" "ms = m # ms'"
    using Cons.prems(3) by (auto simp: sbind_def ret_def split: prod.splits sum.splits)
  have q: "plain_ask uc q \<and> ask_within fs q x" using Cons.prems(2) by simp
  have "session_rel s' (ask_exec q x)" using dispatch_sim [OF Cons.prems(1) q] run(1) by (auto elim!: okE)
  from Cons.IH [OF this _ run(2) Cons.prems(4)] Cons.prems(2) repl_line_ask [OF Cons.prems(1) q run(1)] run(3)
  show ?case by (simp add: sbind_def ret_def)
qed

lemma client_loop_asks:
  "list_all (plain_ask uc) qs \<Longrightarrow> list_all message_ok ms \<Longrightarrow> length ms = length qs \<Longrightarrow>
   client_loop (map ask_text qs) (stream ms) = (concat (map show_reply ms) @ [bye], stream (map (MQuery \<circ> ask_text) qs))"
proof (induction qs arbitrary: ms)
  case (Cons q qs)
  then obtain m ms' where ms: "ms = m # ms'" by (cases ms) auto
  then show ?case
    using Cons ask_text_line [of uc q] read_write_message [of m "stream ms'"] by (simp add: Let_def)
qed simp

text \<open>One conversation, from any state of the session.\<close>

lemma conversations_agree:
  assumes rel: "session_rel s x" and legal: "asks_legal uc fs qs x"
    and short: "list_all (\<lambda>q. message_ok (MQuery (ask_text q))) qs" "\<And>ms. replies x qs ms \<Longrightarrow> list_all message_ok ms"
  obtains received out s' where "connection uc fs (client_bytes qs) s = (received, s')"
    "client_loop (map ask_text qs) received = (out, client_bytes qs)" "repl_loop uc fs (map ask_text qs) s = (Inr out, s')"
proof -
  obtain ms s1 s2 where run: "dispatch_all uc fs (map ask_text qs) s = (Inr ms, s1)" "session_drop s1 = (Inr (), s2)"
    and m: "replies x qs ms" and c: "connection uc fs (client_bytes qs) s = (stream ms, s2)"
    by (rule connection_sim [OF rel legal short(1)])
  have "list_all (plain_ask uc) qs" by (rule all_within_all [OF legal])
  from client_loop_asks [OF this short(2) [OF m] all_replies_length [OF m]]
  have "client_loop (map ask_text qs) (stream ms) = (concat (map show_reply ms) @ [bye], client_bytes qs)"
    by (simp only: client_bytes_def)
  then show ?thesis using repl_loop_asks [OF rel legal run] by (rule that [OF c])
qed

text \<open>Property C16. The local REPL and the client with a server behind it are the same program:
  started in the same directory, which a process left behind in order, and typed the same
  lines, the REPL prints what the server and the client print, banners apart, and leaves the
  same tables. The lines are plain statements and \<open>.btree\<close> commands, right or wrong, of which
  those that are accepted are \<open>within\<close> the limits of the storage, and no query or reply exceeds
  the length of a frame. (Outside the limits the two differ: where CREATE TABLE panics, the
  REPL dies and the client says that the connection is lost.)\<close>

theorem repl_is_client_and_server:
  assumes "left_behind {} s a fs entries ns" "client_legal uc fs qs (survivor a)"
    and "\<And>ms. replies (False, survivor a) qs ms \<Longrightarrow> list_all message_ok ms"
  shows "\<exists>loaded y received y' out sent.
    server_start fs entries = Inr (loaded, y) \<and> server_accept uc fs sent y = (Inr received, y') \<and>
    client_run (\<lambda>_. Inr received) host port (map ask_text qs) = Inr (client_banner (host @ '':'' @ show_nat (unat port)) # out, sent) \<and>
    repl_run uc fs entries (map ask_text qs) = (Inr (loaded @ repl_banner # out), sh_storage (sv_shared y'))"
proof -
  obtain st where start: "load_tables fs (find_db_files entries) storage_new = (Inr (map loaded_line ns), st)" "db_rel st (survivor a)"
    by (rule restart_sim [OF assms(1)]) (auto simp: survives_none elim!: okE)
  let ?s = "session_new (shared_new st) 1"
  have rel: "session_rel ?s (False, survivor a)" using start(2) by (simp add: session_new_def shared_new_def survivor_def)
  obtain received out s' where c: "connection uc fs (client_bytes qs) ?s = (received, s')"
    "client_loop (map ask_text qs) received = (out, client_bytes qs)" "repl_loop uc fs (map ask_text qs) ?s = (Inr out, s')"
    using assms(2) unfolding client_legal_def by (elim conjE) (rule conversations_agree [OF rel _ _ assms(3)])
  have "server_start fs entries = Inr (map loaded_line ns, \<lparr>sv_shared = shared_new st, sv_next_id = 1\<rparr>)"
    by (simp add: server_start_def start(1))
  moreover have "server_accept uc fs (client_bytes qs) \<lparr>sv_shared = shared_new st, sv_next_id = 1\<rparr> = (Inr received, \<lparr>sv_shared = ss_shared s', sv_next_id = 2\<rparr>)"
    by (simp add: server_accept_def c(1))
  moreover have "client_run (\<lambda>_. Inr received) host port (map ask_text qs)
      = Inr (client_banner (host @ '':'' @ show_nat (unat port)) # out, client_bytes qs)"
    by (simp add: client_run_def Let_def c(2))
  moreover have "repl_run uc fs entries (map ask_text qs)
      = (Inr (map loaded_line ns @ repl_banner # out), sh_storage (sv_shared \<lparr>sv_shared = ss_shared s', sv_next_id = 2\<rparr>))"
    by (simp add: repl_run_def start(1) c(3))
  ultimately show ?thesis by blast
qed

theorem repl_is_client_and_server_witness:
  "\<exists>loaded y received y' out sent.
    server_start (\<lambda>_. ([], [])) [Some ''notes.txt''] = Inr (loaded, y) \<and> server_accept (\<lambda>s. s) (\<lambda>_. ([], [])) sent y = (Inr received, y') \<and>
    client_run (\<lambda>_. Inr received) ''localhost'' 4567 (map ask_text demo_asks)
      = Inr (client_banner (''localhost'' @ '':'' @ show_nat (unat (4567 :: u16))) # out, sent) \<and>
    repl_run (\<lambda>s. s) (\<lambda>_. ([], [])) [Some ''notes.txt''] (map ask_text demo_asks) = (Inr (loaded @ repl_banner # out), sh_storage (sv_shared y'))"
proof (rule repl_is_client_and_server [OF empty_left_behind])
  have a: "survivor a_new = a_new" by (simp add: survivor_def a_new_def)
  show "client_legal (\<lambda>s. s) (\<lambda>_. ([], [])) demo_asks (survivor a_new)"
    unfolding a client_legal_def using demo_asks_legal demo_asks_short by (rule conjI)
  fix ms assume "replies (False, survivor a_new) demo_asks ms"
  from demo_asks_replies [OF this [unfolded a]] show "list_all message_ok ms" by (simp add: str_ok_def encode_rows_def encode_str_def)
qed

end
